(* ===== verification/Prelude.thy ===== *)
theory Prelude
  imports Main "HOL-Library.Char_ord" "HOL-Library.List_Lexorder" "HOL-Library.Multiset"
    "HOL-Library.Word" "HOL-Library.AList" "HOL-Library.Sublist"
begin

text \<open>
  Shared types and lemmas of the development.

  Go strings and byte slices are byte sequences, so both are \<open>string\<close> (a list of 8-bit
  \<open>char\<close>s, compared bytewise by \<open>Char_ord\<close> and \<open>List_Lexorder\<close>, as Go compares strings).
  A Go \<open>error\<close> is a value of \<open>goerr\<close>; a function that may fail or panic returns
  \<open>fault + 'a\<close>, where \<open>Panicked\<close> (a nil dereference) is kept apart from a returned error
  because no \<open>err != nil\<close> test of the callers sees it.
  A Go map is an association list with distinct keys whose order is the order in which this
  run of the program iterates over it (Go leaves that order unspecified).
\<close>

named_theorems pool_simps \<open>effect of the pool operations on the fields of the state\<close>
named_theorems pool_inv \<open>operations that preserve the invariant of the front pool\<close>
named_theorems client_simps \<open>effect of client operations on the fields of the client\<close>

subsection \<open>Errors\<close>

datatype errno = ENETUNREACH | EHOSTUNREACH | OtherErrno string

text \<open>
  \<open>ErrText\<close> is \<open>errors.New\<close> or \<open>fmt.Errorf\<close> without a wrapped error, \<open>ErrWrap p e\<close> is
  \<open>fmt.Errorf("p: %w", e)\<close>, \<open>ErrJoin\<close> is \<open>errors.Join\<close>, \<open>ErrOp\<close> is a \<open>*net.OpError\<close> with the
  error it holds, \<open>ErrErrno\<close> a \<open>syscall.Errno\<close>.
  The others are the sentinel errors of the program and of package \<open>context\<close>.
\<close>

datatype goerr =
    ErrText string
  | ErrWrap string goerr
  | ErrJoin "goerr list"
  | ErrOp string goerr
  | ErrErrno errno
  | ErrCanceled
  | ErrDeadlineExceeded
  | ErrH2UpgradeUnsupported
  | ErrRetryableStatus int
  | ErrRoundTripperUsed

datatype fault = Returned goerr | Panicked

type_synonym 'a res = "fault + 'a"

text \<open>\<open>errors.Is (e, t)\<close> for a sentinel \<open>t\<close>: some error of the chain of \<open>e\<close> is \<open>t\<close>.\<close>

fun errors_is :: "goerr \<Rightarrow> goerr \<Rightarrow> bool" where
  "errors_is (ErrWrap p e) t = (ErrWrap p e = t \<or> errors_is e t)"
| "errors_is (ErrJoin es) t = (ErrJoin es = t \<or> list_ex (\<lambda>e. errors_is e t) es)"
| "errors_is (ErrOp p e) t = (ErrOp p e = t \<or> errors_is e t)"
| "errors_is e t = (e = t)"

text \<open>\<open>%d\<close> for a natural number and an integer.\<close>

fun show_nat :: "nat \<Rightarrow> string" where
  "show_nat n = (if n < 10 then [char_of (48 + n)] else show_nat (n div 10) @ [char_of (48 + n mod 10)])"

declare show_nat.simps [simp del]

definition show_int :: "int \<Rightarrow> string" where
  "show_int i = (if i < 0 then CHR ''-'' # show_nat (nat (- i)) else show_nat (nat i))"

fun intercalate :: "string \<Rightarrow> string list \<Rightarrow> string" where
  "intercalate sep [] = []"
| "intercalate sep [x] = x"
| "intercalate sep (x # y # xs) = x @ sep @ intercalate sep (y # xs)"

text \<open>The text of an error, \<open>err.Error()\<close>.\<close>

fun errno_text :: "errno \<Rightarrow> string" where
  "errno_text ENETUNREACH = ''network is unreachable''"
| "errno_text EHOSTUNREACH = ''no route to host''"
| "errno_text (OtherErrno s) = s"

fun error_text :: "goerr \<Rightarrow> string" where
  "error_text (ErrText s) = s"
| "error_text (ErrWrap p e) = p @ '': '' @ error_text e"
| "error_text (ErrJoin es) = intercalate [CHR 0x0A] (map error_text es)"
| "error_text (ErrOp p e) = p @ '': '' @ error_text e"
| "error_text (ErrErrno n) = errno_text n"
| "error_text ErrCanceled = ''context canceled''"
| "error_text ErrDeadlineExceeded = ''context deadline exceeded''"
| "error_text ErrH2UpgradeUnsupported = ''connection upgrade not supported over HTTP/2 front''"
| "error_text (ErrRetryableStatus n) = ''front returned retryable status '' @ show_int n"
| "error_text ErrRoundTripperUsed = ''domainfront: connected round-tripper already used''"

subsection \<open>Loops that may stop with a fault\<close>

text \<open>\<open>for x := range xs { y := f (x); ys = append (ys, y) }\<close> where \<open>f\<close> may panic or make the loop return.\<close>

fun map_res :: "('a \<Rightarrow> 'b res) \<Rightarrow> 'a list \<Rightarrow> 'b list res" where
  "map_res f [] = Inr []"
| "map_res f (x # xs) =
     (case f x of
        Inl e \<Rightarrow> Inl e
      | Inr y \<Rightarrow> (case map_res f xs of Inl e \<Rightarrow> Inl e | Inr ys \<Rightarrow> Inr (y # ys)))"

lemma map_res_Inr_iff:
  "map_res f xs = Inr ys \<longleftrightarrow> list_all2 (\<lambda>x y. f x = Inr y) xs ys"
proof (induction xs arbitrary: ys)
  case (Cons x xs)
  then show ?case by (cases ys) (auto simp flip: Cons.IH split: sum.splits)
qed auto

lemma map_res_Inl_ex: "map_res f xs = Inl e \<Longrightarrow> \<exists>x\<in>set xs. f x = Inl e"
  by (induction xs) (auto split: sum.splits)

lemma map_res_ok_iff: "(\<exists>ys. map_res f xs = Inr ys) \<longleftrightarrow> (\<forall>x\<in>set xs. \<exists>y. f x = Inr y)"
  by (induction xs) (auto split: sum.splits)

lemma map_res_map: "(\<And>x. x \<in> set xs \<Longrightarrow> f x = Inr (g x)) \<Longrightarrow> map_res f xs = Inr (map g xs)"
  by (induction xs) auto

lemma map_res_in_set: "map_res f xs = Inr ys \<Longrightarrow> y \<in> set ys \<Longrightarrow> \<exists>x\<in>set xs. f x = Inr y"
  by (force simp: map_res_Inr_iff list_all2_conv_all_nth in_set_conv_nth)

subsection \<open>Time\<close>

text \<open>
  A \<open>time.Time\<close> is its wall clock reading in nanoseconds since January 1 of year 1, so that the
  zero \<open>Time\<close> is 0; a \<open>time.Duration\<close> is a number of nanoseconds.
  \<open>Sub\<close> saturates at the bounds of \<open>int64\<close>, \<open>UnixNano\<close> wraps around, as in package \<open>time\<close>.
\<close>

type_synonym gotime = int

abbreviation zero_time :: gotime where
  "zero_time \<equiv> 0"

definition unix_epoch :: gotime where
  "unix_epoch = 62135596800 * 1000000000"

definition UnixNano :: "gotime \<Rightarrow> int" where
  "UnixNano t = sint (word_of_int (t - unix_epoch) :: 64 word)"

definition time_Sub :: "gotime \<Rightarrow> gotime \<Rightarrow> int" where
  "time_Sub t u = max (- (2 ^ 63)) (min (2 ^ 63 - 1) (t - u))"

text \<open>The times after the Unix epoch that \<open>UnixNano\<close> represents exactly (1970 to 2262).\<close>

definition in_unix_range :: "gotime \<Rightarrow> bool" where
  "in_unix_range t \<longleftrightarrow> unix_epoch < t \<and> t - unix_epoch < 2 ^ 63"

lemma UnixNano_in_range: "in_unix_range t \<Longrightarrow> UnixNano t = t - unix_epoch"
  unfolding in_unix_range_def UnixNano_def
  by (subst signed_of_int) (simp add: signed_take_bit_int_eq_self)

lemma in_unix_range_nonzero: "in_unix_range t \<Longrightarrow> t \<noteq> zero_time"
  by (simp add: in_unix_range_def unix_epoch_def)

subsection \<open>Lists\<close>

lemma map_of_update: "map_of (AList.update k v xs) = (map_of xs)(k \<mapsto> v)"
  by (rule ext) (simp add: AList.update_conv')

lemma map_of_fold_update:
  "map_of (fold (\<lambda>x m. AList.update (k x) (v x) m) xs m) =
     map_of m ++ map_of (rev (map (\<lambda>x. (k x, v x)) xs))"
  by (induction xs arbitrary: m)
    (auto simp: map_of_update fun_eq_iff map_add_def map_of_append split: option.splits)

lemma map_of_rev_distinct: "distinct (map fst xs) \<Longrightarrow> map_of (rev xs) = map_of xs"
  by (subst map_of_inject_set) (auto simp flip: rev_map)

lemma find_Some_set: "find P xs = Some x \<Longrightarrow> x \<in> set xs \<and> P x"
  by (auto simp: find_Some_iff)

subsection \<open>Invariants of step relations\<close>

text \<open>
  The contract of a state machine and a property that holds at its start and is kept by its steps;
  the property then holds wherever the machine can get to.
\<close>

locale invariant =
  fixes init :: "'s \<Rightarrow> bool"
    and step :: "'s \<Rightarrow> 's \<Rightarrow> bool"
    and inv :: "'s \<Rightarrow> bool"
  assumes inv_init: "init s \<Longrightarrow> inv s"
    and inv_step: "step s t \<Longrightarrow> inv s \<Longrightarrow> inv t"
begin

lemma inv_steps: "step\<^sup>*\<^sup>* s t \<Longrightarrow> inv s \<Longrightarrow> inv t"
  by (induction rule: rtranclp_induct) (auto intro: inv_step)

lemma inv_reachable: "init s \<Longrightarrow> step\<^sup>*\<^sup>* s t \<Longrightarrow> inv t"
  using inv_init inv_steps by blast

end

text \<open>A machine each of whose steps uses up some of what is left to do.\<close>

locale terminating = invariant +
  fixes work :: "'s \<Rightarrow> nat"
  assumes step_work: "inv s \<Longrightarrow> step s t \<Longrightarrow> work t < work s"
begin

lemma run_ends: "inv s \<Longrightarrow> \<exists>t. step\<^sup>*\<^sup>* s t \<and> inv t \<and> (\<forall>u. \<not> step t u)"
proof (induction "work s" arbitrary: s rule: less_induct)
  case less
  show ?case
  proof (cases "\<exists>u. step s u")
    case True
    then obtain u where u: "step s u" ..
    from less.hyps [OF step_work [OF less.prems u] inv_step [OF u less.prems]] u show ?thesis
      by (meson converse_rtranclp_into_rtranclp)
  next
    case False
    with less.prems show ?thesis by blast
  qed
qed

end

subsection \<open>Actions that take effect once\<close>

text \<open>
  The contract of an operation guarded by a flag (\<open>sync.Once\<close>, a compare-and-swap): the first call sets
  the flag, and later calls change nothing.
\<close>

locale once_only =
  fixes act :: "'x \<Rightarrow> 's \<Rightarrow> 's"
    and used :: "'s \<Rightarrow> bool"
  assumes act_first: "\<not> used s \<Longrightarrow> used (act x s)"
    and act_again: "used s \<Longrightarrow> act x s = s"
begin

lemma acts_again: "used s \<Longrightarrow> fold act xs s = s"
  by (induction xs) (auto simp: act_again)

lemma acts_once: "\<not> used s \<Longrightarrow> fold act (x # xs) s = act x s"
  by (simp add: act_first acts_again)

end

end
