(* ===== verification/GoStrings.thy ===== *)
theory GoStrings
  imports Prelude
begin

text \<open>
  The parts of Go's standard library on strings, host names and HTTP headers that the program
  calls: packages \<open>strings\<close>, \<open>net\<close>, \<open>net/url\<close> and \<open>net/textproto\<close>.
  They are exact on byte strings, with one parameter: \<open>ulower\<close> stands for what
  \<open>strings.ToLower\<close> does with a string that holds a byte outside ASCII (Unicode's case tables).
\<close>

subsection \<open>Bytes and case\<close>

definition is_ascii :: "char \<Rightarrow> bool" where
  "is_ascii c \<longleftrightarrow> of_char c < (128::nat)"

definition is_upper :: "char \<Rightarrow> bool" where
  "is_upper c \<longleftrightarrow> CHR ''A'' \<le> c \<and> c \<le> CHR ''Z''"

definition is_lower :: "char \<Rightarrow> bool" where
  "is_lower c \<longleftrightarrow> CHR ''a'' \<le> c \<and> c \<le> CHR ''z''"

definition is_digit :: "char \<Rightarrow> bool" where
  "is_digit c \<longleftrightarrow> CHR ''0'' \<le> c \<and> c \<le> CHR ''9''"

definition lower_char :: "char \<Rightarrow> char" where
  "lower_char c = (if is_upper c then char_of (of_char c + (32::nat)) else c)"

definition upper_char :: "char \<Rightarrow> char" where
  "upper_char c = (if is_lower c then char_of (of_char c - (32::nat)) else c)"

definition strings_ToLower :: "(string \<Rightarrow> string) \<Rightarrow> string \<Rightarrow> string" where
  "strings_ToLower ulower s = (if list_all is_ascii s then map lower_char s else ulower s)"

lemma of_char_less_256: "of_char c < (256::nat)"
  using nat_of_char_less_256 by simp

lemma is_upper_code: "is_upper c \<longleftrightarrow> 65 \<le> (of_char c :: nat) \<and> of_char c \<le> (90::nat)"
  by (simp add: is_upper_def less_eq_char_def)

lemma is_lower_code: "is_lower c \<longleftrightarrow> 97 \<le> (of_char c :: nat) \<and> of_char c \<le> (122::nat)"
  by (simp add: is_lower_def less_eq_char_def)

lemmas char_eval = is_ascii_def is_upper_code is_lower_code lower_char_def upper_char_def char_of_def bit_0

lemma lower_char_not_upper [simp]: "\<not> is_upper (lower_char c)"
  by (auto simp: lower_char_def is_upper_code)

lemma lower_char_idem [simp]: "lower_char (lower_char c) = lower_char c"
  using lower_char_not_upper [of c] by (simp add: lower_char_def [of "lower_char c"])

lemma lower_char_fixed: "\<not> is_upper c \<Longrightarrow> lower_char c = c"
  by (simp add: lower_char_def)

lemma is_ascii_lower_char [simp]: "is_ascii (lower_char c) = is_ascii c"
  by (auto simp: lower_char_def is_ascii_def is_upper_code)

text \<open>Facts about characters that are not letters, used to see that lower-casing keeps them.\<close>

lemma lower_char_eq_iff:
  assumes "\<not> is_lower d" and "\<not> is_upper d"
  shows "lower_char c = d \<longleftrightarrow> c = d"
  using assms by (auto simp: lower_char_def is_lower_code is_upper_code)

lemma strings_ToLower_ascii [simp]:
  "list_all is_ascii s \<Longrightarrow> strings_ToLower u s = map lower_char s"
  by (simp add: strings_ToLower_def)

lemma strings_ToLower_idem:
  "list_all is_ascii s \<Longrightarrow> strings_ToLower u (strings_ToLower u s) = strings_ToLower u s"
  by (simp add: list_all_length comp_def)

subsection \<open>Searching and splitting\<close>

fun IndexByte :: "string \<Rightarrow> char \<Rightarrow> nat option" where
  "IndexByte [] c = None"
| "IndexByte (x # xs) c = (if x = c then Some 0 else map_option Suc (IndexByte xs c))"

fun LastIndexByte :: "string \<Rightarrow> char \<Rightarrow> nat option" where
  "LastIndexByte [] c = None"
| "LastIndexByte (x # xs) c =
     (case LastIndexByte xs c of
        Some i \<Rightarrow> Some (Suc i)
      | None \<Rightarrow> if x = c then Some 0 else None)"

abbreviation strings_HasPrefix :: "string \<Rightarrow> string \<Rightarrow> bool" where
  "strings_HasPrefix s p \<equiv> prefix p s"

abbreviation strings_HasSuffix :: "string \<Rightarrow> string \<Rightarrow> bool" where
  "strings_HasSuffix s p \<equiv> suffix p s"

abbreviation strings_Contains :: "string \<Rightarrow> string \<Rightarrow> bool" where
  "strings_Contains s p \<equiv> sublist p s"

text \<open>\<open>strings.SplitSeq\<close> with a one-byte separator: always at least one token.\<close>

fun split_byte :: "char \<Rightarrow> string \<Rightarrow> string list" where
  "split_byte c [] = [[]]"
| "split_byte c (x # xs) =
     (if x = c then [] # split_byte c xs
      else case split_byte c xs of [] \<Rightarrow> [[x]] | t # ts \<Rightarrow> (x # t) # ts)"

text \<open>The UTF-8 encodings of the runes for which \<open>unicode.IsSpace\<close> holds.\<close>

definition space_runes :: "string list" where
  "space_runes = map (map char_of)
     ([[9], [10], [11], [12], [13], [32], [0xC2, 0x85], [0xC2, 0xA0], [0xE1, 0x9A, 0x80],
       [0xE2, 0x80, 0xA8], [0xE2, 0x80, 0xA9], [0xE2, 0x80, 0xAF], [0xE2, 0x81, 0x9F],
       [0xE3, 0x80, 0x80]] @ map (\<lambda>i. [0xE2, 0x80, 0x80 + i]) [0..<11] :: nat list list)"

function trim_left :: "string list \<Rightarrow> string \<Rightarrow> string" where
  "trim_left rs s =
     (case find (\<lambda>r. r \<noteq> [] \<and> prefix r s) rs of
        Some r \<Rightarrow> trim_left rs (drop (length r) s)
      | None \<Rightarrow> s)"
  by pat_completeness auto
termination
  by (relation "measure (\<lambda>(rs, s). length s)")
    (auto simp: find_Some_iff prefix_def)

declare trim_left.simps [simp del]

definition strings_TrimSpace :: "string \<Rightarrow> string" where
  "strings_TrimSpace s = rev (trim_left (map rev space_runes) (rev (trim_left space_runes s)))"

text \<open>
  \<open>strings.EqualFold (s, t)\<close> for an ASCII \<open>t\<close>: two runes outside ASCII fold to an ASCII letter,
  the long s (U+017F) and the Kelvin sign (U+212A).
\<close>

fun equal_fold :: "string \<Rightarrow> string \<Rightarrow> bool" where
  "equal_fold s [] = (s = [])"
| "equal_fold s (t # ts) =
     (case s of
        [] \<Rightarrow> False
      | x # xs \<Rightarrow>
         (if lower_char x = lower_char t then equal_fold xs ts
          else if lower_char t = CHR ''s'' \<and> prefix [CHR 0xC5, CHR 0xBF] s then equal_fold (drop 2 s) ts
          else if lower_char t = CHR ''k'' \<and> prefix [CHR 0xE2, CHR 0x84, CHR 0xAA] s
            then equal_fold (drop 3 s) ts
          else False))"

lemma trim_left_keep: "(\<And>r. r \<in> set rs \<Longrightarrow> r \<noteq> [] \<Longrightarrow> hd r \<noteq> c) \<Longrightarrow> trim_left rs (c # cs) = c # cs"
proof -
  assume h: "\<And>r. r \<in> set rs \<Longrightarrow> r \<noteq> [] \<Longrightarrow> hd r \<noteq> c"
  have "find (\<lambda>r. r \<noteq> [] \<and> prefix r (c # cs)) rs = None"
    unfolding find_None_iff using h by (metis list.sel(1) prefix_Cons)
  then show ?thesis by (simp add: trim_left.simps)
qed

lemma space_runes_ends:
  "r \<in> set space_runes \<Longrightarrow> r \<noteq> [] \<and> \<not> (of_char (hd r) \<in> {33..<128::nat}) \<and> \<not> (of_char (last r) \<in> {33..<128::nat})"
  by (auto simp: space_runes_def)

text \<open>A token that starts and ends with visible ASCII characters is not changed by trimming.\<close>

lemma strings_TrimSpace_visible:
  assumes "s \<noteq> []" "of_char (hd s) \<in> {33..<128::nat}" "of_char (last s) \<in> {33..<128::nat}"
  shows "strings_TrimSpace s = s"
proof -
  have 1: "trim_left space_runes s = s"
    using assms space_runes_ends by (cases s) (auto intro!: trim_left_keep)
  have "trim_left (map rev space_runes) (rev s) = rev s"
    using assms space_runes_ends by (cases s rule: rev_cases) (fastforce simp: hd_rev intro!: trim_left_keep)+
  with 1 show ?thesis by (simp add: strings_TrimSpace_def)
qed

lemma IndexByte_None_iff: "IndexByte s c = None \<longleftrightarrow> c \<notin> set s"
  by (induction s) auto

lemma LastIndexByte_None_iff [simp]: "LastIndexByte s c = None \<longleftrightarrow> c \<notin> set s"
  by (induction s) (auto split: option.splits)

lemma LastIndexByte_append:
  "c \<notin> set q \<Longrightarrow> LastIndexByte (p @ c # q) c = Some (length p)"
  by (induction p) (auto split: option.splits)

lemma LastIndexByte_split:
  "LastIndexByte s c = Some i \<Longrightarrow> s = take i s @ c # drop (Suc i) s \<and> c \<notin> set (drop (Suc i) s)"
  by (induction s arbitrary: i) (auto split: option.splits if_splits)

lemma IndexByte_append: "c \<notin> set p \<Longrightarrow> IndexByte (p @ c # q) c = Some (length p)"
  by (induction p) auto

subsection \<open>Host and port\<close>

text \<open>\<open>net.SplitHostPort\<close>; every error of it is \<open>None\<close>, since the program only tests for one.\<close>

definition SplitHostPort :: "string \<Rightarrow> (string \<times> string) option" where
  "SplitHostPort hp =
     (case LastIndexByte hp (CHR '':'') of
        None \<Rightarrow> None
      | Some i \<Rightarrow>
         (if hd hp = CHR ''['' then
            (case IndexByte hp (CHR '']'') of
               None \<Rightarrow> None
             | Some e \<Rightarrow>
                (if Suc e \<noteq> i then None
                 else if CHR ''['' \<in> set (drop 1 hp) then None
                 else if CHR '']'' \<in> set (drop (Suc e) hp) then None
                 else Some (take (e - 1) (drop 1 hp), drop (Suc i) hp)))
          else if CHR '':'' \<in> set (take i hp) then None
          else if CHR ''['' \<in> set hp then None
          else if CHR '']'' \<in> set hp then None
          else Some (take i hp, drop (Suc i) hp)))"

definition JoinHostPort :: "string \<Rightarrow> string \<Rightarrow> string" where
  "JoinHostPort host port =
     (if CHR '':'' \<in> set host then CHR ''['' # host @ '']:'' @ port else host @ CHR '':'' # port)"

text \<open>A character with a meaning in an address.\<close>

definition plain_host :: "string \<Rightarrow> bool" where
  "plain_host h \<longleftrightarrow> CHR ''['' \<notin> set h \<and> CHR '']'' \<notin> set h"

definition plain_port :: "string \<Rightarrow> bool" where
  "plain_port p \<longleftrightarrow> CHR '':'' \<notin> set p \<and> CHR ''['' \<notin> set p \<and> CHR '']'' \<notin> set p"

lemma SplitHostPort_no_colon: "CHR '':'' \<notin> set h \<Longrightarrow> SplitHostPort h = None"
  by (simp add: SplitHostPort_def LastIndexByte_None_iff [THEN iffD2])

lemma SplitHostPort_simple:
  assumes "CHR '':'' \<notin> set h" "plain_host h" "plain_port p"
  shows "SplitHostPort (h @ CHR '':'' # p) = Some (h, p)"
proof -
  have "hd (h @ CHR '':'' # p) \<noteq> CHR ''[''"
    using assms(2) by (cases h) (auto simp: plain_host_def)
  then show ?thesis
    using assms by (simp add: SplitHostPort_def LastIndexByte_append plain_host_def plain_port_def)
qed

lemma SplitHostPort_bracketed:
  assumes "plain_host h" "plain_port p"
  shows "SplitHostPort (CHR ''['' # h @ CHR '']'' # CHR '':'' # p) = Some (h, p)"
proof -
  let ?s = "CHR ''['' # h @ CHR '']'' # CHR '':'' # p"
  have "LastIndexByte ?s (CHR '':'') = Some (Suc (Suc (length h)))"
    using LastIndexByte_append [of "CHR '':''" p "CHR ''['' # h @ [CHR '']'']"] assms(2)
    by (simp add: plain_port_def)
  moreover have "IndexByte ?s (CHR '']'') = Some (Suc (length h))"
    using IndexByte_append [of "CHR '']''" "CHR ''['' # h" "CHR '':'' # p"] assms(1)
    by (simp add: plain_host_def)
  ultimately show ?thesis
    using assms by (simp add: SplitHostPort_def plain_host_def plain_port_def)
qed

text \<open>Splitting undoes joining, for IPv6 literals too.\<close>

lemma SplitHostPort_JoinHostPort:
  assumes "plain_host h" "plain_port p"
  shows "SplitHostPort (JoinHostPort h p) = Some (h, p)"
proof (cases "CHR '':'' \<in> set h")
  case True
  then show ?thesis using SplitHostPort_bracketed [OF assms] by (simp add: JoinHostPort_def)
next
  case False
  then show ?thesis using SplitHostPort_simple [OF _ assms] by (simp add: JoinHostPort_def)
qed

text \<open>\<open>url.URL.Hostname\<close> on the \<open>Host\<close> of a URL.\<close>

definition validOptionalPort :: "string \<Rightarrow> bool" where
  "validOptionalPort port \<longleftrightarrow>
     (case port of [] \<Rightarrow> True | c # cs \<Rightarrow> c = CHR '':'' \<and> list_all is_digit cs)"

definition url_Hostname :: "string \<Rightarrow> string" where
  "url_Hostname host =
     (let h = (case LastIndexByte host (CHR '':'') of
                 Some i \<Rightarrow> if validOptionalPort (drop i host) then take i host else host
               | None \<Rightarrow> host)
      in if prefix ''['' h \<and> suffix '']'' h then take (length h - 2) (drop 1 h) else h)"

subsection \<open>HTTP headers\<close>

text \<open>The bytes of a header field name (\<open>token\<close> of RFC 7230) and \<open>CanonicalMIMEHeaderKey\<close>.\<close>

definition valid_field_byte :: "char \<Rightarrow> bool" where
  "valid_field_byte c \<longleftrightarrow> is_upper c \<or> is_lower c \<or> is_digit c \<or> c \<in> set ''!#$%&*+-.^_`|~'' \<or> c = CHR 0x27"

fun canonical_from :: "bool \<Rightarrow> string \<Rightarrow> string" where
  "canonical_from up [] = []"
| "canonical_from up (c # cs) =
     (if up then upper_char c else lower_char c) # canonical_from (c = CHR ''-'') cs"

definition CanonicalHeaderKey :: "string \<Rightarrow> string" where
  "CanonicalHeaderKey k = (if list_all valid_field_byte k then canonical_from True k else k)"

type_synonym header = "(string \<times> string list) list"

definition header_Values :: "header \<Rightarrow> string \<Rightarrow> string list" where
  "header_Values h k = (case map_of h (CanonicalHeaderKey k) of None \<Rightarrow> [] | Some vs \<Rightarrow> vs)"

definition header_Get :: "header \<Rightarrow> string \<Rightarrow> string" where
  "header_Get h k = (case header_Values h k of [] \<Rightarrow> [] | v # _ \<Rightarrow> v)"

definition header_Set :: "header \<Rightarrow> string \<Rightarrow> string \<Rightarrow> header" where
  "header_Set h k v = AList.update (CanonicalHeaderKey k) [v] h"

definition header_Del :: "header \<Rightarrow> string \<Rightarrow> header" where
  "header_Del h k = AList.delete (CanonicalHeaderKey k) h"

end
