(* ===== verification/Config.thy ===== *)
theory Config
  imports GoStrings Sha256
begin

text \<open>
  The configuration (\<open>config.go\<close>, \<open>sni.go\<close> and the config readers of \<open>domainfront.go\<close>): its
  types, host lookup, the expansion of a provider for a country, and the choice of an SNI.
  Pointers that a parsed config can hold as nil are options; dereferencing one is \<open>Panicked\<close>.
  Parameters: \<open>ulower\<close> (Unicode lower-casing), \<open>pem_ok\<close> (whether
  \<open>CertPool.AppendCertsFromPEM\<close> finds a certificate in a PEM text), and the record \<open>codecs\<close>
  (packages \<open>compress/gzip\<close> and \<open>go-yaml\<close>).
\<close>

subsection \<open>Types\<close>

record masquerade =
  Domain :: string
  IpAddress :: string
  SNI :: string
  VerifyHostname :: "string option"

record sni_config =
  UseArbitrarySNIs :: bool
  ArbitrarySNIs :: "string list"

record provider =
  HostAliases :: "(string \<times> string) list"
  PassthroughPatterns :: "string list"
  TestURL :: string
  Masquerades :: "masquerade option list"
  ProviderVerifyHostname :: "string option"
  FrontingSNIs :: "(string \<times> sni_config option) list"

record ca =
  CommonName :: string
  Cert :: string

record config =
  TrustedCAs :: "ca option list"
  Providers :: "(string \<times> provider option) list option"

text \<open>Reading a nil map finds nothing, and its length is 0.\<close>

definition provider_map :: "config \<Rightarrow> (string \<times> provider option) list" where
  "provider_map cfg = (case Providers cfg of None \<Rightarrow> [] | Some m \<Rightarrow> m)"

subsection \<open>Host lookup\<close>

definition toLowerFast :: "(string \<Rightarrow> string) \<Rightarrow> string \<Rightarrow> string" where
  "toLowerFast ulower s = (if list_ex is_upper s then strings_ToLower ulower s else s)"

definition strip_port :: "string \<Rightarrow> string" where
  "strip_port hostname =
     (if LastIndexByte hostname (CHR '':'') \<noteq> None then
        (case SplitHostPort hostname of Some (h, _) \<Rightarrow> h | None \<Rightarrow> hostname)
      else hostname)"

fun lookup_patterns :: "string list \<Rightarrow> string \<Rightarrow> string" where
  "lookup_patterns [] hostname = ''''"
| "lookup_patterns (pt # pts) hostname =
     (if strings_HasPrefix pt ''*.'' \<and> strings_HasSuffix hostname (drop 1 pt) then hostname
      else if pt = hostname then hostname
      else lookup_patterns pts hostname)"

definition Lookup :: "(string \<Rightarrow> string) \<Rightarrow> provider \<Rightarrow> string \<Rightarrow> string" where
  "Lookup ulower p hostname =
     (let h = toLowerFast ulower (strip_port hostname);
          alias = (case map_of (HostAliases p) h of None \<Rightarrow> '''' | Some a \<Rightarrow> a)
      in if alias \<noteq> '''' then alias else lookup_patterns (PassthroughPatterns p) h)"

subsection \<open>Choice of an SNI\<close>

definition GenerateSNI :: "sni_config option \<Rightarrow> string \<Rightarrow> string" where
  "GenerateSNI cfg ipAddress =
     (case cfg of
        None \<Rightarrow> ''''
      | Some c \<Rightarrow>
         (if \<not> UseArbitrarySNIs c \<or> length (ArbitrarySNIs c) = 0 then ''''
          else ArbitrarySNIs c ! (unat (sha256_Sum256 ipAddress ! 0) mod length (ArbitrarySNIs c))))"

subsection \<open>Certificate pool\<close>

text \<open>An \<open>x509.CertPool\<close> is the list of PEM texts whose certificates it holds.\<close>

type_synonym certpool = "string list"

fun CertPool_from :: "(string \<Rightarrow> bool) \<Rightarrow> nat \<Rightarrow> ca option list \<Rightarrow> certpool \<Rightarrow> certpool res" where
  "CertPool_from pem_ok i [] pool = Inr pool"
| "CertPool_from pem_ok i (None # cas) pool = Inl Panicked"
| "CertPool_from pem_ok i (Some ca # cas) pool =
     (if pem_ok (Cert ca) then CertPool_from pem_ok (Suc i) cas (pool @ [Cert ca])
      else Inl (Returned (ErrText (''failed to parse trusted CA at index '' @ show_nat i @ '' ('' @
        CommonName ca @ '')''))))"

definition CertPool :: "(string \<Rightarrow> bool) \<Rightarrow> config \<Rightarrow> certpool res" where
  "CertPool pem_ok cfg = CertPool_from pem_ok 0 (TrustedCAs cfg) []"

subsection \<open>Expansion of a provider\<close>

definition expand_masquerade ::
  "provider \<Rightarrow> sni_config option \<Rightarrow> masquerade option \<Rightarrow> masquerade res" where
  "expand_masquerade p sniCfg mo =
     (case mo of
        None \<Rightarrow> Inl Panicked
      | Some m \<Rightarrow>
         (let g = GenerateSNI sniCfg (IpAddress m);
              sni = (if g \<noteq> '''' then g else SNI m);
              vh = (if VerifyHostname m = None then ProviderVerifyHostname p else VerifyHostname m);
              vh' = (if vh = None \<and> sni \<noteq> '''' \<and> Domain m \<noteq> '''' then Some (Domain m) else vh)
          in Inr \<lparr>Domain = Domain m, IpAddress = IpAddress m, SNI = sni, VerifyHostname = vh'\<rparr>))"

definition select_sni_config :: "provider \<Rightarrow> string \<Rightarrow> sni_config option" where
  "select_sni_config p countryCode =
     (case map_of (FrontingSNIs p) countryCode of
        Some c \<Rightarrow> c
      | None \<Rightarrow> (case map_of (FrontingSNIs p) ''default'' of Some c \<Rightarrow> c | None \<Rightarrow> None))"

definition lower_aliases :: "(string \<Rightarrow> string) \<Rightarrow> (string \<times> string) list \<Rightarrow> (string \<times> string) list" where
  "lower_aliases ulower al = fold (\<lambda>(k, v) m. AList.update (strings_ToLower ulower k) v m) al []"

definition ExpandedProvider ::
  "(string \<Rightarrow> string) \<Rightarrow> provider option \<Rightarrow> string \<Rightarrow> provider res" where
  "ExpandedProvider ulower po countryCode =
     (case po of
        None \<Rightarrow> Inl Panicked
      | Some p \<Rightarrow>
         (case map_res (expand_masquerade p (select_sni_config p countryCode)) (Masquerades p) of
            Inl e \<Rightarrow> Inl e
          | Inr ms \<Rightarrow>
             Inr \<lparr>HostAliases = lower_aliases ulower (HostAliases p),
                  PassthroughPatterns = map (strings_ToLower ulower) (PassthroughPatterns p),
                  TestURL = TestURL p,
                  Masquerades = map Some ms,
                  ProviderVerifyHostname = ProviderVerifyHostname p,
                  FrontingSNIs = FrontingSNIs p\<rparr>))"

subsection \<open>Reading and writing config files\<close>

record codecs =
  gzip_NewReader :: "string \<Rightarrow> goerr + string"
  gzip_ReadAll :: "string \<Rightarrow> goerr + string"
  gzip_Write :: "string \<Rightarrow> goerr + string"
  gzip_Close :: "string \<Rightarrow> goerr + string"
  yaml_Unmarshal :: "string \<Rightarrow> goerr + config"

definition ParseConfigYAML :: "codecs \<Rightarrow> string \<Rightarrow> goerr + config" where
  "ParseConfigYAML cd yml =
     (case yaml_Unmarshal cd yml of
        Inl e \<Rightarrow> Inl (ErrWrap ''failed to parse config YAML'' e)
      | Inr cfg \<Rightarrow> Inr (if Providers cfg = None then cfg\<lparr>Providers := Some []\<rparr> else cfg))"

definition ParseConfig :: "codecs \<Rightarrow> string \<Rightarrow> goerr + config" where
  "ParseConfig cd gzippedYaml =
     (case gzip_NewReader cd gzippedYaml of
        Inl e \<Rightarrow> Inl (ErrWrap ''failed to create gzip reader'' e)
      | Inr r \<Rightarrow>
         (case gzip_ReadAll cd r of
            Inl e \<Rightarrow> Inl (ErrWrap ''failed to read gzipped data'' e)
          | Inr yml \<Rightarrow> ParseConfigYAML cd yml))"

definition CompressConfig :: "codecs \<Rightarrow> string \<Rightarrow> goerr + string" where
  "CompressConfig cd yamlBytes =
     (case gzip_Write cd yamlBytes of
        Inl e \<Rightarrow> Inl e
      | Inr buf \<Rightarrow> gzip_Close cd buf)"

definition maxConfigSize :: nat where
  "maxConfigSize = push_bit 20 50"

text \<open>
  A reader is the bytes it delivers and how it ends (\<open>None\<close> for EOF);
  \<open>limited_ReadAll n\<close> is \<open>io.ReadAll (io.LimitReader (r, n))\<close>.
\<close>

type_synonym reader = "string \<times> goerr option"

definition limited_ReadAll :: "nat \<Rightarrow> reader \<Rightarrow> goerr + string" where
  "limited_ReadAll n r =
     (if n \<le> length (fst r) then Inr (take n (fst r))
      else case snd r of None \<Rightarrow> Inr (fst r) | Some e \<Rightarrow> Inl e)"

definition ParseConfigFromReader :: "codecs \<Rightarrow> reader \<Rightarrow> goerr + config" where
  "ParseConfigFromReader cd r =
     (case limited_ReadAll (maxConfigSize + 1) r of
        Inl e \<Rightarrow> Inl (ErrWrap ''read config'' e)
      | Inr data \<Rightarrow>
         (if length data > maxConfigSize then
            Inl (ErrText (''config size exceeds maximum of '' @ show_nat maxConfigSize @ '' bytes''))
          else ParseConfig cd data))"

definition ParseConfigFromFile :: "codecs \<Rightarrow> goerr + string \<Rightarrow> goerr + config" where
  "ParseConfigFromFile cd file = (case file of Inl e \<Rightarrow> Inl e | Inr data \<Rightarrow> ParseConfig cd data)"

subsection \<open>Facts about host lookup\<close>

definition matches_pattern :: "string \<Rightarrow> string \<Rightarrow> bool" where
  "matches_pattern pt h \<longleftrightarrow> (prefix ''*.'' pt \<and> suffix (drop 1 pt) h) \<or> pt = h"

lemma lookup_patterns_eq:
  "lookup_patterns pts h = (if \<exists>pt\<in>set pts. matches_pattern pt h then h else '''')"
  by (induction pts) (auto simp: matches_pattern_def)

lemma toLowerFast_ascii: "list_all is_ascii s \<Longrightarrow> toLowerFast u s = map lower_char s"
  by (induction s) (auto simp: toLowerFast_def lower_char_fixed list_ex_iff list_all_iff intro: map_idI [symmetric])

lemma toLowerFast_no_ascii_upper: "\<not> list_ex is_upper s \<Longrightarrow> toLowerFast u s = s"
  by (simp add: toLowerFast_def)

lemma strip_port_plain: "CHR '':'' \<notin> set h \<Longrightarrow> strip_port h = h"
  by (simp add: strip_port_def LastIndexByte_None_iff)

lemma strip_port_join:
  "plain_host h \<Longrightarrow> plain_port port \<Longrightarrow> strip_port (JoinHostPort h port) = h"
  using SplitHostPort_JoinHostPort [of h port]
  by (auto simp: strip_port_def JoinHostPort_def split: if_splits)

lemma map_of_lower_aliases:
  "map_of (lower_aliases u al) = map_of (rev (map (\<lambda>(k, v). (strings_ToLower u k, v)) al))"
  using map_of_fold_update [of "\<lambda>x. strings_ToLower u (fst x)" snd al "[]"]
  by (simp add: lower_aliases_def case_prod_unfold)

lemma ExpandedProvider_Inr:
  assumes "ExpandedProvider u (Some p) cc = Inr ep"
  obtains ms where
    "map_res (expand_masquerade p (select_sni_config p cc)) (Masquerades p) = Inr ms"
    "ep = \<lparr>HostAliases = lower_aliases u (HostAliases p),
           PassthroughPatterns = map (strings_ToLower u) (PassthroughPatterns p),
           TestURL = TestURL p, Masquerades = map Some ms,
           ProviderVerifyHostname = ProviderVerifyHostname p, FrontingSNIs = FrontingSNIs p\<rparr>"
  using assms by (auto simp: ExpandedProvider_def split: sum.splits)

lemma expand_masquerade_Inl: "expand_masquerade p c mo = Inl e \<Longrightarrow> mo = None \<and> e = Panicked"
  by (auto simp: expand_masquerade_def Let_def split: option.splits)

lemma expand_masquerade_None [simp]: "expand_masquerade p c None = Inl Panicked"
  by (simp add: expand_masquerade_def)

lemma expand_masquerade_Some:
  "\<exists>m'. expand_masquerade p c (Some m) = Inr m'"
  by (simp add: expand_masquerade_def Let_def)

lemma expand_masquerade_fields:
  assumes "expand_masquerade p c (Some m) = Inr m'"
  shows "Domain m' = Domain m" "IpAddress m' = IpAddress m"
    "SNI m' \<noteq> '''' \<Longrightarrow> Domain m' \<noteq> '''' \<Longrightarrow> VerifyHostname m' \<noteq> None"
    "VerifyHostname m \<noteq> None \<Longrightarrow> VerifyHostname m' = VerifyHostname m"
  using assms by (auto simp: expand_masquerade_def Let_def)

subsection \<open>Properties\<close>

text \<open>
  C37: on an expanded provider, \<open>Lookup\<close> is a case-insensitive search of the provider's own
  configuration: for an ASCII host (its port dropped) it returns the non-empty alias whose key equals
  the host up to case, and otherwise the lower-cased host itself when a passthrough pattern matches
  it, and otherwise the empty string; the alias keys must differ up to case.
\<close>

theorem expanded_Lookup:
  assumes "ExpandedProvider u (Some p) cc = Inr ep"
    and "distinct (map (\<lambda>(k, v). strings_ToLower u k) (HostAliases p))"
    and "list_all is_ascii (strip_port host)"
  shows "Lookup u ep host =
    (let h = map lower_char (strip_port host);
         pats = (if \<exists>pt\<in>set (PassthroughPatterns p). matches_pattern (strings_ToLower u pt) h then h else '''')
     in case map_of (map (\<lambda>(k, v). (strings_ToLower u k, v)) (HostAliases p)) h of
          Some v \<Rightarrow> if v \<noteq> '''' then v else pats
        | None \<Rightarrow> pats)"
proof -
  let ?al = "map (\<lambda>(k, v). (strings_ToLower u k, v)) (HostAliases p)"
  have d: "distinct (map fst ?al)"
    using assms(2) by (simp add: comp_def case_prod_unfold)
  then have "map_of (rev ?al) = map_of ?al"
    by (rule map_of_rev_distinct)
  with assms(1,3) show ?thesis
    by (auto simp: Lookup_def Let_def toLowerFast_ascii lookup_patterns_eq map_of_lower_aliases
        elim!: ExpandedProvider_Inr split: option.splits)
qed

text \<open>
  \<open>Lookup\<close> does not depend on the case of an ASCII host name or on an explicit port.
\<close>

theorem Lookup_port_case_insensitive:
  assumes "list_all is_ascii a" "list_all is_ascii b" "map lower_char a = map lower_char b"
    and "plain_host a" "CHR '':'' \<notin> set a" "CHR '':'' \<notin> set b" "plain_port port"
  shows "Lookup u p (JoinHostPort a port) = Lookup u p b"
  using assms by (simp add: Lookup_def strip_port_join strip_port_plain toLowerFast_ascii)

text \<open>
  \<open>Lookup\<close> never invents a destination: a non-empty result is either a configured alias of
  the normalised host, or the normalised host itself, allowed by a passthrough pattern that equals it
  or is \<open>*.\<close> followed by a domain that the host ends in (after a dot).
\<close>

theorem Lookup_sound:
  assumes "Lookup u p host \<noteq> ''''"
  defines "h \<equiv> toLowerFast u (strip_port host)"
  shows "(h, Lookup u p host) \<in> set (HostAliases p) \<or>
    (Lookup u p host = h \<and> (\<exists>pt\<in>set (PassthroughPatterns p). pt = h \<or> (\<exists>dom label. pt = ''*.'' @ dom \<and> h = label @ ''.'' @ dom)))"
proof (cases "case map_of (HostAliases p) h of None \<Rightarrow> '''' | Some a \<Rightarrow> a")
  case Nil
  then have "Lookup u p host = lookup_patterns (PassthroughPatterns p) h"
    by (simp add: Lookup_def h_def)
  moreover have "\<exists>dom label. pt = ''*.'' @ dom \<and> h = label @ ''.'' @ dom"
    if "prefix ''*.'' pt" "suffix (drop 1 pt) h" for pt
    using that by (auto simp: prefix_def suffix_def)
  ultimately show ?thesis
    using assms(1) by (auto simp: lookup_patterns_eq matches_pattern_def split: if_splits)
next
  case (Cons c cs)
  then show ?thesis
    by (auto simp: Lookup_def h_def [symmetric] Let_def dest: map_of_SomeD split: option.splits)
qed

text \<open>
  \<open>ExpandedProvider\<close> never returns an error; it succeeds exactly when the provider and all its
  masquerades are non-nil, and otherwise dereferences nil.
\<close>

theorem ExpandedProvider_panics_iff:
  "ExpandedProvider u po cc =
     (if \<exists>p. po = Some p \<and> None \<notin> set (Masquerades p) then Inr (projr (ExpandedProvider u po cc))
      else Inl Panicked)"
proof (cases po)
  case (Some p)
  have "(\<exists>y. expand_masquerade p c mo = Inr y) \<longleftrightarrow> mo \<noteq> None" for c mo
    using expand_masquerade_Some by (cases mo) auto
  then have ok: "(\<exists>ys. map_res (expand_masquerade p c) (Masquerades p) = Inr ys) \<longleftrightarrow>
      None \<notin> set (Masquerades p)" for c
    unfolding map_res_ok_iff by (metis not_None_eq)
  show ?thesis
    using Some ok [of "select_sni_config p cc"]
    by (auto simp: ExpandedProvider_def split: sum.splits
        dest!: map_res_Inl_ex expand_masquerade_Inl)
qed (simp add: ExpandedProvider_def)

text \<open>
  After expansion, every masquerade that sends an SNI and has a domain has a host name to verify
  its certificate against, so the SNI path never falls back to chain-only verification; the masquerade
  keeps the domain and address of one in the configuration, and a host name pinned there wins.
\<close>

theorem expanded_hostname_pinned:
  assumes "ExpandedProvider u (Some p) cc = Inr ep" and "Some m' \<in> set (Masquerades ep)"
  shows "(SNI m' \<noteq> '''' \<and> Domain m' \<noteq> '''' \<longrightarrow> VerifyHostname m' \<noteq> None) \<and>
    (\<exists>m. Some m \<in> set (Masquerades p) \<and> Domain m' = Domain m \<and> IpAddress m' = IpAddress m \<and>
      (VerifyHostname m \<noteq> None \<longrightarrow> VerifyHostname m' = VerifyHostname m))"
proof -
  obtain mo where mo: "mo \<in> set (Masquerades p)"
    "expand_masquerade p (select_sni_config p cc) mo = Inr m'"
    using assms by (auto elim!: ExpandedProvider_Inr dest: map_res_in_set)
  from mo(2) have "mo \<noteq> None" by (metis expand_masquerade_None sum.distinct(1))
  then obtain m where "mo = Some m" by blast
  with mo expand_masquerade_fields [of p _ m m'] show ?thesis by blast
qed

text \<open>
  A non-empty generated SNI comes from a configuration with arbitrary SNIs switched on, and is one
  of the first 256 entries of its list (the index is one hash byte modulo the length).
\<close>

theorem GenerateSNI_sound:
  assumes "GenerateSNI cfg ip \<noteq> ''''"
  shows "\<exists>c. cfg = Some c \<and> UseArbitrarySNIs c \<and> GenerateSNI cfg ip \<in> set (take 256 (ArbitrarySNIs c))"
proof -
  obtain c where c: "cfg = Some c" "UseArbitrarySNIs c" "ArbitrarySNIs c \<noteq> []"
    using assms by (auto simp: GenerateSNI_def split: option.splits if_splits)
  let ?b = "unat (sha256_Sum256 ip ! 0)" and ?n = "length (ArbitrarySNIs c)"
  have "?b < 256" using unsigned_less [of "sha256_Sum256 ip ! 0", where 'a = nat] by simp
  then have "?b mod ?n < min ?n 256"
    using c(3) by (simp add: mod_less_divisor le_less_trans [OF mod_less_eq_dividend])
  then have "take 256 (ArbitrarySNIs c) ! (?b mod ?n) \<in> set (take 256 (ArbitrarySNIs c))"
    by (intro nth_mem) simp
  with c \<open>?b mod ?n < min ?n 256\<close> show ?thesis
    by (auto simp: GenerateSNI_def)
qed

definition ca_ok :: "(string \<Rightarrow> bool) \<Rightarrow> ca option \<Rightarrow> bool" where
  "ca_ok pem_ok co = (case co of None \<Rightarrow> False | Some ca \<Rightarrow> pem_ok (Cert ca))"

lemma CertPool_from_eq:
  "CertPool_from pem_ok i cas pool =
     (let good = takeWhile (ca_ok pem_ok) cas
      in if length good = length cas then Inr (pool @ map (Cert \<circ> the) cas)
         else case cas ! length good of
                None \<Rightarrow> Inl Panicked
              | Some ca \<Rightarrow> Inl (Returned (ErrText (''failed to parse trusted CA at index '' @
                  show_nat (i + length good) @ '' ('' @ CommonName ca @ '')''))))"
  by (induction pem_ok i cas pool rule: CertPool_from.induct) (auto simp: Let_def ca_ok_def split: option.splits)

text \<open>
  \<open>CertPool\<close> succeeds with the certificates of all trusted CAs, in order, exactly when each of
  them is non-nil and parses; otherwise it panics or names the index and common name of the first
  that does not.
\<close>

theorem CertPool_all_or_first_bad:
  "CertPool pem_ok cfg =
     (let cas = TrustedCAs cfg; good = takeWhile (ca_ok pem_ok) cas
      in if length good = length cas then Inr (map (Cert \<circ> the) cas)
         else case cas ! length good of
                None \<Rightarrow> Inl Panicked
              | Some ca \<Rightarrow> Inl (Returned (ErrText (''failed to parse trusted CA at index '' @
                  show_nat (length good) @ '' ('' @ CommonName ca @ '')''))))"
  by (simp add: CertPool_def CertPool_from_eq Let_def split: option.splits)

lemma CertPool_from_Inr: "CertPool_from pem_ok i cas pool = Inr r \<Longrightarrow> None \<notin> set cas"
  by (induction pem_ok i cas pool rule: CertPool_from.induct) (auto split: if_splits)

lemma CertPool_Inr: "CertPool pem_ok cfg = Inr pool \<Longrightarrow> None \<notin> set (TrustedCAs cfg)"
  by (auto simp: CertPool_def dest: CertPool_from_Inr)

definition gzip_law :: "codecs \<Rightarrow> bool" where
  "gzip_law cd \<longleftrightarrow> (\<forall>x b z. gzip_Write cd x = Inr b \<longrightarrow> gzip_Close cd b = Inr z \<longrightarrow>
     (\<exists>r. gzip_NewReader cd z = Inr r \<and> gzip_ReadAll cd r = Inr x))"

text \<open>
  C38: a config that \<open>CompressConfig\<close> wrote is read back by \<open>ParseConfigFromReader\<close> as the YAML
  it was made from, or refused when it is over the size cap; the hypothesis is the documented round
  trip of package \<open>compress/gzip\<close>.
\<close>

theorem ParseConfigFromReader_CompressConfig:
  assumes "gzip_law cd" and "CompressConfig cd yml = Inr z"
  shows "ParseConfigFromReader cd (z, None) =
    (if length z \<le> maxConfigSize then ParseConfigYAML cd yml
     else Inl (ErrText (''config size exceeds maximum of '' @ show_nat maxConfigSize @ '' bytes'')))"
proof -
  obtain b where "gzip_Write cd yml = Inr b" "gzip_Close cd b = Inr z"
    using assms(2) by (auto simp: CompressConfig_def split: sum.splits)
  then have "ParseConfig cd z = ParseConfigYAML cd yml"
    using assms(1) by (fastforce simp: gzip_law_def ParseConfig_def)
  then show ?thesis
    by (auto simp: ParseConfigFromReader_def limited_ReadAll_def)
qed

text \<open>
  A config accepted from a reader was read completely, is within the size cap, parses as a whole
  and has a non-nil provider map.
\<close>

theorem ParseConfigFromReader_bounded:
  assumes "ParseConfigFromReader cd r = Inr cfg"
  shows "length (fst r) \<le> maxConfigSize \<and> snd r = None \<and> ParseConfig cd (fst r) = Inr cfg \<and>
    Providers cfg \<noteq> None"
proof -
  have "Providers c \<noteq> None" if "ParseConfig cd s = Inr c" for s c
    using that by (auto simp: ParseConfig_def ParseConfigYAML_def split: sum.splits if_splits)
  with assms show ?thesis
    by (auto simp: ParseConfigFromReader_def limited_ReadAll_def split: sum.splits if_splits option.splits)
qed

subsection \<open>A sample configuration, used by the witnesses\<close>

definition sample_masquerade :: masquerade where
  "sample_masquerade = \<lparr>Domain = ''d5678.cloudfront.net'', IpAddress = ''13.224.0.1'', SNI = ''amazon.com'',
     VerifyHostname = None\<rparr>"

definition sample_provider :: provider where
  "sample_provider =
     \<lparr>HostAliases = [(''Config.example.com'', ''d1234.cloudfront.net'')],
      PassthroughPatterns = [''*.cloudfront.net''],
      TestURL = ''https://d1234.cloudfront.net/ping'',
      Masquerades = [Some sample_masquerade],
      ProviderVerifyHostname = None,
      FrontingSNIs = [(''br'', Some \<lparr>UseArbitrarySNIs = True, ArbitrarySNIs = [''mercadopago.com'']\<rparr>)]\<rparr>"

definition sample_expanded :: provider where
  "sample_expanded =
     \<lparr>HostAliases = [(''config.example.com'', ''d1234.cloudfront.net'')],
      PassthroughPatterns = [''*.cloudfront.net''],
      TestURL = ''https://d1234.cloudfront.net/ping'',
      Masquerades = [Some (sample_masquerade\<lparr>VerifyHostname := Some ''d5678.cloudfront.net''\<rparr>)],
      ProviderVerifyHostname = None,
      FrontingSNIs = [(''br'', Some \<lparr>UseArbitrarySNIs = True, ArbitrarySNIs = [''mercadopago.com'']\<rparr>)]\<rparr>"

lemma sample_expansion: "ExpandedProvider (\<lambda>s. s) (Some sample_provider) '''' = Inr sample_expanded"
  by (simp add: ExpandedProvider_def sample_provider_def sample_expanded_def sample_masquerade_def
      select_sni_config_def expand_masquerade_def GenerateSNI_def lower_aliases_def char_eval)

theorem expanded_Lookup_witness:
  "Lookup (\<lambda>s. s) sample_expanded ''CONFIG.example.com'' = ''d1234.cloudfront.net''"
proof -
  have 1: "distinct (map (\<lambda>(k, v). strings_ToLower (\<lambda>s. s) k) (HostAliases sample_provider))"
    by (simp add: sample_provider_def)
  have 2: "strip_port ''CONFIG.example.com'' = ''CONFIG.example.com''"
    by (simp add: strip_port_plain)
  have 3: "list_all is_ascii (strip_port ''CONFIG.example.com'')"
    by (simp add: 2 is_ascii_def)
  show ?thesis
    using expanded_Lookup [OF sample_expansion 1 3]
    by (simp add: 2 sample_provider_def char_eval)
qed

theorem Lookup_port_case_insensitive_witness:
  "Lookup (\<lambda>s. s) sample_expanded (JoinHostPort ''Config.Example.com'' ''443'') =
     Lookup (\<lambda>s. s) sample_expanded ''config.example.com''"
  by (rule Lookup_port_case_insensitive)
    (simp_all add: plain_host_def plain_port_def char_eval)

theorem Lookup_sound_witness:
  "\<exists>h. (h, Lookup (\<lambda>s. s) sample_expanded ''config.example.com'') \<in> set (HostAliases sample_expanded)"
proof -
  have 1: "toLowerFast u (strip_port ''config.example.com'') = ''config.example.com''" for u
    by (simp add: strip_port_plain toLowerFast_def is_upper_code)
  have "Lookup (\<lambda>s. s) sample_expanded ''config.example.com'' \<noteq> ''''"
    by (simp add: Lookup_def 1 sample_expanded_def)
  from Lookup_sound [OF this] show ?thesis
    by (auto simp: 1 sample_expanded_def)
qed

theorem expanded_hostname_pinned_witness:
  "\<exists>m'. Some m' \<in> set (Masquerades sample_expanded) \<and> VerifyHostname m' \<noteq> None"
  using expanded_hostname_pinned [OF sample_expansion, of "sample_masquerade\<lparr>VerifyHostname := Some ''d5678.cloudfront.net''\<rparr>"]
  by (simp add: sample_expanded_def sample_masquerade_def)

theorem GenerateSNI_sound_witness:
  "GenerateSNI (Some \<lparr>UseArbitrarySNIs = True, ArbitrarySNIs = [''mercadopago.com'']\<rparr>) ''1.2.3.4'' \<in> {''mercadopago.com''}"
  using GenerateSNI_sound [of "Some \<lparr>UseArbitrarySNIs = True, ArbitrarySNIs = [''mercadopago.com'']\<rparr>" "''1.2.3.4''"]
  by (simp add: GenerateSNI_def)

definition sample_codecs :: codecs where
  "sample_codecs =
     \<lparr>gzip_NewReader = (\<lambda>s. case s of c # cs \<Rightarrow> Inr cs | [] \<Rightarrow> Inl (ErrText ''EOF'')),
      gzip_ReadAll = Inr, gzip_Write = (\<lambda>s. Inr (CHR ''z'' # s)), gzip_Close = Inr,
      yaml_Unmarshal = (\<lambda>s. Inr \<lparr>TrustedCAs = [], Providers = Some [(s, Some sample_provider)]\<rparr>)\<rparr>"

lemma sample_gzip_law: "gzip_law sample_codecs"
  by (auto simp: gzip_law_def sample_codecs_def)

theorem ParseConfigFromReader_CompressConfig_witness:
  "ParseConfigFromReader sample_codecs (''zcdn'', None) =
     Inr \<lparr>TrustedCAs = [], Providers = Some [(''cdn'', Some sample_provider)]\<rparr>"
proof -
  have 1: "CompressConfig sample_codecs ''cdn'' = Inr ''zcdn''"
    by (simp add: CompressConfig_def sample_codecs_def)
  have 2: "length ''zcdn'' \<le> maxConfigSize"
    by (simp add: maxConfigSize_def push_bit_eq_mult)
  show ?thesis
    using ParseConfigFromReader_CompressConfig [OF sample_gzip_law 1] 2
    by (simp add: ParseConfigYAML_def sample_codecs_def)
qed

theorem ParseConfigFromReader_bounded_witness: "length ''zcdn'' \<le> maxConfigSize"
proof -
  have "ParseConfigFromReader sample_codecs (''zcdn'', None) =
     Inr \<lparr>TrustedCAs = [], Providers = Some [(''cdn'', Some sample_provider)]\<rparr>"
    by (simp add: ParseConfigFromReader_def limited_ReadAll_def ParseConfig_def ParseConfigYAML_def
        sample_codecs_def maxConfigSize_def push_bit_eq_mult)
  from ParseConfigFromReader_bounded [OF this] show ?thesis by simp
qed

end
