(* ===== verification/Pool.thy ===== *)
theory Pool
  imports Config "HOL-Library.Product_Lexorder"
begin

text \<open>
  The front pool (\<open>front.go\<close>).
  A \<open>*front\<close> is a reference into the store \<open>mem\<close>, because the same front is reached from the
  candidate set, the ready channel and the goroutines that use it.
  Each operation here is one atomic step; \<open>Pool_Conc\<close> refines the ready queue to the single
  channel and compare-and-swap steps and lets goroutines interleave.
\<close>

subsection \<open>Fronts and the store\<close>

type_synonym fref = nat

record front = masquerade +
  LastSucceeded :: gotime
  ProviderID :: string
  queued :: bool

record pool =
  mem :: "fref \<Rightarrow> front"
  next_ref :: fref
  fronts :: "fref list"
  ready :: "fref list"
  ready_cap :: nat
  pool_closed :: bool

definition newFront :: "masquerade \<Rightarrow> string \<Rightarrow> front" where
  "newFront m providerID =
     \<lparr>Domain = Domain m, IpAddress = IpAddress m, SNI = SNI m, VerifyHostname = VerifyHostname m,
      LastSucceeded = zero_time, ProviderID = providerID, queued = False\<rparr>"

definition upd_front :: "fref \<Rightarrow> (front \<Rightarrow> front) \<Rightarrow> pool \<Rightarrow> pool" where
  "upd_front f g p = p\<lparr>mem := (mem p)(f := g (mem p f))\<rparr>"

definition lastSucceededTime :: "fref \<Rightarrow> pool \<Rightarrow> gotime" where
  "lastSucceededTime f p = LastSucceeded (mem p f)"

definition setLastSucceeded :: "fref \<Rightarrow> gotime \<Rightarrow> pool \<Rightarrow> pool" where
  "setLastSucceeded f t = upd_front f (\<lambda>fr. fr\<lparr>LastSucceeded := t\<rparr>)"

text \<open>\<open>now\<close> is what \<open>time.Now\<close> returns in the call.\<close>

definition markSucceeded :: "gotime \<Rightarrow> fref \<Rightarrow> pool \<Rightarrow> pool" where
  "markSucceeded now f = upd_front f (\<lambda>fr. fr\<lparr>LastSucceeded := now\<rparr>)"

definition markFailed :: "fref \<Rightarrow> pool \<Rightarrow> pool" where
  "markFailed f = upd_front f (\<lambda>fr. fr\<lparr>LastSucceeded := zero_time\<rparr>)"

definition isSucceeding :: "fref \<Rightarrow> pool \<Rightarrow> bool" where
  "isSucceeding f p \<longleftrightarrow> LastSucceeded (mem p f) \<noteq> zero_time"

definition set_queued :: "bool \<Rightarrow> fref \<Rightarrow> pool \<Rightarrow> pool" where
  "set_queued b f = upd_front f (\<lambda>fr. fr\<lparr>queued := b\<rparr>)"

type_synonym front_key = "string \<times> string \<times> string"

definition key :: "front \<Rightarrow> front_key" where
  "key f = (ProviderID f, Domain f, IpAddress f)"

subsection \<open>The ready queue\<close>

definition newFrontPool :: "int \<Rightarrow> pool" where
  "newFrontPool readySize =
     \<lparr>mem = (\<lambda>_. newFront \<lparr>Domain = '''', IpAddress = '''', SNI = '''', VerifyHostname = None\<rparr> ''''),
      next_ref = 0, fronts = [], ready = [],
      ready_cap = (if readySize \<le> 0 then 500 else nat readySize), pool_closed = False\<rparr>"

definition addReady :: "fref \<Rightarrow> pool \<Rightarrow> pool" where
  "addReady f p =
     (if queued (mem p f) then p
      else let p1 = set_queued True f p
           in if length (ready p1) < ready_cap p1 then p1\<lparr>ready := ready p1 @ [f]\<rparr>
              else set_queued False f p1)"

definition readyCount :: "pool \<Rightarrow> nat" where
  "readyCount p = length (ready p)"

definition tryTakeReady :: "pool \<Rightarrow> fref option \<times> pool" where
  "tryTakeReady p =
     (case ready p of
        [] \<Rightarrow> (None, p)
      | f # fs \<Rightarrow> (Some f, set_queued False f (p\<lparr>ready := fs\<rparr>)))"

text \<open>
  \<open>Take\<close> selects among the cases that are enabled: a ready front, the context being done
  (\<open>ctx = Some err\<close> when \<open>ctx.Err ()\<close> is \<open>err\<close>), the pool being closed.
  Go picks any enabled one: \<open>pick\<close> is that choice.
  With no case enabled the call blocks.
\<close>

datatype take_case = CaseReady | CaseDone | CaseClosed

datatype take_result = Took fref | TakeErr goerr | TakeBlocks

definition take_cases :: "goerr option \<Rightarrow> pool \<Rightarrow> take_case list" where
  "take_cases ctx p =
     (if ready p \<noteq> [] then [CaseReady] else []) @ (if ctx \<noteq> None then [CaseDone] else []) @
     (if pool_closed p then [CaseClosed] else [])"

definition Take :: "nat \<Rightarrow> goerr option \<Rightarrow> pool \<Rightarrow> take_result \<times> pool" where
  "Take pick ctx p =
     (let cs = take_cases ctx p
      in if cs = [] then (TakeBlocks, p)
         else case cs ! (pick mod length cs) of
                CaseReady \<Rightarrow>
                  (case ready p of
                     f # fs \<Rightarrow> (Took f, set_queued False f (p\<lparr>ready := fs\<rparr>))
                   | [] \<Rightarrow> (TakeBlocks, p))
              | CaseDone \<Rightarrow> (TakeErr (the ctx), p)
              | CaseClosed \<Rightarrow> (TakeErr ErrCanceled, p))"

definition maxProviderScan :: nat where
  "maxProviderScan = 8"

text \<open>
  The loop of \<open>TakePreferringUntried\<close> and \<open>tryTakeFrom\<close>: at most \<open>n\<close> times, pull a front,
  stop at the first that is accepted, and collect the others in \<open>skipped\<close>.
\<close>

fun scan_queue ::
  "('s \<Rightarrow> 'a option \<times> 's) \<Rightarrow> ('s \<Rightarrow> 'a \<Rightarrow> bool) \<Rightarrow> nat \<Rightarrow> 'a list \<Rightarrow> 's \<Rightarrow> 'a option \<times> 'a list \<times> 's" where
  "scan_queue deq accept 0 skipped s = (None, skipped, s)"
| "scan_queue deq accept (Suc n) skipped s =
     (case deq s of
        (None, s') \<Rightarrow> (None, skipped, s')
      | (Some x, s') \<Rightarrow>
         (if accept s' x then (Some x, skipped, s')
          else scan_queue deq accept n (skipped @ [x]) s'))"

definition TakePreferringUntried ::
  "nat \<Rightarrow> goerr option \<Rightarrow> string set \<Rightarrow> pool \<Rightarrow> take_result \<times> pool" where
  "TakePreferringUntried pick ctx tried p =
     (case Take pick ctx p of
        (Took first, p1) \<Rightarrow>
          (if ProviderID (mem p1 first) \<notin> tried then (Took first, p1)
           else
             (case scan_queue tryTakeReady (\<lambda>q f. ProviderID (mem q f) \<notin> tried)
                     (min (readyCount p1) maxProviderScan) [first] p1 of
                (found, skipped, p2) \<Rightarrow>
                  (let selected = (case found of Some f \<Rightarrow> f | None \<Rightarrow> first)
                   in (Took selected,
                       fold (\<lambda>s q. if s \<noteq> selected then addReady s q else q) skipped p2))))
      | (r, p1) \<Rightarrow> (r, p1))"

text \<open>\<open>match\<close> is given what the program's matcher reads of a front: its identity and its provider.\<close>

definition tryTakeFrom :: "(fref \<Rightarrow> string \<Rightarrow> bool) \<Rightarrow> pool \<Rightarrow> fref option \<times> pool" where
  "tryTakeFrom match p =
     (case scan_queue tryTakeReady (\<lambda>q f. match f (ProviderID (mem q f))) (readyCount p) [] p of
        (found, skipped, p1) \<Rightarrow> (found, fold addReady skipped p1))"

definition pool_Return :: "fref \<Rightarrow> bool \<Rightarrow> pool \<Rightarrow> pool" where
  "pool_Return f requeue p = (if requeue then addReady f p else markFailed f p)"

definition ReturnSuccess :: "gotime \<Rightarrow> fref \<Rightarrow> pool \<Rightarrow> pool" where
  "ReturnSuccess now f p = addReady f (markSucceeded now f p)"

definition isClosed :: "pool \<Rightarrow> bool" where
  "isClosed p = pool_closed p"

definition pool_Close :: "pool \<Rightarrow> pool" where
  "pool_Close p = (if pool_closed p then p else p\<lparr>pool_closed := True\<rparr>)"

subsection \<open>Replacing the candidate set\<close>

text \<open>The size of a pool is what a drain has left to take.\<close>

instantiation pool_ext :: (type) size
begin

definition size_pool_ext :: "'a pool_ext \<Rightarrow> nat" where
  "size_pool_ext p = length (ready p)"

instance ..

end

lemma tryTakeReady_size: "tryTakeReady p = (Some f, q) \<Longrightarrow> size q < size p"
  by (auto simp: size_pool_ext_def tryTakeReady_def set_queued_def upd_front_def split: list.splits)

function drain :: "pool \<Rightarrow> pool" where
  "drain p = (case tryTakeReady p of (None, p') \<Rightarrow> p' | (Some f, p') \<Rightarrow> drain p')"
  by pat_completeness auto
termination
  by (relation "measure size") (auto dest: tryTakeReady_size [OF sym])

declare drain.simps [simp del]

definition Replace :: "fref list \<Rightarrow> pool \<Rightarrow> pool" where
  "Replace fs p =
     (let old = fold (\<lambda>f m. AList.update (key (mem p f)) f m) (fronts p) [];
          p1 = fold (\<lambda>f q. case map_of old (key (mem q f)) of
                              Some prev \<Rightarrow> setLastSucceeded f (lastSucceededTime prev q) q
                            | None \<Rightarrow> q) fs p
      in drain (p1\<lparr>fronts := fs\<rparr>))"

subsection \<open>The candidate list\<close>

text \<open>\<open>rand.Shuffle\<close>: \<open>draw i\<close> is the number drawn for position \<open>i\<close>.\<close>

definition swap_at :: "nat \<Rightarrow> nat \<Rightarrow> 'a list \<Rightarrow> 'a list" where
  "swap_at i j xs = xs[i := xs ! j, j := xs ! i]"

fun shuffle_from :: "(nat \<Rightarrow> nat) \<Rightarrow> nat \<Rightarrow> 'a list \<Rightarrow> 'a list" where
  "shuffle_from draw 0 xs = xs"
| "shuffle_from draw (Suc i) xs =
     shuffle_from draw i (swap_at (Suc i) (draw (Suc i) mod (Suc i + 1)) xs)"

definition rand_Shuffle :: "(nat \<Rightarrow> nat) \<Rightarrow> 'a list \<Rightarrow> 'a list" where
  "rand_Shuffle draw xs = shuffle_from draw (length xs - 1) xs"

text \<open>
  \<open>slices.SortFunc\<close> is not stable: it may leave items that compare as equal in any order, so the
  model shuffles by \<open>ties\<close> before a stable sort.
  An item's timestamp is its \<open>UnixNano\<close>, or 0 for a front that never succeeded.
\<close>

definition item_ts :: "pool \<Rightarrow> fref \<Rightarrow> int" where
  "item_ts p f = (let t = lastSucceededTime f p in if t \<noteq> zero_time then UnixNano t else 0)"

definition candidates :: "(nat \<Rightarrow> nat) \<Rightarrow> (nat \<Rightarrow> nat) \<Rightarrow> pool \<Rightarrow> fref list" where
  "candidates ties draw p =
     (let items = sort_key (\<lambda>f. (- item_ts p f, IpAddress (mem p f))) (rand_Shuffle ties (fronts p));
          head = takeWhile (\<lambda>f. item_ts p f \<noteq> 0) items;
          rest = dropWhile (\<lambda>f. item_ts p f \<noteq> 0) items
      in head @ rand_Shuffle draw rest)"

subsection \<open>Effect of the operations on the store\<close>

text \<open>What never changes of an allocated front: its masquerade and its provider.\<close>

definition ident :: "pool \<Rightarrow> fref \<Rightarrow> masquerade \<times> string" where
  "ident p f = (masquerade.truncate (mem p f), ProviderID (mem p f))"

lemma ident_fields:
  "ident p f = ident q g \<longleftrightarrow>
     Domain (mem p f) = Domain (mem q g) \<and> IpAddress (mem p f) = IpAddress (mem q g) \<and>
     SNI (mem p f) = SNI (mem q g) \<and> VerifyHostname (mem p f) = VerifyHostname (mem q g) \<and>
     ProviderID (mem p f) = ProviderID (mem q g)"
  by (auto simp: ident_def masquerade.defs)

lemma ident_key: "ident p f = ident q g \<Longrightarrow> key (mem p f) = key (mem q g)"
  by (simp add: ident_fields key_def)

lemma ident_provider: "ident p f = ident q g \<Longrightarrow> ProviderID (mem p f) = ProviderID (mem q g)"
  by (simp add: ident_fields)

lemma upd_front_fields [pool_simps]:
  "fronts (upd_front f g p) = fronts p" "ready (upd_front f g p) = ready p"
  "ready_cap (upd_front f g p) = ready_cap p" "pool_closed (upd_front f g p) = pool_closed p"
  "next_ref (upd_front f g p) = next_ref p"
  "mem (upd_front f g p) x = (if x = f then g (mem p f) else mem p x)"
  by (simp_all add: upd_front_def)

lemmas front_op_defs = setLastSucceeded_def markSucceeded_def markFailed_def set_queued_def

lemma front_op_fields [pool_simps]:
  "fronts (setLastSucceeded f t p) = fronts p" "ready (setLastSucceeded f t p) = ready p"
  "ready_cap (setLastSucceeded f t p) = ready_cap p" "pool_closed (setLastSucceeded f t p) = pool_closed p"
  "next_ref (setLastSucceeded f t p) = next_ref p"
  "ident (setLastSucceeded f t p) = ident p"
  "queued (mem (setLastSucceeded f t p) x) = queued (mem p x)"
  "LastSucceeded (mem (setLastSucceeded f t p) x) = (if x = f then t else LastSucceeded (mem p x))"
  by (auto simp: setLastSucceeded_def pool_simps ident_def masquerade.defs)

lemma markSucceeded_eq: "markSucceeded now f = setLastSucceeded f now"
  by (simp add: markSucceeded_def setLastSucceeded_def)

lemma markFailed_eq: "markFailed f = setLastSucceeded f zero_time"
  by (simp add: markFailed_def setLastSucceeded_def)

lemma set_queued_fields [pool_simps]:
  "fronts (set_queued b f p) = fronts p" "ready (set_queued b f p) = ready p"
  "ready_cap (set_queued b f p) = ready_cap p" "pool_closed (set_queued b f p) = pool_closed p"
  "next_ref (set_queued b f p) = next_ref p" "ident (set_queued b f p) = ident p"
  "queued (mem (set_queued b f p) x) = (if x = f then b else queued (mem p x))"
  "LastSucceeded (mem (set_queued b f p) x) = LastSucceeded (mem p x)"
  by (auto simp: set_queued_def pool_simps ident_def masquerade.defs)

lemma ready_update_fields [pool_simps]:
  "ident (p\<lparr>ready := fs\<rparr>) = ident p" "ident (p\<lparr>fronts := fs\<rparr>) = ident p"
  "ident (p\<lparr>pool_closed := b\<rparr>) = ident p"
  by (auto simp: ident_def)

lemma addReady_fields [pool_simps]:
  "fronts (addReady f p) = fronts p" "ready_cap (addReady f p) = ready_cap p"
  "pool_closed (addReady f p) = pool_closed p" "next_ref (addReady f p) = next_ref p"
  "ident (addReady f p) = ident p"
  "LastSucceeded (mem (addReady f p) x) = LastSucceeded (mem p x)"
  by (simp_all add: addReady_def Let_def pool_simps)

lemma fold_addReady_fields [pool_simps]:
  "fronts (fold addReady fs p) = fronts p" "ready_cap (fold addReady fs p) = ready_cap p"
  "pool_closed (fold addReady fs p) = pool_closed p" "next_ref (fold addReady fs p) = next_ref p"
  "ident (fold addReady fs p) = ident p"
  "LastSucceeded (mem (fold addReady fs p) x) = LastSucceeded (mem p x)"
  by (induction fs arbitrary: p) (simp_all add: pool_simps)

lemma tryTakeReady_fields [pool_simps]:
  "fronts (snd (tryTakeReady p)) = fronts p" "ready_cap (snd (tryTakeReady p)) = ready_cap p"
  "pool_closed (snd (tryTakeReady p)) = pool_closed p" "next_ref (snd (tryTakeReady p)) = next_ref p"
  "ident (snd (tryTakeReady p)) = ident p"
  "LastSucceeded (mem (snd (tryTakeReady p)) x) = LastSucceeded (mem p x)"
  by (simp_all add: tryTakeReady_def pool_simps split: list.splits)

subsection \<open>The contract of the ready queue\<close>

text \<open>
  What the scans rely on: \<open>view\<close> is the queue, \<open>deq\<close> takes its first element, \<open>enq\<close> appends an
  element that is not in it while there is room, and otherwise changes nothing in it.
\<close>

locale ready_queue =
  fixes enq :: "'a \<Rightarrow> 's \<Rightarrow> 's"
    and deq :: "'s \<Rightarrow> 'a option \<times> 's"
    and view :: "'s \<Rightarrow> 'a list"
    and cap :: "'s \<Rightarrow> nat"
    and inv :: "'s \<Rightarrow> bool"
  assumes deq_Nil: "view s = [] \<Longrightarrow> deq s = (None, s)"
    and deq_Cons: "inv s \<Longrightarrow> view s = x # xs \<Longrightarrow>
      fst (deq s) = Some x \<and> view (snd (deq s)) = xs \<and> inv (snd (deq s)) \<and> cap (snd (deq s)) = cap s"
    and enq_view: "inv s \<Longrightarrow>
      view (enq x s) = (if x \<in> set (view s) \<or> cap s \<le> length (view s) then view s else view s @ [x])"
    and enq_inv: "inv s \<Longrightarrow> inv (enq x s) \<and> cap (enq x s) = cap s"
    and inv_view: "inv s \<Longrightarrow> distinct (view s) \<and> length (view s) \<le> cap s"
begin

lemma enq_fresh:
  "inv s \<Longrightarrow> x \<notin> set (view s) \<Longrightarrow> length (view s) < cap s \<Longrightarrow> view (enq x s) = view s @ [x]"
  by (simp add: enq_view)

text \<open>Putting distinct elements back into a queue with room for them appends them, in order.\<close>

lemma fold_enq_inv: "inv s \<Longrightarrow> inv (fold enq xs s) \<and> cap (fold enq xs s) = cap s"
  by (induction xs arbitrary: s) (auto simp: enq_inv)

lemma fold_enq_view:
  "inv s \<Longrightarrow> distinct (view s @ xs) \<Longrightarrow> length (view s) + length xs \<le> cap s \<Longrightarrow>
     view (fold enq xs s) = view s @ xs"
  by (induction xs arbitrary: s) (auto simp: enq_fresh enq_inv)

lemma fold_enq_subset:
  "inv s \<Longrightarrow> set (view (fold enq xs s)) \<subseteq> set (view s) \<union> set xs"
proof (induction xs arbitrary: s)
  case (Cons x xs)
  then show ?case
    using Cons.IH [of "enq x s"] by (auto simp: enq_inv enq_view split: if_splits)
qed simp

text \<open>
  A scan takes a prefix of the queue apart: the elements it skipped, which it does not accept, and
  then the element it found, if any; with none found it looked at as many as it was allowed to.
\<close>

lemma scan_queue_split:
  assumes "inv s" and stable: "\<And>t x. accept (snd (deq t)) x = accept t x"
    and "scan_queue deq accept n acc s = (r, skipped, s')"
  shows "\<exists>ys. skipped = acc @ ys \<and> inv s' \<and> cap s' = cap s \<and> (\<forall>y\<in>set ys. \<not> accept s y) \<and>
    view s = ys @ (case r of Some x \<Rightarrow> [x] | None \<Rightarrow> []) @ view s' \<and>
    (case r of Some x \<Rightarrow> accept s x \<and> length ys < n | None \<Rightarrow> length ys = min n (length (view s)))"
  using assms(1,3)
proof (induction n arbitrary: s acc)
  case (Suc n)
  show ?case
  proof (cases "view s")
    case Nil
    with Suc.prems show ?thesis by (auto simp: deq_Nil)
  next
    case (Cons x xs)
    define t where "t = snd (deq s)"
    have t: "deq s = (Some x, t)" "view t = xs" "inv t" "cap t = cap s"
      using deq_Cons [OF Suc.prems(1) Cons] by (auto simp: t_def prod_eq_iff)
    have acc: "accept t y = accept s y" for y
      using stable [of s y] by (simp add: t_def)
    show ?thesis
    proof (cases "accept s x")
      case True
      with Suc.prems t Cons acc show ?thesis by auto
    next
      case False
      then have "scan_queue deq accept n (acc @ [x]) t = (r, skipped, s')"
        using Suc.prems t acc by simp
      from Suc.IH [OF t(3) this] obtain ys where "skipped = (acc @ [x]) @ ys"
        "inv s'" "cap s' = cap t" "\<forall>y\<in>set ys. \<not> accept t y"
        "view t = ys @ (case r of Some x \<Rightarrow> [x] | None \<Rightarrow> []) @ view s'"
        "case r of Some x \<Rightarrow> accept t x \<and> length ys < n | None \<Rightarrow> length ys = min n (length (view t))"
        by blast
      with False t Cons acc show ?thesis
        by (intro exI [of _ "x # ys"]) (auto split: option.splits)
    qed
  qed
qed auto

text \<open>Taking until nothing is left empties the queue.\<close>

lemma deq_length: "inv s \<Longrightarrow> view s \<noteq> [] \<Longrightarrow> length (view (snd (deq s))) < length (view s)"
  using deq_Cons by (cases "view s") auto

end

subsection \<open>The invariant of the pool\<close>

definition pool_ok :: "pool \<Rightarrow> bool" where
  "pool_ok p \<longleftrightarrow> distinct (ready p) \<and> (\<forall>f. queued (mem p f) \<longleftrightarrow> f \<in> set (ready p)) \<and>
     length (ready p) \<le> ready_cap p"

lemma pool_okD:
  "pool_ok p \<Longrightarrow> distinct (ready p)" "pool_ok p \<Longrightarrow> queued (mem p f) \<longleftrightarrow> f \<in> set (ready p)"
  "pool_ok p \<Longrightarrow> length (ready p) \<le> ready_cap p"
  by (auto simp: pool_ok_def)

lemma addReady_ready:
  "pool_ok p \<Longrightarrow> ready (addReady f p) =
     (if f \<in> set (ready p) \<or> ready_cap p \<le> length (ready p) then ready p else ready p @ [f])"
  by (simp add: addReady_def Let_def pool_simps pool_okD not_less)

lemma addReady_ok [pool_inv]: "pool_ok p \<Longrightarrow> pool_ok (addReady f p)"
  by (auto simp: addReady_def Let_def pool_ok_def pool_simps)

lemma tryTakeReady_Cons:
  "ready p = f # fs \<Longrightarrow> tryTakeReady p = (Some f, set_queued False f (p\<lparr>ready := fs\<rparr>))"
  by (simp add: tryTakeReady_def)

lemma tryTakeReady_ok [pool_inv]: "pool_ok p \<Longrightarrow> pool_ok (snd (tryTakeReady p))"
  by (auto simp: tryTakeReady_def pool_ok_def pool_simps split: list.splits)

interpretation rq: ready_queue addReady tryTakeReady ready ready_cap pool_ok
proof unfold_locales
  show "ready s = [] \<Longrightarrow> tryTakeReady s = (None, s)" for s
    by (simp add: tryTakeReady_def)
  show "pool_ok s \<Longrightarrow> ready s = x # xs \<Longrightarrow>
      fst (tryTakeReady s) = Some x \<and> ready (snd (tryTakeReady s)) = xs \<and>
      pool_ok (snd (tryTakeReady s)) \<and> ready_cap (snd (tryTakeReady s)) = ready_cap s" for s x xs
    using tryTakeReady_ok [of s] by (auto simp: tryTakeReady_Cons pool_simps)
qed (auto simp: addReady_ready addReady_ok pool_simps pool_okD)

subsection \<open>Preservation of the invariant, operation by operation\<close>

lemma setLastSucceeded_ok [pool_inv]: "pool_ok p \<Longrightarrow> pool_ok (setLastSucceeded f t p)"
  by (simp add: pool_ok_def pool_simps)

lemma fold_addReady_ok [pool_inv]: "pool_ok p \<Longrightarrow> pool_ok (fold addReady fs p)"
  using rq.fold_enq_inv by blast

lemma fold_skip_selected:
  "fold (\<lambda>s q. if s \<noteq> sel then addReady s q else q) xs p = fold addReady (filter (\<lambda>s. s \<noteq> sel) xs) p"
  by (induction xs arbitrary: p) auto

lemma pool_Return_ok [pool_inv]: "pool_ok p \<Longrightarrow> pool_ok (pool_Return f b p)"
  by (simp add: pool_Return_def markFailed_eq pool_inv)

lemma ReturnSuccess_ok [pool_inv]: "pool_ok p \<Longrightarrow> pool_ok (ReturnSuccess now f p)"
  by (simp add: ReturnSuccess_def markSucceeded_eq pool_inv)

lemma pool_Close_ok [pool_inv]: "pool_ok p \<Longrightarrow> pool_ok (pool_Close p)"
  by (simp add: pool_Close_def pool_ok_def)

lemma newFrontPool_ok: "pool_ok (newFrontPool n)"
  by (simp add: newFrontPool_def pool_ok_def newFront_def)

lemma take_cases_ready: "CaseReady \<in> set (take_cases ctx p) \<Longrightarrow> ready p \<noteq> []"
  by (auto simp: take_cases_def split: if_splits)

text \<open>A take either removes the head of the ready queue or leaves the pool as it was.\<close>

lemma Take_cases:
  obtains (took) f fs where "ready p = f # fs" "Take pick ctx p = (Took f, snd (tryTakeReady p))"
  | (err) e where "Take pick ctx p = (TakeErr e, p)" "ctx = Some e \<or> pool_closed p \<and> e = ErrCanceled"
  | (blocks) "Take pick ctx p = (TakeBlocks, p)" "ready p = []" "ctx = None" "\<not> pool_closed p"
proof (cases "take_cases ctx p = []")
  case True
  then show ?thesis
    using blocks by (auto simp: Take_def take_cases_def split: if_splits)
next
  case False
  define c where "c = take_cases ctx p ! (pick mod length (take_cases ctx p))"
  have c: "c \<in> set (take_cases ctx p)"
    using False by (simp add: c_def)
  have eq: "Take pick ctx p = (case c of
      CaseReady \<Rightarrow> (case ready p of f # fs \<Rightarrow> (Took f, set_queued False f (p\<lparr>ready := fs\<rparr>)) | [] \<Rightarrow> (TakeBlocks, p))
    | CaseDone \<Rightarrow> (TakeErr (the ctx), p) | CaseClosed \<Rightarrow> (TakeErr ErrCanceled, p))"
    using False by (simp add: Take_def Let_def c_def)
  show ?thesis
  proof (cases c)
    case CaseReady
    with c take_cases_ready obtain f fs where "ready p = f # fs" by (metis neq_Nil_conv)
    with CaseReady eq show ?thesis by (intro took) (auto simp: tryTakeReady_Cons)
  next
    case CaseDone
    with c obtain e where "ctx = Some e" by (auto simp: take_cases_def split: if_splits)
    with CaseDone eq show ?thesis by (intro err [of e]) auto
  next
    case CaseClosed
    with c have "pool_closed p" by (auto simp: take_cases_def split: if_splits)
    with CaseClosed eq show ?thesis by (intro err [of ErrCanceled]) auto
  qed
qed

lemma Take_Took_iff:
  assumes "Take pick ctx p = (Took f, p')"
  shows "\<exists>fs. ready p = f # fs \<and> p' = snd (tryTakeReady p) \<and> ready p' = fs"
  using assms by (cases pick ctx p rule: Take_cases) (auto simp: tryTakeReady_Cons pool_simps)

lemma scan_stable: "ProviderID (mem (snd (tryTakeReady q)) f) = ProviderID (mem q f)"
  by (metis ident_provider tryTakeReady_fields(5))

lemma find_prefix_None: "\<forall>y\<in>set ys. \<not> P y \<Longrightarrow> find P (ys @ zs) = find P zs"
  by (induction ys) auto

lemma scan_shape:
  assumes "pool_ok p"
    and "scan_queue tryTakeReady (\<lambda>q f. m f (ProviderID (mem q f))) n acc p = (r, skipped, p')"
  obtains ys where "skipped = acc @ ys" "pool_ok p'" "ready_cap p' = ready_cap p"
    "\<forall>y\<in>set ys. \<not> m y (ProviderID (mem p y))"
    "ready p = ys @ (case r of Some x \<Rightarrow> [x] | None \<Rightarrow> []) @ ready p'"
    "case r of Some x \<Rightarrow> m x (ProviderID (mem p x)) \<and> length ys < n
     | None \<Rightarrow> length ys = min n (length (ready p))"
  using rq.scan_queue_split [OF assms(1) _ assms(2)] scan_stable by fastforce

lemma scan_queue_preserves:
  assumes "\<And>s. g (snd (deq s)) = g s" and "scan_queue deq accept n acc s = (r, skipped, s')"
  shows "g s' = g s"
  using assms(2)
proof (induction n arbitrary: acc s)
  case (Suc n)
  then show ?case
    using assms(1) [of s] by (cases "deq s") (auto split: option.splits if_splits)
qed simp

lemma scan_fields:
  assumes "scan_queue tryTakeReady accept n acc p = (r, skipped, p')"
  shows "fronts p' = fronts p" "ready_cap p' = ready_cap p" "pool_closed p' = pool_closed p"
    "next_ref p' = next_ref p" "ident p' = ident p"
    "LastSucceeded (mem p' x) = LastSucceeded (mem p x)"
  using scan_queue_preserves [OF _ assms, of fronts] scan_queue_preserves [OF _ assms, of ready_cap]
    scan_queue_preserves [OF _ assms, of pool_closed] scan_queue_preserves [OF _ assms, of next_ref]
    scan_queue_preserves [OF _ assms, of ident]
    scan_queue_preserves [OF _ assms, of "\<lambda>p. LastSucceeded (mem p x)"]
  by (simp_all add: pool_simps)

lemma Take_fields:
  assumes "Take pick ctx p = (r, p')"
  shows "fronts p' = fronts p" "ready_cap p' = ready_cap p" "pool_closed p' = pool_closed p"
    "next_ref p' = next_ref p" "ident p' = ident p" "LastSucceeded (mem p' x) = LastSucceeded (mem p x)"
    "pool_ok p \<Longrightarrow> pool_ok p'"
  using assms by (cases pick ctx p rule: Take_cases; auto simp: pool_simps pool_inv)+

lemma TakePreferringUntried_fields:
  assumes "TakePreferringUntried pick ctx tried p = (r, p')"
  shows "fronts p' = fronts p" "ready_cap p' = ready_cap p" "pool_closed p' = pool_closed p"
    "next_ref p' = next_ref p" "ident p' = ident p" "LastSucceeded (mem p' x) = LastSucceeded (mem p x)"
  using assms unfolding TakePreferringUntried_def
  by (auto simp: Let_def pool_simps fold_skip_selected scan_fields Take_fields
      split: prod.splits take_result.splits if_splits)

lemma TakePreferringUntried_not_taken:
  assumes "TakePreferringUntried pick ctx tried p = (r, p')" and "\<And>f. r \<noteq> Took f"
  shows "p' = p \<and> (r = TakeBlocks \<and> ready p = [] \<and> ctx = None \<and> \<not> pool_closed p \<or>
    (\<exists>e. r = TakeErr e \<and> (ctx = Some e \<or> pool_closed p \<and> e = ErrCanceled)))"
  using assms
  by (cases pick ctx p rule: Take_cases)
    (auto simp: TakePreferringUntried_def Let_def split: prod.splits take_result.splits if_splits)

text \<open>
  The chosen front is the first of the head and the next \<open>maxProviderScan\<close> fronts whose provider is
  untried, or else the head; everything else stays in the queue.
\<close>

definition preferred :: "string set \<Rightarrow> pool \<Rightarrow> fref" where
  "preferred tried p =
     (case find (\<lambda>g. ProviderID (mem p g) \<notin> tried) (take (Suc maxProviderScan) (ready p)) of
        Some g \<Rightarrow> g | None \<Rightarrow> hd (ready p))"

lemma requeue_skipped:
  assumes "pool_ok p" "pool_ok p2" "ready_cap p2 = ready_cap p" "mset (ready p) = mset (xs @ f # ready p2)"
  shows "pool_ok (fold addReady xs p2)" "ready (fold addReady xs p2) = ready p2 @ xs"
    "mset (ready p) = add_mset f (mset (ready (fold addReady xs p2)))"
proof -
  have "distinct (xs @ f # ready p2)"
    using assms(1,4) pool_okD(1) mset_eq_imp_distinct_iff by metis
  moreover have "length (ready p2) + length xs \<le> ready_cap p2"
    using pool_okD(3) [OF assms(1)] arg_cong [OF assms(4), of size] assms(3) by simp
  ultimately show *: "ready (fold addReady xs p2) = ready p2 @ xs"
    using assms(2) by (intro rq.fold_enq_view) auto
  show "pool_ok (fold addReady xs p2)"
    using assms(2) by (rule fold_addReady_ok)
  show "mset (ready p) = add_mset f (mset (ready (fold addReady xs p2)))"
    using assms(4) * by simp
qed

lemma preferred_head: "ready p = f # fs \<Longrightarrow> ProviderID (mem p f) \<notin> tried \<Longrightarrow> preferred tried p = f"
  by (simp add: preferred_def)

lemma preferred_found:
  assumes "ready p = f # ys @ g # zs" and "\<forall>y\<in>set (f # ys). ProviderID (mem p y) \<in> tried"
    and "ProviderID (mem p g) \<notin> tried" and "length ys < maxProviderScan"
  shows "preferred tried p = g"
proof -
  have "find (\<lambda>g. ProviderID (mem p g) \<notin> tried) (take (Suc maxProviderScan) (ready p)) = Some g"
    using assms by (auto simp: find_prefix_None take_Cons' Suc_diff_le)
  then show ?thesis by (simp add: preferred_def)
qed

lemma preferred_none:
  assumes "ready p = f # fs" and "\<forall>y\<in>set (f # take maxProviderScan fs). ProviderID (mem p y) \<in> tried"
  shows "preferred tried p = f"
proof -
  have "find (\<lambda>g. ProviderID (mem p g) \<notin> tried) (take (Suc maxProviderScan) (ready p)) = None"
    using assms by (auto simp: find_None_iff)
  with assms(1) show ?thesis by (simp add: preferred_def)
qed

text \<open>With a front taken: the head, or the result of a scan past the head.\<close>

lemma TakePreferringUntried_cases:
  assumes ok: "pool_ok p" and "TakePreferringUntried pick ctx tried p = (Took f, q)"
  obtains (head) fs where "ready p = f # fs" "ProviderID (mem p f) \<notin> tried" "pool_ok q" "ready q = fs"
  | (scanned) first ys found p2 where "\<forall>y\<in>set (first # ys). ProviderID (mem p y) \<in> tried"
      "ready p = first # ys @ (case found of Some x \<Rightarrow> [x] | None \<Rightarrow> []) @ ready p2" "pool_ok p2" "ready_cap p2 = ready_cap p"
      "case found of Some x \<Rightarrow> ProviderID (mem p x) \<notin> tried \<and> length ys < maxProviderScan
       | None \<Rightarrow> ys = take maxProviderScan (ys @ ready p2)"
      "f = (case found of Some x \<Rightarrow> x | None \<Rightarrow> first)" "q = fold addReady (filter (\<lambda>s. s \<noteq> f) (first # ys)) p2"
proof -
  obtain first p1 where take: "Take pick ctx p = (Took first, p1)"
    using assms(2) by (cases "fst (Take pick ctx p)")
      (auto simp: TakePreferringUntried_def prod_eq_iff split: prod.splits take_result.splits)
  then obtain fs where fs: "ready p = first # fs" "ready p1 = fs"
    using Take_Took_iff by blast
  note fields = Take_fields [OF take]
  have ok1: "pool_ok p1" and id: "ProviderID (mem p1 x) = ProviderID (mem p x)" for x
    using fields(5,7) ok ident_provider by metis+
  show thesis
  proof (cases "ProviderID (mem p first) \<notin> tried")
    case True
    with take fs assms(2) ok1 id show thesis
      by (intro head) (auto simp: TakePreferringUntried_def)
  next
    case False
    obtain found skipped p2 where sc: "scan_queue tryTakeReady (\<lambda>q f. ProviderID (mem q f) \<notin> tried)
        (min (readyCount p1) maxProviderScan) [first] p1 = (found, skipped, p2)"
      by (metis prod_cases3)
    from scan_shape [where m = "\<lambda>_ pid. pid \<notin> tried", OF ok1 sc] obtain ys where ys:
      "skipped = [first] @ ys" "pool_ok p2" "ready_cap p2 = ready_cap p1"
      "\<forall>y\<in>set ys. \<not> ProviderID (mem p1 y) \<notin> tried"
      "ready p1 = ys @ (case found of Some x \<Rightarrow> [x] | None \<Rightarrow> []) @ ready p2"
      "case found of Some x \<Rightarrow> ProviderID (mem p1 x) \<notin> tried \<and> length ys < min (readyCount p1) maxProviderScan
       | None \<Rightarrow> length ys = min (min (readyCount p1) maxProviderScan) (length (ready p1))"
      by blast
    show thesis
    proof (rule scanned)
      show "case found of Some x \<Rightarrow> ProviderID (mem p x) \<notin> tried \<and> length ys < maxProviderScan
         | None \<Rightarrow> ys = take maxProviderScan (ys @ ready p2)"
        using ys(5,6) id by (auto simp: readyCount_def min_def split: option.splits if_splits)
      show "f = (case found of Some x \<Rightarrow> x | None \<Rightarrow> first)" "q = fold addReady (filter (\<lambda>s. s \<noteq> f) (first # ys)) p2"
        using assms(2) take False sc id ys(1) by (auto simp: TakePreferringUntried_def Let_def fold_skip_selected)
    qed (use fs ys(2-5) id False fields(2) in auto)
  qed
qed

lemma TakePreferringUntried_took:
  assumes ok: "pool_ok p" and "TakePreferringUntried pick ctx tried p = (Took f, p')"
  shows "ready p \<noteq> [] \<and> f = preferred tried p \<and> pool_ok p' \<and> mset (ready p) = add_mset f (mset (ready p'))"
  using assms
proof (cases rule: TakePreferringUntried_cases)
  case (head fs)
  then show ?thesis by (simp add: preferred_head)
next
  case (scanned first ys found p2)
  have dist: "distinct (ready p)"
    using ok by (rule pool_okD)
  have "f = preferred tried p \<and> mset (ready p) = mset (filter (\<lambda>s. s \<noteq> f) (first # ys) @ f # ready p2)"
    (is "?sel \<and> ?all")
  proof (cases found)
    case None
    with scanned(1,2,5) have "preferred tried p = first"
      by (intro preferred_none [of p first "ys @ ready p2"]) auto
    moreover have "filter (\<lambda>s. s \<noteq> first) (first # ys) = ys"
      using dist scanned(2) None by (auto simp: filter_id_conv)
    ultimately show ?thesis
      using scanned(2,6) None by simp
  next
    case (Some g)
    with scanned(1,2,5) have "preferred tried p = g"
      by (intro preferred_found [of p first ys g "ready p2"]) auto
    moreover have "filter (\<lambda>s. s \<noteq> g) (first # ys) = first # ys"
      using dist scanned(2) Some by (auto simp: filter_id_conv)
    ultimately show ?thesis
      using scanned(2,6) Some by simp
  qed
  then have sel: ?sel and all: ?all by simp_all
  from requeue_skipped [OF ok scanned(3,4) all] show ?thesis
    unfolding scanned(7) [symmetric] using sel scanned(2) by simp
qed

lemma tryTakeFrom_spec:
  assumes ok: "pool_ok p" and "tryTakeFrom m p = (r, p')"
  shows "pool_ok p' \<and> r = find (\<lambda>f. m f (ProviderID (mem p f))) (ready p) \<and>
    (case r of None \<Rightarrow> ready p' = ready p
     | Some f \<Rightarrow> (\<exists>ys zs. ready p = ys @ f # zs \<and> ready p' = zs @ ys))"
proof -
  obtain found skipped p1 where sc:
    "scan_queue tryTakeReady (\<lambda>q f. m f (ProviderID (mem q f))) (readyCount p) [] p = (found, skipped, p1)"
    by (metis prod_cases3)
  from scan_shape [OF ok sc] obtain ys where ys: "skipped = [] @ ys" "pool_ok p1" "ready_cap p1 = ready_cap p"
    "\<forall>y\<in>set ys. \<not> m y (ProviderID (mem p y))"
    "ready p = ys @ (case found of Some x \<Rightarrow> [x] | None \<Rightarrow> []) @ ready p1"
    "case found of Some x \<Rightarrow> m x (ProviderID (mem p x)) \<and> length ys < readyCount p
     | None \<Rightarrow> length ys = min (readyCount p) (length (ready p))"
    by blast
  have r: "r = found" "p' = fold addReady ys p1"
    using assms(2) sc ys(1) by (auto simp: tryTakeFrom_def)
  have "distinct (ready p)" "length (ready p) \<le> ready_cap p"
    using ok by (auto dest: pool_okD)
  then have "ready (fold addReady ys p1) = ready p1 @ ys"
    using ys(2,3,5) by (intro rq.fold_enq_view) (auto split: option.splits)
  moreover have "ready p1 = []" if "found = None"
    using ys(5,6) that by (auto simp: readyCount_def)
  ultimately show ?thesis
    using r ys fold_addReady_ok [OF ys(2), of ys]
    by (auto simp: find_prefix_None find_None_iff split: option.splits)
qed

lemma tryTakeFrom_fields:
  assumes "tryTakeFrom m p = (r, p')"
  shows "fronts p' = fronts p" "ready_cap p' = ready_cap p" "pool_closed p' = pool_closed p"
    "next_ref p' = next_ref p" "ident p' = ident p" "LastSucceeded (mem p' x) = LastSucceeded (mem p x)"
  using assms by (auto simp: tryTakeFrom_def pool_simps scan_fields split: prod.splits)

subsection \<open>Replacing the candidate set\<close>

lemma drain_spec:
  "ready (drain p) = [] \<and> fronts (drain p) = fronts p \<and> ready_cap (drain p) = ready_cap p \<and>
   pool_closed (drain p) = pool_closed p \<and> next_ref (drain p) = next_ref p \<and> ident (drain p) = ident p \<and>
   LastSucceeded (mem (drain p) x) = LastSucceeded (mem p x) \<and> (pool_ok p \<longrightarrow> pool_ok (drain p))"
proof (induction p rule: drain.induct)
  case (1 p)
  show ?case
  proof (cases "ready p")
    case Nil
    then show ?thesis by (simp add: drain.simps [of p] tryTakeReady_def)
  next
    case (Cons f fs)
    define q where "q = snd (tryTakeReady p)"
    have t: "tryTakeReady p = (Some f, q)"
      by (simp add: q_def tryTakeReady_Cons [OF Cons])
    then have d: "drain p = drain q"
      by (simp add: drain.simps [of p])
    show ?thesis
      using "1.IH" [of "Some f" q f] t tryTakeReady_ok [of p, folded q_def] unfolding d
      by (simp add: tryTakeReady_fields [of p, folded q_def])
  qed
qed

definition inherited :: "pool \<Rightarrow> fref \<Rightarrow> fref option" where
  "inherited p f = find (\<lambda>g. key (mem p g) = key (mem p f)) (rev (fronts p))"

lemma map_of_find: "map_of (map (\<lambda>x. (k x, x)) xs) a = find (\<lambda>x. k x = a) xs"
  by (induction xs) auto

lemma old_map_inherited:
  "map_of (fold (\<lambda>f m. AList.update (key (mem p f)) f m) (fronts p) []) (key (mem p f)) = inherited p f"
  using map_of_fold_update [of "\<lambda>f. key (mem p f)" "\<lambda>f. f" "fronts p" "[]"]
  by (simp add: inherited_def rev_map map_of_find)

lemma inherited_in: "inherited p f = Some g \<Longrightarrow> g \<in> set (fronts p) \<and> key (mem p g) = key (mem p f)"
  by (auto simp: inherited_def dest: find_Some_set)

text \<open>The loop of \<open>Replace\<close> over the new fronts.\<close>

definition inherit_all :: "(front_key \<times> fref) list \<Rightarrow> fref list \<Rightarrow> pool \<Rightarrow> pool" where
  "inherit_all old fs p = fold (\<lambda>f q. case map_of old (key (mem q f)) of
      Some prev \<Rightarrow> setLastSucceeded f (lastSucceededTime prev q) q | None \<Rightarrow> q) fs p"

lemma inherit_all_spec:
  assumes "\<And>k g. map_of old k = Some g \<Longrightarrow> g \<notin> set fs"
  shows "ready (inherit_all old fs p) = ready p \<and> fronts (inherit_all old fs p) = fronts p \<and>
    ready_cap (inherit_all old fs p) = ready_cap p \<and> pool_closed (inherit_all old fs p) = pool_closed p \<and>
    next_ref (inherit_all old fs p) = next_ref p \<and> ident (inherit_all old fs p) = ident p \<and>
    (\<forall>x. queued (mem (inherit_all old fs p) x) = queued (mem p x)) \<and>
    (\<forall>x. LastSucceeded (mem (inherit_all old fs p) x) =
      (if x \<in> set fs then case map_of old (key (mem p x)) of
           Some g \<Rightarrow> LastSucceeded (mem p g) | None \<Rightarrow> LastSucceeded (mem p x)
       else LastSucceeded (mem p x)))"
  using assms
proof (induction fs arbitrary: p)
  case Nil
  then show ?case by (simp add: inherit_all_def)
next
  case (Cons f fs)
  define q where "q = (case map_of old (key (mem p f)) of
      Some prev \<Rightarrow> setLastSucceeded f (lastSucceededTime prev p) p | None \<Rightarrow> p)"
  have step: "inherit_all old (f # fs) p = inherit_all old fs q"
    by (simp add: inherit_all_def q_def)
  have q: "ready q = ready p" "fronts q = fronts p" "ready_cap q = ready_cap p" "pool_closed q = pool_closed p"
    "next_ref q = next_ref p" "ident q = ident p" "queued (mem q x) = queued (mem p x)"
    "LastSucceeded (mem q x) = (if x = f then case map_of old (key (mem p f)) of
       Some g \<Rightarrow> LastSucceeded (mem p g) | None \<Rightarrow> LastSucceeded (mem p f) else LastSucceeded (mem p x))" for x
    by (auto simp: q_def front_op_fields lastSucceededTime_def split: option.splits)
  have k: "key (mem q x) = key (mem p x)" for x
    using q(6) ident_key by metis
  have g: "g \<noteq> f" "g \<notin> set fs" if "map_of old k = Some g" for k g
    using Cons.prems [OF that] by auto
  show ?case
    using Cons.IH [of q] g unfolding step
    by (auto simp: q k split: option.splits)
qed

lemma Replace_eq:
  "Replace fs p = drain ((inherit_all (fold (\<lambda>f m. AList.update (key (mem p f)) f m) (fronts p) []) fs p)
     \<lparr>fronts := fs\<rparr>)"
  by (simp add: Replace_def inherit_all_def Let_def)

lemma Replace_ok [pool_inv]: "pool_ok p \<Longrightarrow> pool_ok (Replace fs p)"
proof -
  have "pool_ok (inherit_all old fs q)" if "pool_ok q" for old q
    using that unfolding inherit_all_def
    by (induction fs arbitrary: q) (auto simp: pool_inv split: option.splits)
  moreover have "pool_ok (q\<lparr>fronts := fs\<rparr>)" if "pool_ok q" for q
    using that by (simp add: pool_ok_def)
  ultimately show "pool_ok p \<Longrightarrow> pool_ok (Replace fs p)"
    unfolding Replace_eq using drain_spec by blast
qed

lemma Replace_fields:
  "fronts (Replace fs p) = fs" "ready (Replace fs p) = []" "ready_cap (Replace fs p) = ready_cap p"
  "pool_closed (Replace fs p) = pool_closed p" "next_ref (Replace fs p) = next_ref p"
  "ident (Replace fs p) = ident p"
proof -
  have "ready_cap (inherit_all old fs q) = ready_cap q \<and> pool_closed (inherit_all old fs q) = pool_closed q \<and>
    next_ref (inherit_all old fs q) = next_ref q \<and> ident (inherit_all old fs q) = ident q" for old q
    unfolding inherit_all_def
    by (induction fs arbitrary: q) (auto simp: pool_simps split: option.splits)
  then show "fronts (Replace fs p) = fs" "ready (Replace fs p) = []" "ready_cap (Replace fs p) = ready_cap p"
    "pool_closed (Replace fs p) = pool_closed p" "next_ref (Replace fs p) = next_ref p"
    "ident (Replace fs p) = ident p"
    by (simp_all add: Replace_eq drain_spec pool_simps)
qed

lemma Replace_LastSucceeded:
  assumes "set fs \<inter> set (fronts p) = {}"
  shows "LastSucceeded (mem (Replace fs p) f) =
    (if f \<in> set fs then case inherited p f of
        Some g \<Rightarrow> LastSucceeded (mem p g) | None \<Rightarrow> LastSucceeded (mem p f)
     else LastSucceeded (mem p f))"
proof -
  let ?old = "fold (\<lambda>f m. AList.update (key (mem p f)) f m) (fronts p) []"
  have "g \<notin> set fs" if "map_of ?old k = Some g" for k g
  proof -
    have "g \<in> set (fronts p)"
      using that map_of_fold_update [of "\<lambda>f. key (mem p f)" "\<lambda>f. f" "fronts p" "[]"]
      by (auto simp: rev_map map_of_find dest: find_Some_set)
    with assms show ?thesis by auto
  qed
  then show ?thesis
    by (simp add: Replace_eq drain_spec inherit_all_spec old_map_inherited)
qed

subsection \<open>The candidate list\<close>

lemma length_shuffle_from [simp]: "length (shuffle_from d i xs) = length xs"
  by (induction i arbitrary: xs) (auto simp: swap_at_def)

lemma mset_swap_at: "i < length xs \<Longrightarrow> j < length xs \<Longrightarrow> mset (swap_at i j xs) = mset xs"
  by (simp add: swap_at_def mset_swap)

lemma mset_shuffle_from: "i < length xs \<Longrightarrow> mset (shuffle_from d i xs) = mset xs"
proof (induction i arbitrary: xs)
  case (Suc i)
  have "d (Suc i) mod (Suc i + 1) < length xs"
    using Suc.prems by (simp add: less_le_trans [OF mod_less_divisor])
  moreover have "length (swap_at (Suc i) j xs) = length xs" for j
    by (simp add: swap_at_def)
  ultimately show ?case
    using Suc by (simp add: mset_swap_at del: mod_Suc_eq)
qed simp

lemma mset_rand_Shuffle [simp]: "mset (rand_Shuffle d xs) = mset xs"
  by (cases xs) (simp_all add: rand_Shuffle_def mset_shuffle_from)

lemma set_rand_Shuffle [simp]: "set (rand_Shuffle d xs) = set xs"
  by (metis mset_rand_Shuffle set_mset_mset)

lemma mset_candidates: "mset (candidates ties draw p) = mset (fronts p)"
proof -
  have "mset (takeWhile P xs) + mset (dropWhile P xs) = mset xs" for P :: "fref \<Rightarrow> bool" and xs
    by (metis mset_append takeWhile_dropWhile_id)
  then show ?thesis by (simp add: candidates_def Let_def)
qed

lemma set_candidates: "set (candidates ties draw p) = set (fronts p)"
  by (metis mset_candidates set_mset_mset)

text \<open>With every recorded success in the range of \<open>UnixNano\<close>, the order is by time.\<close>

definition times_ok :: "pool \<Rightarrow> fref set \<Rightarrow> bool" where
  "times_ok p fs \<longleftrightarrow> (\<forall>f\<in>fs. isSucceeding f p \<longrightarrow> in_unix_range (LastSucceeded (mem p f)))"

lemma item_ts_in_range:
  "times_ok p fs \<Longrightarrow> f \<in> fs \<Longrightarrow>
     item_ts p f = (if isSucceeding f p then LastSucceeded (mem p f) - unix_epoch else 0)"
  by (auto simp: times_ok_def item_ts_def isSucceeding_def lastSucceededTime_def UnixNano_in_range)

lemma item_ts_pos:
  assumes "times_ok p fs" and "f \<in> fs"
  shows "0 \<le> item_ts p f" "item_ts p f \<noteq> 0 \<longleftrightarrow> isSucceeding f p"
  using item_ts_in_range [OF assms] assms by (auto simp: times_ok_def in_unix_range_def)

lemma candidates_split:
  assumes "times_ok p (set (fronts p))"
  obtains head rest where "candidates ties draw p = head @ rest"
    "sorted_wrt (\<lambda>f g. LastSucceeded (mem p g) \<le> LastSucceeded (mem p f)) head"
    "\<forall>f\<in>set head. isSucceeding f p" "\<forall>f\<in>set rest. \<not> isSucceeding f p"
proof -
  define items where "items = sort_key (\<lambda>f. (- item_ts p f, IpAddress (mem p f))) (rand_Shuffle ties (fronts p))"
  define head where "head = takeWhile (\<lambda>f. item_ts p f \<noteq> 0) items"
  define rest where "rest = dropWhile (\<lambda>f. item_ts p f \<noteq> 0) items"
  have sub: "set items = set (fronts p)"
    by (simp add: items_def)
  have srt: "sorted_wrt (\<lambda>f g. item_ts p g \<le> item_ts p f) items"
    using sorted_sort_key [of "\<lambda>f. (- item_ts p f, IpAddress (mem p f))" "rand_Shuffle ties (fronts p)"]
    unfolding items_def sorted_map by (rule sorted_wrt_mono_rel [rotated]) (auto simp: less_eq_prod_def)
  have nn: "0 \<le> item_ts p f" "item_ts p f \<noteq> 0 \<longleftrightarrow> isSucceeding f p" if "f \<in> set items" for f
    using item_ts_pos [OF assms] that sub by auto
  have it: "items = head @ rest"
    by (simp add: head_def rest_def)
  have z: "item_ts p f = 0" if "f \<in> set rest" for f
  proof -
    obtain r rs where r: "rest = r # rs" using \<open>f \<in> set rest\<close> by (cases rest) auto
    then have "item_ts p r = 0"
      unfolding rest_def by (metis (mono_tags, lifting) dropWhile_eq_Cons_conv)
    moreover have "item_ts p f \<le> item_ts p r"
      using srt that r by (auto simp: it sorted_wrt_append)
    ultimately show ?thesis
      using nn(1) [of f] that it by auto
  qed
  have s: "isSucceeding f p" if "f \<in> set head" for f
    using that nn(2) [of f] set_takeWhileD [of f "\<lambda>f. item_ts p f \<noteq> 0" items] by (auto simp: head_def)
  have hf: "f \<in> set (fronts p)" if "f \<in> set head" for f
    using that sub it by auto
  have "LastSucceeded (mem p g) \<le> LastSucceeded (mem p f)"
    if "f \<in> set head" "g \<in> set head" "item_ts p g \<le> item_ts p f" for f g
    using that s item_ts_in_range [OF assms hf] by simp
  then have "sorted_wrt (\<lambda>f g. LastSucceeded (mem p g) \<le> LastSucceeded (mem p f)) head"
    using srt unfolding it sorted_wrt_append by (auto elim: sorted_wrt_mono_rel [rotated])
  moreover have "\<forall>f\<in>set (rand_Shuffle draw rest). \<not> isSucceeding f p"
    using z nn(2) it by auto
  moreover have "candidates ties draw p = head @ rand_Shuffle draw rest"
    by (simp add: candidates_def Let_def items_def head_def rest_def)
  ultimately show ?thesis
    using s that by blast
qed

subsection \<open>Runs of the pool\<close>

definition alloc_front :: "masquerade \<Rightarrow> string \<Rightarrow> pool \<Rightarrow> fref \<times> pool" where
  "alloc_front m providerID p =
     (next_ref p, p\<lparr>mem := (mem p)(next_ref p := newFront m providerID), next_ref := Suc (next_ref p)\<rparr>)"

text \<open>
  One access to the shared state, by any goroutine, on fronts that exist: a channel operation with its
  flag, a time, a new object, the list of candidates, the closed channel.
\<close>

inductive pool_step :: "pool \<Rightarrow> pool \<Rightarrow> bool" where
  take_one: "pool_step p (snd (tryTakeReady p))"
| add: "f < next_ref p \<Longrightarrow> pool_step p (addReady f p)"
| mark: "pool_step p (setLastSucceeded f t p)"
| alloc: "pool_step p (snd (alloc_front m pid p))"
| install: "distinct fs \<Longrightarrow> \<forall>f\<in>set fs. f < next_ref p \<Longrightarrow> pool_step p (p\<lparr>fronts := fs\<rparr>)"
| close: "pool_step p (pool_Close p)"

abbreviation pool_runs :: "pool \<Rightarrow> pool \<Rightarrow> bool" where
  "pool_runs \<equiv> pool_step\<^sup>*\<^sup>*"

definition pool_wf :: "pool \<Rightarrow> bool" where
  "pool_wf p \<longleftrightarrow> pool_ok p \<and> (\<forall>f\<in>set (ready p). f < next_ref p)"

lemma addReady_wf: "pool_wf p \<Longrightarrow> f < next_ref p \<Longrightarrow> pool_wf (addReady f p)"
  by (auto simp: pool_wf_def addReady_ok addReady_ready pool_simps)

lemma setLastSucceeded_wf: "pool_wf p \<Longrightarrow> pool_wf (setLastSucceeded f t p)"
  by (simp add: pool_wf_def setLastSucceeded_ok pool_simps)

lemma newFrontPool_wf: "pool_wf (newFrontPool n)"
  by (simp add: pool_wf_def newFrontPool_ok) (simp add: newFrontPool_def)

lemma Replace_wf: "pool_wf p \<Longrightarrow> pool_wf (Replace fs p)"
  by (simp add: pool_wf_def Replace_ok Replace_fields)

lemma pool_Return_wf: "pool_wf p \<Longrightarrow> f < next_ref p \<Longrightarrow> pool_wf (pool_Return f b p)"
  by (simp add: pool_Return_def markFailed_eq addReady_wf setLastSucceeded_wf)

lemma ReturnSuccess_wf: "pool_wf p \<Longrightarrow> f < next_ref p \<Longrightarrow> pool_wf (ReturnSuccess now f p)"
  by (simp add: ReturnSuccess_def markSucceeded_eq addReady_wf setLastSucceeded_wf pool_simps)

lemma pool_Close_wf: "pool_wf p \<Longrightarrow> pool_wf (pool_Close p)"
  by (simp add: pool_wf_def pool_Close_ok) (simp add: pool_Close_def)

lemma alloc_front_wf: "pool_wf p \<Longrightarrow> pool_wf (snd (alloc_front m pid p))"
  by (fastforce simp: alloc_front_def pool_wf_def pool_ok_def newFront_def)

lemma TakePreferringUntried_wf:
  assumes "pool_wf p"
  shows "pool_wf (snd (TakePreferringUntried pick ctx tried p))"
proof (cases "TakePreferringUntried pick ctx tried p")
  case (Pair r p')
  show ?thesis
  proof (cases r)
    case (Took f)
    with Pair assms have "pool_ok p'" "mset (ready p) = add_mset f (mset (ready p'))"
      using TakePreferringUntried_took by (auto simp: pool_wf_def)
    then have "pool_ok p'" "set (ready p) = insert f (set (ready p'))"
      by (metis set_mset_add_mset_insert set_mset_mset)+
    with assms Pair TakePreferringUntried_fields(4) [OF Pair] show ?thesis
      by (simp add: pool_wf_def)
  qed (use Pair assms TakePreferringUntried_not_taken [OF Pair] in simp_all)
qed

lemma tryTakeFrom_wf:
  assumes "pool_wf p"
  shows "pool_wf (snd (tryTakeFrom m p))"
proof (cases "tryTakeFrom m p")
  case (Pair r p')
  with tryTakeFrom_spec [OF _ Pair] assms tryTakeFrom_fields(4) [OF Pair] show ?thesis
    by (cases r) (auto simp: pool_wf_def)
qed

lemma tryTakeReady_wf: "pool_wf p \<Longrightarrow> pool_wf (snd (tryTakeReady p))"
  using tryTakeReady_ok [of p] by (auto simp: pool_wf_def pool_simps tryTakeReady_def split: list.splits)

lemma pool_step_wf: "pool_step p q \<Longrightarrow> pool_wf p \<Longrightarrow> pool_wf q"
proof (induction rule: pool_step.induct)
  case (install fs p)
  then show ?case by (simp add: pool_wf_def pool_ok_def)
qed (simp_all add: tryTakeReady_wf addReady_wf setLastSucceeded_wf alloc_front_wf pool_Close_wf)

lemma pool_step_cap: "pool_step p q \<Longrightarrow> ready_cap q = ready_cap p"
  by (induction rule: pool_step.induct) (simp_all add: alloc_front_def pool_Close_def pool_simps)

text \<open>What no access takes back: the candidates exist and are distinct, objects stay, a closed pool stays closed.\<close>

lemma pool_step_fronts:
  "pool_step p q \<Longrightarrow> distinct (fronts p) \<Longrightarrow> \<forall>f\<in>set (fronts p). f < next_ref p \<Longrightarrow>
     distinct (fronts q) \<and> (\<forall>f\<in>set (fronts q). f < next_ref q)"
  by (induction rule: pool_step.induct) (auto simp: alloc_front_def pool_Close_def pool_simps)

lemma ident_alloc_front: "f < next_ref p \<Longrightarrow> ident (snd (alloc_front m pid p)) f = ident p f"
  by (simp add: alloc_front_def ident_def)

lemma pool_step_evolves:
  "pool_step p q \<Longrightarrow>
     next_ref p \<le> next_ref q \<and> (\<forall>f<next_ref p. ident q f = ident p f) \<and> (pool_closed p \<longrightarrow> pool_closed q)"
proof (induction rule: pool_step.induct)
  case (alloc p m pid)
  have "next_ref (snd (alloc_front m pid p)) = Suc (next_ref p)" "pool_closed (snd (alloc_front m pid p)) = pool_closed p"
    by (simp_all add: alloc_front_def)
  then show ?case using ident_alloc_front by simp
qed (simp_all add: pool_Close_def pool_simps)

lemma pool_runs_keep:
  "pool_runs p q \<Longrightarrow> (pool_wf p \<longrightarrow> pool_wf q) \<and> next_ref p \<le> next_ref q \<and> ready_cap q = ready_cap p"
proof (induction rule: rtranclp_induct)
  case (step q r)
  with pool_step_wf [OF step(2)] pool_step_evolves [OF step(2)] pool_step_cap [OF step(2)] show ?case
    by auto
qed simp

definition pool_start :: "int \<Rightarrow> pool \<Rightarrow> bool" where
  "pool_start n p \<longleftrightarrow> p = newFrontPool n"

interpretation pool_run: invariant "pool_start n" pool_step
  "\<lambda>p. pool_wf p \<and> ready_cap p = (if n \<le> 0 then 500 else nat n)" for n
  by unfold_locales
    (auto simp: pool_start_def newFrontPool_wf pool_step_wf pool_step_cap, simp_all add: newFrontPool_def)

subsection \<open>Properties\<close>

text \<open>
  Whatever operations run on a new pool, in whatever order, its ready queue holds no front
  twice, holds exactly the fronts whose \<open>queued\<close> flag is set, and never more than the configured
  capacity (500 when none is configured).
\<close>

theorem reachable_pool_ok:
  assumes "pool_step\<^sup>*\<^sup>* (newFrontPool n) p"
  shows "distinct (ready p) \<and> (\<forall>f. queued (mem p f) \<longleftrightarrow> f \<in> set (ready p)) \<and>
    length (ready p) \<le> (if n \<le> 0 then 500 else nat n)"
  using pool_run.inv_reachable [of n "newFrontPool n" p] assms
  by (auto simp: pool_start_def pool_wf_def pool_ok_def)

theorem reachable_pool_ok_witness:
  "distinct (ready (snd (alloc_front sample_masquerade ''cdn'' (newFrontPool 2))))"
  using reachable_pool_ok [of 2 "snd (alloc_front sample_masquerade ''cdn'' (newFrontPool 2))"]
    pool_step.alloc [of "newFrontPool 2" sample_masquerade "''cdn''"]
  by blast

text \<open>
  C10: \<open>TakePreferringUntried\<close> takes exactly one front out of the ready queue and keeps all the others
  queued; it is the first of the head and the next eight fronts whose provider has not been tried, or
  the head when there is none. It blocks only on an empty queue, with the context alive and the pool
  open; otherwise it returns the context's error, or \<open>context.Canceled\<close> for a closed pool.
\<close>

theorem TakePreferringUntried_contract:
  assumes "pool_ok p" and "TakePreferringUntried pick ctx tried p = (r, p')"
  shows "case r of
      Took f \<Rightarrow> ready p \<noteq> [] \<and> f = preferred tried p \<and> pool_ok p' \<and>
        mset (ready p) = add_mset f (mset (ready p'))
    | TakeErr e \<Rightarrow> p' = p \<and> (ctx = Some e \<or> pool_closed p \<and> e = ErrCanceled)
    | TakeBlocks \<Rightarrow> p' = p \<and> ready p = [] \<and> ctx = None \<and> \<not> pool_closed p"
proof (cases r)
  case (Took f)
  with TakePreferringUntried_took [OF assms(1)] assms(2) show ?thesis by simp
next
  case (TakeErr e)
  with TakePreferringUntried_not_taken [OF assms(2)] show ?thesis by auto
next
  case TakeBlocks
  with TakePreferringUntried_not_taken [OF assms(2)] show ?thesis by auto
qed

definition sample_pool :: pool where
  "sample_pool =
     (newFrontPool 4)\<lparr>mem := (\<lambda>f. (newFront sample_masquerade (if f = 2 then ''b'' else ''a''))
        \<lparr>queued := f < 3, LastSucceeded := (if f < 3 then unix_epoch + int f + 1 else zero_time)\<rparr>),
      next_ref := 4, fronts := [0, 1, 2, 3], ready := [0, 1, 2]\<rparr>"

lemma sample_pool_ok: "pool_ok sample_pool"
  by (auto simp: pool_ok_def sample_pool_def newFrontPool_def)

lemma sample_pool_fields:
  "ready sample_pool = [0, 1, 2]" "fronts sample_pool = [0, 1, 2, 3]"
  "ProviderID (mem sample_pool f) = (if f = 2 then ''b'' else ''a'')"
  "LastSucceeded (mem sample_pool f) = (if f < 3 then unix_epoch + int f + 1 else zero_time)"
  "\<not> pool_closed sample_pool"
  by (simp_all add: sample_pool_def newFront_def newFrontPool_def)

theorem TakePreferringUntried_contract_witness:
  "\<exists>p'. TakePreferringUntried 0 None {''a''} sample_pool = (Took 2, p') \<and> mset [0, 1, 2] = add_mset 2 (mset (ready p'))"
proof -
  obtain r p' where r: "TakePreferringUntried 0 None {''a''} sample_pool = (r, p')"
    by (metis surj_pair)
  have "preferred {''a''} sample_pool = 2"
    by (simp add: preferred_def sample_pool_fields maxProviderScan_def)
  with TakePreferringUntried_contract [OF sample_pool_ok r] r show ?thesis
    by (cases r) (auto simp: sample_pool_fields)
qed

text \<open>
  \<open>tryTakeFrom\<close> returns the first ready front that the matcher accepts, and nothing exactly when
  none is accepted, in which case the queue is as before, in the same order. A found front is the only
  one removed: the fronts it passed over go to the back, in order.
\<close>

theorem tryTakeFrom_contract:
  assumes "pool_ok p" and "tryTakeFrom m p = (r, p')"
  shows "pool_ok p' \<and> r = find (\<lambda>f. m f (ProviderID (mem p f))) (ready p) \<and>
    (case r of None \<Rightarrow> ready p' = ready p
     | Some f \<Rightarrow> (\<exists>ys zs. ready p = ys @ f # zs \<and> ready p' = zs @ ys))"
  using assms by (rule tryTakeFrom_spec)

theorem tryTakeFrom_contract_witness:
  "fst (tryTakeFrom (\<lambda>f pid. pid = ''b'') sample_pool) = Some 2"
  using tryTakeFrom_contract [OF sample_pool_ok surjective_pairing, of "\<lambda>f pid. pid = ''b''"]
  by (simp add: sample_pool_fields)

text \<open>
  C11: \<open>Replace\<close> installs the new candidate set and empties the ready queue; a new front with the
  provider, domain and address of an old one takes over the last such front's success time, any other
  new front keeps its own, and no front outside the new set changes. The new fronts are new objects.
\<close>

theorem Replace_contract:
  assumes "pool_ok p" and "set fs \<inter> set (fronts p) = {}"
  shows "pool_ok (Replace fs p) \<and> fronts (Replace fs p) = fs \<and> ready (Replace fs p) = [] \<and>
    (\<forall>f. LastSucceeded (mem (Replace fs p) f) =
      (if f \<in> set fs then case inherited p f of
           Some g \<Rightarrow> LastSucceeded (mem p g) | None \<Rightarrow> LastSucceeded (mem p f)
       else LastSucceeded (mem p f)))"
  using Replace_ok [OF assms(1)] Replace_LastSucceeded [OF assms(2)] by (simp add: Replace_fields)

theorem Replace_contract_witness:
  "LastSucceeded (mem (Replace [7] sample_pool) 7) = zero_time \<and> ready (Replace [7] sample_pool) = []"
proof -
  have 1: "set [7] \<inter> set (fronts sample_pool) = {}"
    by (simp add: sample_pool_fields)
  have "inherited sample_pool 7 = Some 3"
    by (simp add: inherited_def sample_pool_fields key_def) (simp add: sample_pool_def newFront_def)
  then show ?thesis
    using Replace_contract [OF sample_pool_ok 1] by (simp add: sample_pool_fields)
qed

text \<open>
  C12: the candidate list has exactly the fronts of the pool; those with a recorded success come first,
  the most recent first, and all the others follow, whatever the sort does with ties and whatever the
  shuffle draws. The recorded times lie between 1970 and 2262.
\<close>

theorem candidates_contract:
  assumes "times_ok p (set (fronts p))"
  shows "mset (candidates ties draw p) = mset (fronts p) \<and>
    (\<exists>head rest. candidates ties draw p = head @ rest \<and>
      sorted_wrt (\<lambda>f g. LastSucceeded (mem p g) \<le> LastSucceeded (mem p f)) head \<and>
      (\<forall>f\<in>set head. isSucceeding f p) \<and> (\<forall>f\<in>set rest. \<not> isSucceeding f p))"
  using candidates_split [OF assms, of ties draw] mset_candidates by metis

theorem candidates_contract_witness:
  "\<exists>head rest. candidates id id sample_pool = head @ rest \<and> set (head @ rest) = {0, 1, 2, 3} \<and>
     (\<forall>f\<in>set head. isSucceeding f sample_pool)"
proof -
  have 1: "times_ok sample_pool (set (fronts sample_pool))"
    by (auto simp: times_ok_def sample_pool_fields in_unix_range_def isSucceeding_def)
  note c = candidates_contract [OF this, of id id]
  then have "set (candidates id id sample_pool) = {0, 1, 2, 3}"
    by (metis list.set(1) list.simps(15) sample_pool_fields(2) set_mset_mset)
  with c show ?thesis by metis
qed

end
