(* ===== verification/Pool_Conc.thy ===== *)
theory Pool_Conc
  imports Pool
begin

text \<open>
  The ready queue under interleaving (\<open>addReady\<close>, \<open>Take\<close>, \<open>tryTakeReady\<close> and the drain of
  \<open>Replace\<close> in \<open>front.go\<close>): the steps are the single channel operations and the single accesses to
  a front's atomic \<open>queued\<close> flag, and any number of goroutines take them in any order.
  The atomic operations of \<open>Pool\<close> are runs of this machine (\<open>addReady_run\<close>, \<open>tryTakeReady_run\<close>).
\<close>

subsection \<open>Goroutines and steps\<close>

text \<open>
  Where a goroutine is: outside; in \<open>addReady\<close> after its compare-and-swap succeeded; in \<open>addReady\<close>
  after the channel was found full; in a take after it received from the channel.
\<close>

datatype pc = Outside | Sending fref | Dropping fref | Received fref

type_synonym tid = nat

record cpool =
  flag :: "fref \<Rightarrow> bool"
  chan :: "fref list"
  chan_cap :: nat
  pcs :: "tid \<Rightarrow> pc"

inductive conc_step :: "cpool \<Rightarrow> cpool \<Rightarrow> bool" where
  add_cas: "pcs s t = Outside \<Longrightarrow> \<not> flag s f \<Longrightarrow>
    conc_step s (s\<lparr>flag := (flag s)(f := True), pcs := (pcs s)(t := Sending f)\<rparr>)"
| add_queued: "pcs s t = Outside \<Longrightarrow> flag s f \<Longrightarrow> conc_step s s"
| send: "pcs s t = Sending f \<Longrightarrow> length (chan s) < chan_cap s \<Longrightarrow>
    conc_step s (s\<lparr>chan := chan s @ [f], pcs := (pcs s)(t := Outside)\<rparr>)"
| full: "pcs s t = Sending f \<Longrightarrow> \<not> length (chan s) < chan_cap s \<Longrightarrow>
    conc_step s (s\<lparr>pcs := (pcs s)(t := Dropping f)\<rparr>)"
| drop_front: "pcs s t = Dropping f \<Longrightarrow>
    conc_step s (s\<lparr>flag := (flag s)(f := False), pcs := (pcs s)(t := Outside)\<rparr>)"
| receive: "pcs s t = Outside \<Longrightarrow> chan s = f # fs \<Longrightarrow>
    conc_step s (s\<lparr>chan := fs, pcs := (pcs s)(t := Received f)\<rparr>)"
| unqueue: "pcs s t = Received f \<Longrightarrow>
    conc_step s (s\<lparr>flag := (flag s)(f := False), pcs := (pcs s)(t := Outside)\<rparr>)"

definition conc_start :: "nat \<Rightarrow> cpool \<Rightarrow> bool" where
  "conc_start n s \<longleftrightarrow> s = \<lparr>flag = (\<lambda>_. False), chan = [], chan_cap = n, pcs = (\<lambda>_. Outside)\<rparr>"

text \<open>
  \<open>Close\<close> of the pool: it looks whether the channel is closed, and closes it if it was open. Closing a
  closed channel panics.
\<close>

datatype closer = NotClosing | SawOpen | CloseDone

record closing =
  chan_closed :: bool
  close_panicked :: bool
  closers :: "tid \<Rightarrow> closer"

inductive close_step :: "closing \<Rightarrow> closing \<Rightarrow> bool" where
  see_closed: "closers s t = NotClosing \<Longrightarrow> chan_closed s \<Longrightarrow> close_step s (s\<lparr>closers := (closers s)(t := CloseDone)\<rparr>)"
| see_open: "closers s t = NotClosing \<Longrightarrow> \<not> chan_closed s \<Longrightarrow> close_step s (s\<lparr>closers := (closers s)(t := SawOpen)\<rparr>)"
| close_it: "closers s t = SawOpen \<Longrightarrow> \<not> chan_closed s \<Longrightarrow>
    close_step s (s\<lparr>chan_closed := True, closers := (closers s)(t := CloseDone)\<rparr>)"
| close_twice: "closers s t = SawOpen \<Longrightarrow> chan_closed s \<Longrightarrow> close_step s (s\<lparr>close_panicked := True\<rparr>)"

text \<open>The steps with at most one call at work at a time.\<close>

definition one_closing :: "closing \<Rightarrow> bool" where
  "one_closing s \<longleftrightarrow> (\<forall>t u. closers s t = SawOpen \<longrightarrow> closers s u = SawOpen \<longrightarrow> t = u)"

definition close_alone :: "closing \<Rightarrow> closing \<Rightarrow> bool" where
  "close_alone s s' \<longleftrightarrow> close_step s s' \<and> one_closing s'"

abbreviation closing_start :: closing where
  "closing_start \<equiv> \<lparr>chan_closed = False, close_panicked = False, closers = (\<lambda>_. NotClosing)\<rparr>"

subsection \<open>The invariant\<close>

text \<open>The front for which a goroutine, in the middle of an operation, is responsible.\<close>

fun holds :: "pc \<Rightarrow> fref option" where
  "holds Outside = None"
| "holds (Sending f) = Some f"
| "holds (Dropping f) = Some f"
| "holds (Received f) = Some f"

text \<open>
  A set flag is a token for the front: it is in exactly one place, in the channel or with one
  goroutine. \<open>h\<close> says which goroutine holds which token.
\<close>

definition tokens :: "(fref \<Rightarrow> bool) \<Rightarrow> fref list \<Rightarrow> (tid \<Rightarrow> fref option) \<Rightarrow> bool" where
  "tokens fl ch h \<longleftrightarrow> distinct ch \<and> (\<forall>t f. h t = Some f \<longrightarrow> f \<notin> set ch) \<and>
    (\<forall>t u f. h t = Some f \<longrightarrow> h u = Some f \<longrightarrow> t = u) \<and>
    (\<forall>f. fl f \<longleftrightarrow> f \<in> set ch \<or> (\<exists>t. h t = Some f))"

lemma tokensI:
  assumes "distinct ch" "\<And>t f. h t = Some f \<Longrightarrow> f \<notin> set ch"
    "\<And>t u f. h t = Some f \<Longrightarrow> h u = Some f \<Longrightarrow> t = u"
    "\<And>f. fl f \<longleftrightarrow> f \<in> set ch \<or> (\<exists>t. h t = Some f)"
  shows "tokens fl ch h"
  using assms unfolding tokens_def by blast

lemma tokensD:
  assumes "tokens fl ch h"
  shows "distinct ch" "h t = Some f \<Longrightarrow> f \<notin> set ch" "h t = Some f \<Longrightarrow> h u = Some f \<Longrightarrow> t = u"
    "fl f \<longleftrightarrow> f \<in> set ch \<or> (\<exists>t. h t = Some f)"
  using assms unfolding tokens_def by blast+

lemma tokens_create:
  assumes "tokens fl ch h" "h t = None" "\<not> fl f"
  shows "tokens (fl(f := True)) ch (h(t := Some f))"
proof (rule tokensI)
  show "(fl(f := True)) g \<longleftrightarrow> g \<in> set ch \<or> (\<exists>u. (h(t := Some f)) u = Some g)" for g
    using tokensD [OF assms(1)] assms(2) by (cases "g = f") (auto, metis option.distinct(1))
qed (use tokensD [OF assms(1)] assms(3) in \<open>auto split: if_splits\<close>)

lemma tokens_destroy:
  assumes "tokens fl ch h" "h t = Some f"
  shows "tokens (fl(f := False)) ch (h(t := None))"
proof (rule tokensI)
  show "(fl(f := False)) g \<longleftrightarrow> g \<in> set ch \<or> (\<exists>u. (h(t := None)) u = Some g)" for g
    using tokensD [OF assms(1)] assms(2) by (cases "g = f") (auto, (metis option.inject)+)
qed (use tokensD [OF assms(1)] in \<open>auto split: if_splits\<close>)

lemma tokens_enqueue:
  assumes "tokens fl ch h" "h t = Some f"
  shows "tokens fl (ch @ [f]) (h(t := None))"
proof (rule tokensI)
  show "fl g \<longleftrightarrow> g \<in> set (ch @ [f]) \<or> (\<exists>u. (h(t := None)) u = Some g)" for g
    using tokensD [OF assms(1)] assms(2) by (cases "g = f") (auto, (metis option.inject)+)
qed (use tokensD [OF assms(1)] assms(2) in \<open>auto split: if_splits\<close>)

lemma tokens_dequeue:
  assumes "tokens fl (f # ch) h" "h t = None"
  shows "tokens fl ch (h(t := Some f))"
proof (rule tokensI)
  show "fl g \<longleftrightarrow> g \<in> set ch \<or> (\<exists>u. (h(t := Some f)) u = Some g)" for g
    using tokensD [OF assms(1)] assms(2) by (cases "g = f") (auto, metis option.distinct(1))
qed (use tokensD [OF assms(1)] in \<open>fastforce split: if_splits\<close>)+

definition conc_inv :: "cpool \<Rightarrow> bool" where
  "conc_inv s \<longleftrightarrow> length (chan s) \<le> chan_cap s \<and> tokens (flag s) (chan s) (holds \<circ> pcs s)"

lemma holds_upd: "holds \<circ> (g(t := x)) = (holds \<circ> g)(t := holds x)"
  by (rule ext) simp

lemma conc_inv_start: "conc_start n s \<Longrightarrow> conc_inv s"
  by (simp add: conc_start_def conc_inv_def tokens_def)

lemma conc_inv_step: "conc_step s s' \<Longrightarrow> conc_inv s \<Longrightarrow> conc_inv s'"
proof (induction rule: conc_step.induct)
  case (full s t f)
  then have "(holds \<circ> pcs s)(t := Some f) = holds \<circ> pcs s"
    by (auto simp: fun_eq_iff)
  with full show ?case by (simp add: conc_inv_def holds_upd)
qed (auto simp: conc_inv_def holds_upd intro: tokens_create tokens_destroy tokens_enqueue tokens_dequeue)

lemma conc_step_cap: "conc_step s s' \<Longrightarrow> chan_cap s' = chan_cap s"
  by (induction rule: conc_step.induct) auto

interpretation conc_run: invariant "conc_start n" conc_step "\<lambda>s. conc_inv s \<and> chan_cap s = n" for n
  by unfold_locales (auto simp: conc_inv_start conc_inv_step conc_step_cap, simp add: conc_start_def)

subsection \<open>The atomic operations as runs of the machine\<close>

definition conc_of :: "pool \<Rightarrow> cpool" where
  "conc_of p = \<lparr>flag = (\<lambda>f. queued (mem p f)), chan = ready p, chan_cap = ready_cap p, pcs = (\<lambda>_. Outside)\<rparr>"

lemma conc_of_eqI:
  assumes "\<And>f. queued (mem p f) = fl f" "ready p = ch" "ready_cap p = n"
  shows "\<lparr>flag = fl, chan = ch, chan_cap = n, pcs = (\<lambda>_. Outside)\<rparr> = conc_of p"
  using assms by (auto simp: conc_of_def)

lemma addReady_run: "conc_step\<^sup>*\<^sup>* (conc_of p) (conc_of (addReady f p))"
proof (cases "queued (mem p f)")
  case True
  then show ?thesis by (simp add: addReady_def)
next
  case False
  let ?fl = "\<lambda>g. queued (mem p g)"
  let ?s1 = "\<lparr>flag = ?fl(f := True), chan = ready p, chan_cap = ready_cap p, pcs = (\<lambda>_. Outside)(0 := Sending f)\<rparr>"
  have 1: "conc_step (conc_of p) ?s1"
    using conc_step.add_cas [of "conc_of p" 0 f] False by (simp add: conc_of_def)
  show ?thesis
  proof (cases "length (ready p) < ready_cap p")
    case True
    have "conc_step ?s1 \<lparr>flag = ?fl(f := True), chan = ready p @ [f], chan_cap = ready_cap p, pcs = (\<lambda>_. Outside)\<rparr>"
      using conc_step.send [of ?s1 0 f] True by (simp add: fun_upd_idem)
    also have "\<dots> = conc_of (addReady f p)"
      by (rule conc_of_eqI) (use False True in \<open>simp_all add: addReady_def Let_def pool_simps\<close>)
    finally show ?thesis
      using 1 by (meson converse_rtranclp_into_rtranclp r_into_rtranclp)
  next
    case full: False
    let ?s2 = "?s1\<lparr>pcs := (\<lambda>_. Outside)(0 := Dropping f)\<rparr>"
    have 2: "conc_step ?s1 ?s2"
      using conc_step.full [of ?s1 0 f] full by simp
    have "conc_step ?s2 \<lparr>flag = ?fl(f := False), chan = ready p, chan_cap = ready_cap p, pcs = (\<lambda>_. Outside)\<rparr>"
      using conc_step.drop_front [of ?s2 0 f] by (simp add: fun_upd_idem)
    also have "\<dots> = conc_of (addReady f p)"
      by (rule conc_of_eqI) (use False full in \<open>simp_all add: addReady_def Let_def pool_simps\<close>)
    finally show ?thesis
      using 1 2 by (meson converse_rtranclp_into_rtranclp r_into_rtranclp)
  qed
qed

lemma tryTakeReady_run: "conc_step\<^sup>*\<^sup>* (conc_of p) (conc_of (snd (tryTakeReady p)))"
proof (cases "ready p")
  case Nil
  then show ?thesis by (simp add: tryTakeReady_def)
next
  case (Cons f fs)
  let ?fl = "\<lambda>g. queued (mem p g)"
  let ?s1 = "\<lparr>flag = ?fl, chan = fs, chan_cap = ready_cap p, pcs = (\<lambda>_. Outside)(0 := Received f)\<rparr>"
  have 1: "conc_step (conc_of p) ?s1"
    using conc_step.receive [of "conc_of p" 0 f fs] Cons by (simp add: conc_of_def)
  have "conc_step ?s1 \<lparr>flag = ?fl(f := False), chan = fs, chan_cap = ready_cap p, pcs = (\<lambda>_. Outside)\<rparr>"
    using conc_step.unqueue [of ?s1 0 f] by (simp add: fun_upd_idem)
  also have "\<dots> = conc_of (snd (tryTakeReady p))"
    by (rule conc_of_eqI) (use Cons in \<open>simp_all add: tryTakeReady_def pool_simps\<close>)
  finally show ?thesis
    using 1 by (meson converse_rtranclp_into_rtranclp r_into_rtranclp)
qed

subsection \<open>Closing the pool\<close>

definition closing_inv :: "closing \<Rightarrow> bool" where
  "closing_inv s \<longleftrightarrow> one_closing s \<and> \<not> close_panicked s \<and> (chan_closed s \<longrightarrow> (\<forall>t. closers s t \<noteq> SawOpen))"

lemma closing_inv_own: "close_step s s' \<Longrightarrow> closing_inv s \<Longrightarrow> one_closing s' \<Longrightarrow> closing_inv s'"
proof (induction rule: close_step.induct)
  case (close_it s t)
  then have "u = t" if "closers s u = SawOpen" for u
    using that unfolding closing_inv_def one_closing_def by blast
  then have "closers s u \<noteq> SawOpen" if "u \<noteq> t" for u
    using that by blast
  with close_it show ?case by (simp add: closing_inv_def)
qed (simp_all add: closing_inv_def)

lemma closing_inv_step: "close_alone s s' \<Longrightarrow> closing_inv s \<Longrightarrow> closing_inv s'"
  unfolding close_alone_def using closing_inv_own by blast

interpretation closing_run: invariant "\<lambda>s. s = closing_start" close_alone closing_inv
proof unfold_locales
  show "s = closing_start \<Longrightarrow> closing_inv s" for s
    by (simp add: closing_inv_def one_closing_def)
qed (rule closing_inv_step)

text \<open>Two calls see the channel open, one closes it, and then the other.\<close>

lemma closing_race:
  "close_step\<^sup>*\<^sup>* closing_start \<lparr>chan_closed = True, close_panicked = True,
     closers = (\<lambda>_. NotClosing)(0 := SawOpen, 1 := SawOpen, 0 := CloseDone)\<rparr>"
proof -
  let ?s = "\<lambda>b p g. \<lparr>chan_closed = b, close_panicked = p, closers = g\<rparr>"
  let ?g1 = "(\<lambda>_. NotClosing)(0 := SawOpen)" let ?g2 = "?g1(1 := SawOpen)" let ?g3 = "?g2(0 := CloseDone)"
  have 1: "close_step closing_start (?s False False ?g1)"
    using close_step.see_open [of closing_start 0] by simp
  have 2: "close_step (?s False False ?g1) (?s False False ?g2)"
    using close_step.see_open [of "?s False False ?g1" 1] by simp
  have 3: "close_step (?s False False ?g2) (?s True False ?g3)"
    using close_step.close_it [of "?s False False ?g2" 0] by simp
  have 4: "close_step (?s True False ?g3) (?s True True ?g3)"
    using close_step.close_twice [of "?s True False ?g3" 1] by simp
  from 1 2 3 4 show ?thesis
    by (meson converse_rtranclp_into_rtranclp r_into_rtranclp)
qed

subsection \<open>Properties\<close>

text \<open>
  C35: closing the pool again is harmless only one call at a time: with never two calls of \<open>Close\<close> between the
  look and the close, no run panics, but two such calls can close the channel twice.
\<close>

theorem Close_panics_only_if_concurrent:
  "(\<forall>s. close_alone\<^sup>*\<^sup>* \<lparr>chan_closed = False, close_panicked = False, closers = (\<lambda>_. NotClosing)\<rparr> s \<longrightarrow> \<not> close_panicked s) \<and>
   (\<exists>s. close_step\<^sup>*\<^sup>* \<lparr>chan_closed = False, close_panicked = False, closers = (\<lambda>_. NotClosing)\<rparr> s \<and> close_panicked s)"
proof (intro conjI allI impI)
  fix s assume "close_alone\<^sup>*\<^sup>* \<lparr>chan_closed = False, close_panicked = False, closers = (\<lambda>_. NotClosing)\<rparr> s"
  then show "\<not> close_panicked s"
    using closing_run.inv_reachable by (auto simp: closing_inv_def)
qed (use closing_race in \<open>auto intro!: exI\<close>)

theorem Close_panics_only_if_concurrent_witness: "\<not> close_panicked closing_start"
  using Close_panics_only_if_concurrent by blast

text \<open>
  C5: however the goroutines interleave inside \<open>addReady\<close> and the takes, the channel never holds a
  front twice or exceeds its capacity, and a front's \<open>queued\<close> flag is set exactly when the front is
  in the channel or one goroutine, and only one, is between its two steps for that front; so with no
  goroutine in the middle of an operation, a flag is set exactly for the fronts in the channel.
\<close>

theorem interleaved_queue_exact:
  assumes "conc_step\<^sup>*\<^sup>* \<lparr>flag = (\<lambda>_. False), chan = [], chan_cap = n, pcs = (\<lambda>_. Outside)\<rparr> s"
  shows "distinct (chan s) \<and> length (chan s) \<le> n \<and>
    (\<forall>f. flag s f \<longleftrightarrow> f \<in> set (chan s) \<or> (\<exists>t. holds (pcs s t) = Some f)) \<and>
    (\<forall>t u f. holds (pcs s t) = Some f \<longrightarrow> f \<notin> set (chan s) \<and> (holds (pcs s u) = Some f \<longrightarrow> t = u)) \<and>
    ((\<forall>t. pcs s t = Outside) \<longrightarrow> (\<forall>f. flag s f \<longleftrightarrow> f \<in> set (chan s)))"
proof -
  have "conc_inv s" "chan_cap s = n"
    using conc_run.inv_reachable [of n _ s] assms by (auto simp: conc_start_def)
  then show ?thesis
    by (fastforce simp: conc_inv_def tokens_def)
qed

theorem interleaved_queue_exact_witness:
  "\<exists>s. conc_step\<^sup>*\<^sup>* \<lparr>flag = (\<lambda>_. False), chan = [], chan_cap = 1, pcs = (\<lambda>_. Outside)\<rparr> s \<and>
     holds (pcs s 3) = Some 7 \<and> flag s 7 \<and> 7 \<notin> set (chan s)"
proof -
  let ?from = "\<lparr>flag = (\<lambda>_. False), chan = [], chan_cap = 1, pcs = (\<lambda>_. Outside)\<rparr>"
  let ?to = "?from\<lparr>flag := (flag ?from)(7 := True), pcs := (pcs ?from)(3 := Sending 7)\<rparr>"
  have "conc_step ?from ?to"
    using conc_step.add_cas [of ?from 3 7] by simp
  then have r: "conc_step\<^sup>*\<^sup>* ?from ?to"
    by (rule r_into_rtranclp)
  with interleaved_queue_exact [OF r] show ?thesis
    by (intro exI [of _ ?to]) simp
qed

text \<open>
  C14: the atomic \<open>addReady\<close> and \<open>tryTakeReady\<close> of the pool model are runs of the machine of channel
  and flag steps, so every run of the model's operations on the ready queue is one of the machine's.
\<close>

theorem atomic_queue_operations_are_runs:
  "conc_step\<^sup>*\<^sup>* (conc_of p) (conc_of (addReady f p)) \<and>
   conc_step\<^sup>*\<^sup>* (conc_of p) (conc_of (snd (tryTakeReady p)))"
  using addReady_run tryTakeReady_run by blast

end
