(* ===== verification/Pool_Scan.thy ===== *)
theory Pool_Scan
  imports Pool
begin

text \<open>
  The scans of the ready queue (\<open>front.go\<close>) with other goroutines at work between their channel
  operations. \<open>scanMu\<close> keeps other scans away, not the plain takes, \<open>addReady\<close> and \<open>Replace\<close>:
  \<open>others i\<close> is what they do to the pool before the \<open>i\<close>-th operation of the scan.
\<close>

subsection \<open>The operations\<close>

fun scan_among ::
  "(nat \<Rightarrow> pool \<Rightarrow> pool) \<Rightarrow> (fref \<Rightarrow> string \<Rightarrow> bool) \<Rightarrow> nat \<Rightarrow> nat \<Rightarrow> fref list \<Rightarrow> pool \<Rightarrow>
     fref option \<times> fref list \<times> nat \<times> pool" where
  "scan_among others match 0 i skipped p = (None, skipped, i, p)"
| "scan_among others match (Suc n) i skipped p =
     (case tryTakeReady (others i p) of
        (None, p') \<Rightarrow> (None, skipped, Suc i, p')
      | (Some x, p') \<Rightarrow>
         (if match x (ProviderID (mem p' x)) then (Some x, skipped, Suc i, p')
          else scan_among others match n (Suc i) (skipped @ [x]) p'))"

fun put_back_among :: "(nat \<Rightarrow> pool \<Rightarrow> pool) \<Rightarrow> nat \<Rightarrow> fref list \<Rightarrow> pool \<Rightarrow> pool" where
  "put_back_among others i [] p = p"
| "put_back_among others i (f # fs) p = put_back_among others (Suc i) fs (addReady f (others i p))"

definition TakePreferringUntried_among ::
  "(nat \<Rightarrow> pool \<Rightarrow> pool) \<Rightarrow> nat \<Rightarrow> goerr option \<Rightarrow> string set \<Rightarrow> pool \<Rightarrow> take_result \<times> pool" where
  "TakePreferringUntried_among others pick ctx tried p =
     (case Take pick ctx p of
        (Took first, p1) \<Rightarrow>
          (if ProviderID (mem p1 first) \<notin> tried then (Took first, p1)
           else
             (let p2 = others 0 p1
              in case scan_among others (\<lambda>_ pid. pid \<notin> tried) (min (readyCount p2) maxProviderScan) 1 [first] p2 of
                   (found, skipped, i, p3) \<Rightarrow>
                     (let selected = (case found of Some f \<Rightarrow> f | None \<Rightarrow> first)
                      in (Took selected,
                          put_back_among others i (filter (\<lambda>s. s \<noteq> selected) skipped) p3))))
      | (r, p1) \<Rightarrow> (r, p1))"

definition tryTakeFrom_among ::
  "(nat \<Rightarrow> pool \<Rightarrow> pool) \<Rightarrow> (fref \<Rightarrow> string \<Rightarrow> bool) \<Rightarrow> pool \<Rightarrow> fref option \<times> pool" where
  "tryTakeFrom_among others match p =
     (case scan_among others match (readyCount p) 0 [] p of
        (found, skipped, i, p1) \<Rightarrow> (found, put_back_among others i skipped p1))"

subsection \<open>Alone, they are the atomic operations\<close>

lemma scan_among_alone:
  "scan_among (\<lambda>_. id) m n i acc p = (r, skipped, j, q) \<Longrightarrow>
     scan_queue tryTakeReady (\<lambda>q f. m f (ProviderID (mem q f))) n acc p = (r, skipped, q)"
  by (induction n arbitrary: i acc p) (auto split: prod.splits option.splits if_splits)

lemma put_back_alone: "put_back_among (\<lambda>_. id) i fs p = fold addReady fs p"
  by (induction fs arbitrary: i p) simp_all

subsection \<open>They are runs of single operations\<close>

definition others_pool_runs :: "(nat \<Rightarrow> pool \<Rightarrow> pool) \<Rightarrow> bool" where
  "others_pool_runs others \<longleftrightarrow> (\<forall>i p. pool_runs p (others i p))"

lemma tryTakeReady_below:
  "pool_wf p \<Longrightarrow> tryTakeReady p = (Some x, q) \<Longrightarrow> x < next_ref p"
  by (auto simp: tryTakeReady_def pool_wf_def split: list.splits)

lemma scan_among_run:
  assumes "others_pool_runs others" and "scan_among others m n i acc p = (r, skipped, j, q)"
    and "pool_wf p" and "\<forall>f\<in>set acc. f < next_ref p"
  shows "pool_runs p q \<and> (\<forall>f\<in>set skipped \<union> set_option r. f < next_ref q)"
  using assms(2-4)
proof (induction n arbitrary: i acc p)
  case (Suc n)
  obtain x p' where t: "tryTakeReady (others i p) = (x, p')"
    by fastforce
  have o: "pool_runs p (others i p)"
    using assms(1) by (simp add: others_pool_runs_def)
  with t have p': "pool_runs p p'"
    using pool_step.take_one [of "others i p"] by (metis rtranclp.rtrancl_into_rtrancl snd_conv)
  note keep = pool_runs_keep [OF p']
  have acc: "\<forall>f\<in>set acc. f < next_ref p'"
    using Suc.prems(3) keep by auto
  show ?case
  proof (cases x)
    case None
    with Suc.prems(1) t p' acc show ?thesis by auto
  next
    case (Some f)
    have "pool_wf (others i p)"
      using pool_runs_keep [OF o] Suc.prems(2) by simp
    with t Some have f: "f < next_ref p'"
      using tryTakeReady_below tryTakeReady_fields(4) [of "others i p"] by fastforce
    show ?thesis
    proof (cases "m f (ProviderID (mem p' f))")
      case True
      with Suc.prems(1) t Some p' acc f show ?thesis by auto
    next
      case False
      with Suc.prems(1) t Some have "scan_among others m n (Suc i) (acc @ [f]) p' = (r, skipped, j, q)"
        by simp
      from Suc.IH [OF this] keep acc f Suc.prems(2) p' show ?thesis
        by (auto intro: rtranclp_trans)
    qed
  qed
qed auto

lemma put_back_run:
  assumes "others_pool_runs others"
  shows "\<forall>f\<in>set fs. f < next_ref p \<Longrightarrow> pool_runs p (put_back_among others i fs p)"
proof (induction fs arbitrary: i p)
  case (Cons f fs)
  have o: "pool_runs p (others i p)"
    using assms by (simp add: others_pool_runs_def)
  then have "f < next_ref (others i p)"
    using pool_runs_keep [OF o] Cons.prems by auto
  with o have a: "pool_runs p (addReady f (others i p))"
    using pool_step.add by (metis rtranclp.rtrancl_into_rtrancl)
  have "\<forall>g\<in>set fs. g < next_ref (addReady f (others i p))"
    using pool_runs_keep [OF a] Cons.prems by auto
  from rtranclp_trans [OF a Cons.IH [OF this]] show ?case by simp
qed simp

lemma Take_run: "Take pick ctx p = (r, q) \<Longrightarrow> pool_runs p q"
  by (cases pick ctx p rule: Take_cases) (auto intro: pool_step.take_one)

lemma TakePreferringUntried_among_cases:
  assumes "TakePreferringUntried_among others pick ctx tried p = (r, q)"
  obtains (not_taken) "q = p" "\<forall>f. r \<noteq> Took f"
  | (first) f where "Take pick ctx p = (Took f, q)" "r = Took f"
  | (scanned) f p1 found skipped i p3 sel where "Take pick ctx p = (Took f, p1)"
      "scan_among others (\<lambda>_ pid. pid \<notin> tried) (min (readyCount (others 0 p1)) maxProviderScan) 1 [f] (others 0 p1)
         = (found, skipped, i, p3)"
      "sel = (case found of Some g \<Rightarrow> g | None \<Rightarrow> f)" "r = Took sel"
      "q = put_back_among others i (filter (\<lambda>s. s \<noteq> sel) skipped) p3"
proof (cases pick ctx p rule: Take_cases)
  case (took f fs)
  define p1 where "p1 = snd (tryTakeReady p)"
  have t: "Take pick ctx p = (Took f, p1)"
    by (simp add: took(2) p1_def)
  obtain found skipped i p3 where sc: "scan_among others (\<lambda>_ pid. pid \<notin> tried)
      (min (readyCount (others 0 p1)) maxProviderScan) 1 [f] (others 0 p1) = (found, skipped, i, p3)"
    by (metis prod_cases4)
  show thesis
  proof (cases "ProviderID (mem p1 f) \<notin> tried")
    case True
    with t assms show thesis by (intro first) (auto simp: TakePreferringUntried_among_def)
  next
    case False
    with t assms sc show thesis
      by (intro scanned [OF t sc refl]) (auto simp: TakePreferringUntried_among_def Let_def)
  qed
next
  case (err e)
  with assms show thesis by (intro not_taken) (auto simp: TakePreferringUntried_among_def)
next
  case blocks
  with assms show thesis by (intro not_taken) (auto simp: TakePreferringUntried_among_def)
qed

lemma Take_first:
  assumes "Take pick ctx p = (Took f, p1)" and "pool_wf p"
  shows "pool_wf p1" "f < next_ref p1" "set (ready p) = insert f (set (ready p1))"
  using Take_Took_iff [OF assms(1)] pool_runs_keep [OF Take_run [OF assms(1)]] Take_fields(4) [OF assms(1)] assms(2)
  by (auto simp: pool_wf_def)

text \<open>What is known in the middle of a scan, before the fronts that were passed over are put back.\<close>

lemma scan_in_the_middle:
  assumes o: "others_pool_runs others" and wf: "pool_wf p" and "Take pick ctx p = (Took f, p1)"
    and sc: "scan_among others m n 1 [f] (others 0 p1) = (found, skipped, i, p3)"
  shows "pool_runs p p3" "pool_wf p3" "\<forall>g\<in>set skipped \<union> set_option found. g < next_ref p3" "f < next_ref p3"
proof -
  note first = Take_first [OF assms(3) wf]
  have r2: "pool_runs p1 (others 0 p1)"
    using o by (simp add: others_pool_runs_def)
  have "pool_wf (others 0 p1)" "\<forall>g\<in>set [f]. g < next_ref (others 0 p1)"
    using pool_runs_keep [OF r2] first by auto
  note s = scan_among_run [OF o sc this]
  have r3: "pool_runs p1 p3"
    using r2 s by (auto intro: rtranclp_trans)
  with Take_run [OF assms(3)] show "pool_runs p p3"
    by (rule rtranclp_trans)
  show "pool_wf p3" "f < next_ref p3"
    using pool_runs_keep [OF r3] first by auto
  show "\<forall>g\<in>set skipped \<union> set_option found. g < next_ref p3"
    using s by blast
qed

lemma TakePreferringUntried_among_run:
  assumes o: "others_pool_runs others" and "pool_wf p"
    and "TakePreferringUntried_among others pick ctx tried p = (r, q)"
  shows "pool_runs p q \<and> (\<forall>f. r = Took f \<longrightarrow> f < next_ref q)"
  using assms(3)
proof (cases rule: TakePreferringUntried_among_cases)
  case (first f)
  with Take_run [OF first(1)] Take_first [OF first(1) assms(2)] show ?thesis by simp
next
  case (scanned f p1 found skipped i p3 sel)
  note mid = scan_in_the_middle [OF o assms(2) scanned(1,2)]
  have b: "pool_runs p3 q"
    unfolding scanned(5) by (rule put_back_run [OF o]) (use mid(3) in auto)
  have "sel < next_ref p3"
    using mid by (auto simp: scanned(3) split: option.splits)
  with pool_runs_keep [OF b] mid(1) b scanned(4) show ?thesis
    by (auto intro: rtranclp_trans)
qed auto

lemma tryTakeFrom_among_run:
  assumes o: "others_pool_runs others" and "pool_wf p" and "tryTakeFrom_among others m p = (r, q)"
  shows "pool_runs p q \<and> (\<forall>f. r = Some f \<longrightarrow> f < next_ref q)"
proof -
  obtain skipped i p1 where sc: "scan_among others m (readyCount p) 0 [] p = (r, skipped, i, p1)"
    "q = put_back_among others i skipped p1"
    using assms(3) by (auto simp: tryTakeFrom_among_def split: prod.splits)
  with scan_among_run [OF o sc(1) assms(2)]
  have s: "pool_runs p p1" "\<forall>f\<in>set skipped \<union> set_option r. f < next_ref p1" by auto
  have b: "pool_runs p1 q"
    unfolding sc(2) by (rule put_back_run [OF o]) (use s(2) in auto)
  with s pool_runs_keep [OF b] show ?thesis
    by (auto intro: rtranclp_trans)
qed

subsection \<open>With nobody else at work\<close>

lemma alone_runs: "others_pool_runs (\<lambda>_. id)"
  by (simp add: others_pool_runs_def)

lemma TakePreferringUntried_alone: "TakePreferringUntried_among (\<lambda>_. id) = TakePreferringUntried"
proof (intro ext)
  fix pick ctx tried p
  show "TakePreferringUntried_among (\<lambda>_. id) pick ctx tried p = TakePreferringUntried pick ctx tried p"
    unfolding TakePreferringUntried_among_def TakePreferringUntried_def
    by (auto simp: put_back_alone fold_skip_selected Let_def dest!: scan_among_alone
        split: prod.split take_result.split)
qed

lemma tryTakeFrom_alone: "tryTakeFrom_among (\<lambda>_. id) = tryTakeFrom"
proof (intro ext)
  fix m p
  show "tryTakeFrom_among (\<lambda>_. id) m p = tryTakeFrom m p"
    unfolding tryTakeFrom_among_def tryTakeFrom_def
    by (auto simp: put_back_alone dest!: scan_among_alone split: prod.split)
qed

lemma TakePreferringUntried_run:
  "pool_wf p \<Longrightarrow> TakePreferringUntried pick ctx tried p = (r, q) \<Longrightarrow> pool_runs p q"
  using TakePreferringUntried_among_run [OF alone_runs] by (simp add: TakePreferringUntried_alone)

lemma tryTakeFrom_run: "pool_wf p \<Longrightarrow> tryTakeFrom m p = (r, q) \<Longrightarrow> pool_runs p q"
  using tryTakeFrom_among_run [OF alone_runs] by (simp add: tryTakeFrom_alone)

lemma pool_Return_run: "f < next_ref p \<Longrightarrow> pool_runs p (pool_Return f b p)"
  by (auto simp: pool_Return_def markFailed_eq intro: pool_step.add pool_step.mark)

lemma ReturnSuccess_run: "f < next_ref p \<Longrightarrow> pool_runs p (ReturnSuccess now f p)"
  using pool_step.mark [of p f now] pool_step.add [of f "setLastSucceeded f now p"]
  by (simp add: ReturnSuccess_def markSucceeded_eq pool_simps)

subsection \<open>\<open>Replace\<close> is a run, too\<close>

lemma inherit_all_run: "pool_runs p (inherit_all old fs p)"
proof (induction fs arbitrary: p)
  case (Cons f fs)
  let ?q = "case map_of old (key (mem p f)) of
      Some prev \<Rightarrow> setLastSucceeded f (lastSucceededTime prev p) p | None \<Rightarrow> p"
  have "pool_runs p ?q"
    by (auto intro: pool_step.mark split: option.split)
  then have "pool_runs p (inherit_all old fs ?q)"
    using Cons.IH by (rule rtranclp_trans)
  then show ?case by (simp add: inherit_all_def)
qed (simp add: inherit_all_def)

lemma drain_run: "pool_runs p (drain p)"
proof (induction p rule: drain.induct)
  case (1 p)
  have t: "pool_runs p (snd (tryTakeReady p))"
    by (auto intro: pool_step.take_one)
  show ?case
  proof (cases "tryTakeReady p")
    case (Pair x q)
    then show ?thesis
      using t "1.IH" [of x q] by (cases x) (auto simp: drain.simps [of p] intro: rtranclp_trans)
  qed
qed

lemma Replace_run:
  assumes "distinct fs" and "\<forall>f\<in>set fs. f < next_ref p"
  shows "pool_runs p (Replace fs p)"
proof -
  let ?q = "inherit_all (fold (\<lambda>f m. AList.update (key (mem p f)) f m) (fronts p) []) fs p"
  have q: "pool_runs p ?q"
    by (rule inherit_all_run)
  then have "next_ref p \<le> next_ref ?q"
    using pool_runs_keep by blast
  with assms have "pool_step ?q (?q\<lparr>fronts := fs\<rparr>)"
    by (intro pool_step.install) auto
  with q have "pool_runs p (?q\<lparr>fronts := fs\<rparr>)"
    by (rule rtranclp.rtrancl_into_rtrancl)
  with drain_run show ?thesis
    unfolding Replace_eq by (blast intro: rtranclp_trans)
qed

subsection \<open>What a scan puts back\<close>

text \<open>With room for every front there is, \<open>addReady\<close> always queues.\<close>

lemma addReady_with_room:
  assumes "pool_wf p" and "f < next_ref p" and "next_ref p \<le> ready_cap p"
  shows "f \<in> set (ready (addReady f p))"
proof (cases "ready_cap p \<le> length (ready p)")
  case True
  have "distinct (ready p)" "set (ready p) \<subseteq> {..<next_ref p}"
    using assms(1) by (auto simp: pool_wf_def pool_ok_def)
  moreover from this(1) have "next_ref p \<le> card (set (ready p))"
    using True assms(3) by (simp add: distinct_card)
  ultimately have "set (ready p) = {..<next_ref p}"
    by (intro card_seteq) auto
  with assms show ?thesis
    by (auto simp: addReady_ready pool_wf_def)
next
  case False
  with assms(1) show ?thesis by (auto simp: addReady_ready pool_wf_def)
qed

lemma addReady_keeps: "pool_wf p \<Longrightarrow> set (ready p) \<subseteq> set (ready (addReady f p))"
  by (auto simp: addReady_ready pool_wf_def)

definition others_never_take :: "(nat \<Rightarrow> pool \<Rightarrow> pool) \<Rightarrow> bool" where
  "others_never_take others \<longleftrightarrow> (\<forall>i p. set (ready p) \<subseteq> set (ready (others i p)))"

lemma scan_among_keeps:
  assumes "others_never_take others" and "scan_among others m n i acc p = (r, skipped, j, q)"
  shows "set acc \<union> set (ready p) \<subseteq> set skipped \<union> set_option r \<union> set (ready q)"
  using assms(2)
proof (induction n arbitrary: i acc p)
  case (Suc n)
  have o: "set (ready p) \<subseteq> set (ready (others i p))"
    using assms(1) by (simp add: others_never_take_def)
  show ?case
  proof (cases "ready (others i p)")
    case Nil
    with Suc.prems o show ?thesis by (auto simp: tryTakeReady_def)
  next
    case (Cons x xs)
    define p' where "p' = snd (tryTakeReady (others i p))"
    have t: "tryTakeReady (others i p) = (Some x, p')" "ready p' = xs"
      by (simp_all add: p'_def tryTakeReady_Cons [OF Cons] pool_simps)
    show ?thesis
    proof (cases "m x (ProviderID (mem p' x))")
      case True
      with Suc.prems t o Cons show ?thesis by auto
    next
      case False
      with Suc.prems t(1) have "scan_among others m n (Suc i) (acc @ [x]) p' = (r, skipped, j, q)"
        by simp
      from Suc.IH [OF this] o Cons t(2) show ?thesis by auto
    qed
  qed
qed auto

lemma put_back_keeps:
  assumes "others_pool_runs others" and "others_never_take others"
  shows "pool_wf p \<Longrightarrow> \<forall>f\<in>set fs. f < next_ref p \<Longrightarrow> next_ref (put_back_among others i fs p) \<le> ready_cap p \<Longrightarrow>
     set fs \<union> set (ready p) \<subseteq> set (ready (put_back_among others i fs p))"
proof (induction fs arbitrary: i p)
  case (Cons f fs)
  let ?o = "others i p" let ?p' = "addReady f (others i p)"
  have o: "pool_runs p ?o" "set (ready p) \<subseteq> set (ready ?o)"
    using assms by (auto simp: others_pool_runs_def others_never_take_def)
  note ko = pool_runs_keep [OF o(1)]
  have wf: "pool_wf ?o" "f < next_ref ?o"
    using ko Cons.prems by auto
  note wf' = addReady_wf [OF wf]
  have below: "\<forall>g\<in>set fs. g < next_ref ?p'"
    using ko Cons.prems(2) by (auto simp: pool_simps)
  have "next_ref ?p' \<le> next_ref (put_back_among others (Suc i) fs ?p')"
    using pool_runs_keep [OF put_back_run [OF assms(1) below]] by simp
  then have room: "next_ref (put_back_among others (Suc i) fs ?p') \<le> ready_cap ?p'" "next_ref ?o \<le> ready_cap ?o"
    using Cons.prems(3) ko by (auto simp: pool_simps)
  show ?case
    using Cons.IH [OF wf' below room(1)] addReady_with_room [OF wf room(2)] addReady_keeps [OF wf(1), of f] o(2)
    by auto
qed simp

lemma TakePreferringUntried_among_keeps:
  assumes o: "others_pool_runs others" "others_never_take others" and wf: "pool_wf p"
    and "TakePreferringUntried_among others pick ctx tried p = (Took f, q)" and "next_ref q \<le> ready_cap q"
  shows "set (ready p) \<subseteq> insert f (set (ready q))"
  using assms(4)
proof (cases rule: TakePreferringUntried_among_cases)
  case (first g)
  with Take_first(3) [OF first(1) wf] show ?thesis by simp
next
  case (scanned g p1 found skipped i p3 sel)
  note mid = scan_in_the_middle [OF o(1) wf scanned(1,2)] and keeps = scan_among_keeps [OF o(2) scanned(2)]
  let ?kept = "filter (\<lambda>s. s \<noteq> sel) skipped"
  have below: "\<forall>g\<in>set ?kept. g < next_ref p3"
    using mid(3) by auto
  have "set ?kept \<union> set (ready p3) \<subseteq> set (ready q)"
    unfolding scanned(5)
    using assms(5) pool_runs_keep [OF put_back_run [OF o(1) below]]
    by (intro put_back_keeps [OF o mid(2) below]) (simp add: scanned(5))
  moreover have "set (ready p1) \<subseteq> set (ready (others 0 p1))"
    using o(2) by (simp add: others_never_take_def)
  ultimately show ?thesis
    using keeps Take_first(3) [OF scanned(1) wf] scanned(3,4) by (auto split: option.splits)
qed simp

subsection \<open>Properties\<close>

text \<open>
  C13: \<open>TakePreferringUntried\<close> with any operations of other goroutines between its own is a run of
  single operations, and with none it is the atomic one. While the others take nothing, and with room in
  the queue for every front there is, it puts back every front it passed over: all ready fronts but
  the one it returns are still ready.
\<close>

theorem interleaved_scan:
  assumes "\<forall>i p. pool_runs p (others i p)" and "pool_wf p"
    and "TakePreferringUntried_among others pick ctx tried p = (r, q)"
  shows "pool_runs p q \<and> (others = (\<lambda>_. id) \<longrightarrow> TakePreferringUntried pick ctx tried p = (r, q)) \<and>
    (case r of
       Took f \<Rightarrow> f < next_ref q \<and>
         ((\<forall>i p. set (ready p) \<subseteq> set (ready (others i p))) \<longrightarrow> next_ref q \<le> ready_cap q \<longrightarrow>
            set (ready p) \<subseteq> insert f (set (ready q)))
     | _ \<Rightarrow> q = p)"
proof -
  have o: "others_pool_runs others"
    using assms(1) by (simp add: others_pool_runs_def)
  have "q = p" if "\<And>f. r \<noteq> Took f"
    using assms(3) that by (cases rule: TakePreferringUntried_among_cases) auto
  with TakePreferringUntried_among_run [OF o assms(2,3)]
    TakePreferringUntried_among_keeps [OF o _ assms(2)] assms(3) show ?thesis
    by (cases r) (auto simp: others_never_take_def TakePreferringUntried_alone)
qed

lemma sample_pool_wf: "pool_wf sample_pool"
  by (simp add: pool_wf_def sample_pool_ok sample_pool_fields) (simp add: sample_pool_def)

theorem interleaved_scan_witness:
  "\<exists>q. TakePreferringUntried_among (\<lambda>_. id) 0 None {''a''} sample_pool = (Took 2, q) \<and> {0, 1} \<subseteq> set (ready q)"
proof -
  have 0: "\<forall>i p. pool_runs p ((\<lambda>_. id) i p)" by simp
  obtain r q where r: "TakePreferringUntried_among (\<lambda>_. id) 0 None {''a''} sample_pool = (r, q)"
    by fastforce
  note i = interleaved_scan [OF 0 sample_pool_wf r]
  have f: "TakePreferringUntried 0 None {''a''} sample_pool = (r, q)"
    using i by simp
  have "preferred {''a''} sample_pool = 2"
    by (simp add: preferred_def sample_pool_fields maxProviderScan_def)
  with TakePreferringUntried_took [OF sample_pool_ok, of 0 None "{''a''}"]
    TakePreferringUntried_not_taken [OF f] f have "r = Took 2"
    by (cases r) (auto simp: sample_pool_fields)
  moreover have "next_ref q \<le> ready_cap q"
    using TakePreferringUntried_fields(2,4) [OF f] by (simp add: sample_pool_def newFrontPool_def)
  ultimately show ?thesis
    using i r by (auto simp: sample_pool_fields)
qed

text \<open>
  Without that room a front is lost: in a queue for two fronts, both of a tried provider, the scan holds
  both, two other fronts fill the queue, and the one that was passed over is dropped, though no one
  took it; the comment of \<open>TakePreferringUntried\<close> says that every front it pulls and does not select
  is returned to the queue.
\<close>

definition small_pool :: pool where
  "small_pool =
     (newFrontPool 2)\<lparr>mem := (\<lambda>f. (newFront sample_masquerade ''a'')\<lparr>queued := f < 2\<rparr>), next_ref := 4,
       fronts := [0, 1, 2, 3], ready := [0, 1]\<rparr>"

definition fill_up :: "nat \<Rightarrow> pool \<Rightarrow> pool" where
  "fill_up i p = (if i = 2 \<and> 3 < next_ref p then addReady 3 (addReady 2 p) else p)"

lemma fill_up_runs: "pool_runs p (fill_up i p)"
  using pool_step.add [of 2 p] pool_step.add [of 3 "addReady 2 p"]
  by (auto simp: fill_up_def pool_simps)

theorem full_queue_loses_a_front:
  "pool_wf small_pool \<and> (\<forall>i p. pool_runs p (fill_up i p)) \<and>
   (\<exists>q. TakePreferringUntried_among fill_up 0 None {''a''} small_pool = (Took 0, q) \<and>
     ready small_pool = [0, 1] \<and> ready q = [2, 3])"
proof -
  have "pool_wf small_pool"
    by (auto simp: pool_wf_def pool_ok_def small_pool_def newFrontPool_def newFront_def)
  moreover have "fst (TakePreferringUntried_among fill_up 0 None {''a''} small_pool) = Took 0"
    "ready (snd (TakePreferringUntried_among fill_up 0 None {''a''} small_pool)) = [2, 3]"
    by code_simp+
  moreover have "ready small_pool = [0, 1]"
    by (simp add: small_pool_def)
  ultimately show ?thesis
    using fill_up_runs by (metis prod.collapse)
qed

end
