(* ===== verification/Gate.thy ===== *)
theory Gate
  imports Prelude
begin

text \<open>
  The pause gate (\<open>pause.go\<close>): channels are numbers, a closed channel is a member of \<open>closed_chans\<close>,
  and closing a closed channel panics.
  \<open>pause\<close>, \<open>resume\<close> and \<open>isPaused\<close> run under the gate's mutex, so each is one step; \<open>wait\<close> is a
  waiter that checks the context, looks at the gate, sleeps on the channel it saw, and starts again,
  interleaved with everything.
\<close>

subsection \<open>The gate\<close>

type_synonym chan_id = nat

record pauseGate =
  resumed :: chan_id
  closed_chans :: "chan_id set"
  next_chan :: chan_id

definition close_chan :: "chan_id \<Rightarrow> pauseGate \<Rightarrow> pauseGate res" where
  "close_chan c g =
     (if c \<in> closed_chans g then Inl Panicked else Inr (g\<lparr>closed_chans := insert c (closed_chans g)\<rparr>))"

definition newPauseGate :: pauseGate where
  "newPauseGate = \<lparr>resumed = 0, closed_chans = {0}, next_chan = 1\<rparr>"

definition pause :: "pauseGate \<Rightarrow> pauseGate" where
  "pause g =
     (if resumed g \<in> closed_chans g then g\<lparr>resumed := next_chan g, next_chan := Suc (next_chan g)\<rparr> else g)"

definition resume :: "pauseGate \<Rightarrow> pauseGate res" where
  "resume g = (if resumed g \<in> closed_chans g then Inr g else close_chan (resumed g) g)"

definition isPaused :: "pauseGate \<Rightarrow> bool" where
  "isPaused g \<longleftrightarrow> resumed g \<notin> closed_chans g"

subsection \<open>Waiters\<close>

text \<open>
  A call of \<open>wait\<close>: before its check of the context, between that check and the look at the gate,
  asleep on the channel it saw, or returned. \<open>ended\<close> says whether the context has ended.
\<close>

datatype waiter = Checking | Checked | Sleeping chan_id | Finished bool

inductive waiter_step :: "pauseGate \<Rightarrow> bool \<Rightarrow> waiter \<Rightarrow> waiter \<Rightarrow> bool" where
  ctx_ended: "ended \<Longrightarrow> waiter_step g ended Checking (Finished False)"
| ctx_alive: "\<not> ended \<Longrightarrow> waiter_step g ended Checking Checked"
| running: "resumed g \<in> closed_chans g \<Longrightarrow> waiter_step g ended Checked (Finished True)"
| paused: "resumed g \<notin> closed_chans g \<Longrightarrow> waiter_step g ended Checked (Sleeping (resumed g))"
| wake: "c \<in> closed_chans g \<Longrightarrow> waiter_step g ended (Sleeping c) Checking"
| sleep_ended: "ended \<Longrightarrow> waiter_step g ended (Sleeping c) (Finished False)"

inductive_cases waiter_stepE: "waiter_step g ended w v"

inductive_simps waiter_step_simps:
  "waiter_step g ended Checking v" "waiter_step g ended Checked v" "waiter_step g ended (Sleeping c) v"
  "waiter_step g ended (Finished b) v"

record gate_sys =
  gate :: pauseGate
  ctx_done :: bool
  waiters :: "nat \<Rightarrow> waiter"

inductive gate_step :: "gate_sys \<Rightarrow> gate_sys \<Rightarrow> bool" where
  pausing: "gate_step s (s\<lparr>gate := pause (gate s)\<rparr>)"
| resuming: "resume (gate s) = Inr g \<Longrightarrow> gate_step s (s\<lparr>gate := g\<rparr>)"
| cancel: "gate_step s (s\<lparr>ctx_done := True\<rparr>)"
| waiting: "waiter_step (gate s) (ctx_done s) (waiters s w) v \<Longrightarrow>
    gate_step s (s\<lparr>waiters := (waiters s)(w := v)\<rparr>)"
| call: "waiters s w = Finished b \<Longrightarrow> gate_step s (s\<lparr>waiters := (waiters s)(w := Checking)\<rparr>)"

definition gate_start :: "gate_sys \<Rightarrow> bool" where
  "gate_start s \<longleftrightarrow> gate s = newPauseGate \<and> (\<forall>w. waiters s w = Checking)"

subsection \<open>The invariant\<close>

text \<open>Only the current channel can be open, channels to come are open, and sleepers sleep on past ones.\<close>

definition gate_wf :: "pauseGate \<Rightarrow> bool" where
  "gate_wf g \<longleftrightarrow> resumed g < next_chan g \<and> (\<forall>c\<in>closed_chans g. c < next_chan g) \<and>
     (\<forall>c<next_chan g. c \<noteq> resumed g \<longrightarrow> c \<in> closed_chans g)"

definition gate_inv :: "gate_sys \<Rightarrow> bool" where
  "gate_inv s \<longleftrightarrow> gate_wf (gate s) \<and> (\<forall>w c. waiters s w = Sleeping c \<longrightarrow> c < next_chan (gate s)) \<and>
     (\<forall>w. waiters s w = Finished False \<longrightarrow> ctx_done s)"

lemma newPauseGate_wf: "gate_wf newPauseGate" "\<not> isPaused newPauseGate"
  by (simp_all add: gate_wf_def newPauseGate_def isPaused_def)

lemma pause_wf: "gate_wf g \<Longrightarrow> gate_wf (pause g) \<and> isPaused (pause g) \<and> next_chan g \<le> next_chan (pause g)"
  by (auto simp: gate_wf_def pause_def isPaused_def less_Suc_eq)

lemma resume_eq:
  "resume g = Inr (if isPaused g then g\<lparr>closed_chans := insert (resumed g) (closed_chans g)\<rparr> else g)"
  by (simp add: resume_def close_chan_def isPaused_def)

lemma resume_wf:
  "gate_wf g \<Longrightarrow> resume g = Inr g' \<Longrightarrow> gate_wf g' \<and> \<not> isPaused g' \<and> next_chan g' = next_chan g"
  by (auto simp: resume_eq gate_wf_def isPaused_def)

lemma gate_inv_start: "gate_start s \<Longrightarrow> gate_inv s"
  by (simp add: gate_start_def gate_inv_def newPauseGate_wf)

lemma gate_inv_step: "gate_step s t \<Longrightarrow> gate_inv s \<Longrightarrow> gate_inv t"
proof (induction rule: gate_step.induct)
  case (pausing s)
  then show ?case
    using pause_wf [of "gate s"] by (auto simp: gate_inv_def intro: less_le_trans)
next
  case (resuming s g)
  then show ?case
    using resume_wf [of "gate s" g] by (auto simp: gate_inv_def)
next
  case (waiting s w v)
  then show ?case
    by (auto simp: gate_inv_def gate_wf_def elim!: waiter_stepE)
qed (auto simp: gate_inv_def gate_wf_def)

interpretation gate_run: invariant gate_start gate_step gate_inv
  by unfold_locales (auto intro: gate_inv_start gate_inv_step)

subsection \<open>Calls of the gate and their specification\<close>

datatype gate_call = CallPause | CallResume

fun gate_calls :: "gate_call list \<Rightarrow> pauseGate \<Rightarrow> pauseGate res" where
  "gate_calls [] g = Inr g"
| "gate_calls (CallPause # cs) g = gate_calls cs (pause g)"
| "gate_calls (CallResume # cs) g = (case resume g of Inl e \<Rightarrow> Inl e | Inr g' \<Rightarrow> gate_calls cs g')"

text \<open>The gate as its users see it: one bit, set by \<open>Pause\<close> and cleared by \<open>Resume\<close>.\<close>

fun paused_after :: "gate_call list \<Rightarrow> bool \<Rightarrow> bool" where
  "paused_after [] b = b"
| "paused_after (CallPause # cs) b = paused_after cs True"
| "paused_after (CallResume # cs) b = paused_after cs False"

lemma gate_calls_refine:
  "gate_wf g \<Longrightarrow> \<exists>g'. gate_calls cs g = Inr g' \<and> gate_wf g' \<and> isPaused g' = paused_after cs (isPaused g)"
proof (induction cs arbitrary: g)
  case (Cons c cs)
  show ?case
  proof (cases c)
    case CallPause
    with Cons.IH [of "pause g"] pause_wf [OF Cons.prems] show ?thesis by simp
  next
    case CallResume
    obtain g' where g': "resume g = Inr g'" by (simp add: resume_eq)
    with CallResume Cons.IH [of g'] resume_wf [OF Cons.prems g'] show ?thesis by simp
  qed
qed simp

text \<open>A call of \<open>wait\<close> that is not paused any more, or whose context has ended, ends in at most three steps.\<close>

lemma wait_ends:
  assumes "\<not> isPaused g \<or> ended" and "\<forall>c. w = Sleeping c \<longrightarrow> c \<in> closed_chans g \<or> ended" and "\<forall>b. w \<noteq> Finished b"
    and "w = Checked \<longrightarrow> \<not> isPaused g"
  shows "\<exists>b. (waiter_step g ended)\<^sup>*\<^sup>* w (Finished b)"
proof -
  have fresh: "\<exists>b. (waiter_step g ended)\<^sup>*\<^sup>* Checking (Finished b)"
  proof (cases ended)
    case True
    then show ?thesis using waiter_step.ctx_ended by blast
  next
    case False
    with assms(1) waiter_step.ctx_alive waiter_step.running show ?thesis
      by (metis isPaused_def converse_rtranclp_into_rtranclp r_into_rtranclp)
  qed
  show ?thesis
  proof (cases w)
    case Checked
    with assms(4) waiter_step.running show ?thesis by (auto simp: isPaused_def)
  next
    case (Sleeping c)
    with assms(2) fresh waiter_step.wake waiter_step.sleep_ended show ?thesis
      by (metis converse_rtranclp_into_rtranclp r_into_rtranclp)
  qed (use fresh assms(3) in auto)
qed

subsection \<open>Properties\<close>

text \<open>
  Any sequence of \<open>pause\<close> and \<open>resume\<close> calls on a new gate runs without closing a channel twice
  (which would panic), and leaves the gate paused exactly when the last call was \<open>pause\<close>: calls do not
  nest, and one \<open>resume\<close> undoes any number of \<open>pause\<close>s.
\<close>

theorem gate_is_a_bit:
  "\<exists>g. gate_calls cs newPauseGate = Inr g \<and> isPaused g = paused_after cs False"
  using gate_calls_refine [OF newPauseGate_wf(1), of cs] newPauseGate_wf(2) by auto

text \<open>
  C19: no wake-up is lost: in every reachable state of a gate with any number of waiters, if the gate is
  running then each call of \<open>wait\<close> that has not returned does so in a few steps of its own, and if the
  context has ended then each sleeping one can return at once; so a waiter is stuck only while the
  gate is paused with the context alive. A waiter has returned \<open>false\<close> only if the context has ended,
  and the step that lets one through is taken with the gate running.
\<close>

theorem no_lost_wakeup:
  assumes "gate_start s\<^sub>0" and "gate_step\<^sup>*\<^sup>* s\<^sub>0 s"
  shows "(\<forall>w. \<not> isPaused (gate s) \<longrightarrow> (\<exists>b. (waiter_step (gate s) (ctx_done s))\<^sup>*\<^sup>* (waiters s w) (Finished b))) \<and>
    (\<forall>w c. waiters s w = Sleeping c \<longrightarrow> ctx_done s \<longrightarrow> waiter_step (gate s) (ctx_done s) (Sleeping c) (Finished False)) \<and>
    (\<forall>w. waiters s w = Finished False \<longrightarrow> ctx_done s) \<and>
    (\<forall>w. waiter_step (gate s) (ctx_done s) w (Finished True) \<longrightarrow> \<not> isPaused (gate s))"
proof -
  have inv: "gate_inv s"
    using gate_run.inv_reachable assms by blast
  have c: "c \<in> closed_chans (gate s)" if "waiters s w = Sleeping c" "\<not> isPaused (gate s)" for w c
    using inv that by (auto simp: gate_inv_def gate_wf_def isPaused_def)
  have "\<exists>b. (waiter_step (gate s) (ctx_done s))\<^sup>*\<^sup>* (waiters s w) (Finished b)" if r: "\<not> isPaused (gate s)" for w
  proof (cases "\<exists>b. waiters s w = Finished b")
    case False
    with c [OF _ r] r show ?thesis by (intro wait_ends) auto
  qed auto
  then show ?thesis
    using inv by (auto simp: gate_inv_def isPaused_def intro: waiter_step.sleep_ended elim!: waiter_stepE)
qed

definition sample_gate_sys :: gate_sys where
  "sample_gate_sys = \<lparr>gate = newPauseGate, ctx_done = False, waiters = (\<lambda>_. Checking)\<rparr>"

theorem no_lost_wakeup_witness:
  "\<exists>s. gate_step\<^sup>*\<^sup>* sample_gate_sys s \<and> waiters s 0 = Sleeping 1 \<and>
     (\<exists>b. (waiter_step (gate s) (ctx_done s))\<^sup>*\<^sup>* (Sleeping 1) (Finished b))"
proof -
  define s1 where "s1 = sample_gate_sys\<lparr>gate := pause newPauseGate\<rparr>"
  define s2 where "s2 = s1\<lparr>waiters := (waiters s1)(0 := Checked)\<rparr>"
  define s3 where "s3 = s2\<lparr>waiters := (waiters s2)(0 := Sleeping 1)\<rparr>"
  define s4 where "s4 = s3\<lparr>gate := projr (resume (gate s3))\<rparr>"
  have 1: "gate_step sample_gate_sys s1"
    using gate_step.pausing [of sample_gate_sys] by (simp add: s1_def sample_gate_sys_def)
  have 2: "gate_step s1 s2"
    unfolding s2_def by (rule gate_step.waiting) (simp add: s1_def sample_gate_sys_def waiter_step.ctx_alive)
  have "waiter_step (gate s2) (ctx_done s2) Checked (Sleeping (resumed (gate s2)))"
    by (rule waiter_step.paused) (simp add: s2_def s1_def pause_def newPauseGate_def)
  then have "waiter_step (gate s2) (ctx_done s2) (waiters s2 0) (Sleeping 1)"
    by (simp add: s2_def s1_def pause_def newPauseGate_def)
  then have 3: "gate_step s2 s3"
    unfolding s3_def by (rule gate_step.waiting)
  have 4: "gate_step s3 s4"
    unfolding s4_def by (rule gate_step.resuming) (simp add: resume_eq)
  have r: "gate_step\<^sup>*\<^sup>* sample_gate_sys s4"
    using 1 2 3 4 by (meson converse_rtranclp_into_rtranclp r_into_rtranclp)
  have f: "waiters s4 0 = Sleeping 1" "\<not> isPaused (gate s4)"
    by (simp_all add: s4_def s3_def s2_def s1_def sample_gate_sys_def resume_eq pause_def newPauseGate_def isPaused_def)
  have "gate_start sample_gate_sys"
    by (simp add: gate_start_def sample_gate_sys_def)
  with no_lost_wakeup [OF _ r] r f show ?thesis by metis
qed

end
