(* ===== verification/Cache.thy ===== *)
theory Cache
  imports Pool
begin

text \<open>
  The front cache (\<open>cache.go\<close>) and the file helpers under it (\<open>fileutil.go\<close>).
  The disk is a map from paths to contents; how a single access to it fails is an argument.
  Parameters: \<open>json_Marshal\<close> and \<open>json_Unmarshal\<close> of package \<open>encoding/json\<close> for the cached fronts.
  A JSON \<open>null\<close> in the cache file decodes to a nil \<open>*CachedFront\<close>, so loaded entries are options.
\<close>

subsection \<open>Files\<close>

type_synonym disk = "string \<Rightarrow> string option"

text \<open>\<open>read_err\<close> is an error of \<open>os.ReadFile\<close> other than the file not existing.\<close>

definition readFile :: "goerr option \<Rightarrow> string \<Rightarrow> disk \<Rightarrow> goerr + string" where
  "readFile read_err path d =
     (case read_err of
        Some e \<Rightarrow> Inl e
      | None \<Rightarrow> (case d path of None \<Rightarrow> Inr '''' | Some data \<Rightarrow> Inr data))"

text \<open>A failing \<open>os.WriteFile\<close> leaves some content behind (a torn write) or none.\<close>

datatype write_outcome = WriteOk | MkdirFails goerr | WriteFails goerr "string option"

definition writeFile :: "write_outcome \<Rightarrow> string \<Rightarrow> string \<Rightarrow> disk \<Rightarrow> goerr option \<times> disk" where
  "writeFile out path data d =
     (case out of
        MkdirFails e \<Rightarrow> (Some e, d)
      | WriteFails e torn \<Rightarrow> (Some e, d(path := torn))
      | WriteOk \<Rightarrow> (None, d(path \<mapsto> data)))"

subsection \<open>Cached fronts\<close>

record cachedFront =
  cf_Domain :: string
  cf_IpAddress :: string
  cf_SNI :: string
  cf_VerifyHostname :: "string option"
  cf_LastSucceeded :: gotime
  cf_ProviderID :: string

definition FileCache_Load ::
  "(string \<Rightarrow> goerr + cachedFront option list) \<Rightarrow> goerr option \<Rightarrow> string \<Rightarrow> disk \<Rightarrow>
     goerr + cachedFront option list" where
  "FileCache_Load json_Unmarshal read_err path d =
     (case readFile read_err path d of
        Inl e \<Rightarrow> Inl e
      | Inr data \<Rightarrow> (if length data = 0 then Inr [] else json_Unmarshal data))"

definition FileCache_Save ::
  "(cachedFront list \<Rightarrow> goerr + string) \<Rightarrow> write_outcome \<Rightarrow> string \<Rightarrow> cachedFront list \<Rightarrow> disk \<Rightarrow>
     goerr option \<times> disk" where
  "FileCache_Save json_Marshal out path cached d =
     (case json_Marshal cached of
        Inl e \<Rightarrow> (Some e, d)
      | Inr data \<Rightarrow> writeFile out path data d)"

text \<open>
  The \<open>Cache\<close> interface: where a client keeps its fronts, nowhere, a file, or an implementation of the
  caller's own, which is what its \<open>Load\<close> returns and what its \<open>Save\<close> answers.
\<close>

datatype cache =
    NopCache
  | FileCache string
  | UserCache "goerr + cachedFront option list" "cachedFront list \<Rightarrow> goerr option"

definition cache_Load ::
  "(string \<Rightarrow> goerr + cachedFront option list) \<Rightarrow> goerr option \<Rightarrow> cache \<Rightarrow> disk \<Rightarrow>
     goerr + cachedFront option list" where
  "cache_Load json_Unmarshal read_err c d =
     (case c of
        NopCache \<Rightarrow> Inr []
      | FileCache path \<Rightarrow> FileCache_Load json_Unmarshal read_err path d
      | UserCache loaded save \<Rightarrow> loaded)"

definition cache_Save ::
  "(cachedFront list \<Rightarrow> goerr + string) \<Rightarrow> write_outcome \<Rightarrow> cache \<Rightarrow> cachedFront list \<Rightarrow> disk \<Rightarrow>
     goerr option \<times> disk" where
  "cache_Save json_Marshal out c cached d =
     (case c of
        NopCache \<Rightarrow> (None, d)
      | FileCache path \<Rightarrow> FileCache_Save json_Marshal out path cached d
      | UserCache loaded save \<Rightarrow> (save cached, d))"

definition cache_entry :: "pool \<Rightarrow> fref \<Rightarrow> cachedFront" where
  "cache_entry p f =
     \<lparr>cf_Domain = Domain (mem p f), cf_IpAddress = IpAddress (mem p f), cf_SNI = SNI (mem p f),
      cf_VerifyHostname = VerifyHostname (mem p f), cf_LastSucceeded = lastSucceededTime f p,
      cf_ProviderID = ProviderID (mem p f)\<rparr>"

fun frontsToCache_from ::
  "nat \<Rightarrow> pool \<Rightarrow> fref list \<Rightarrow> cachedFront list \<Rightarrow> cachedFront list" where
  "frontsToCache_from maxSize p [] cached = cached"
| "frontsToCache_from maxSize p (f # fs) cached =
     (if lastSucceededTime f p = zero_time then frontsToCache_from maxSize p fs cached
      else if length cached \<ge> maxSize then cached
      else frontsToCache_from maxSize p fs (cached @ [cache_entry p f]))"

definition frontsToCache :: "fref list \<Rightarrow> nat \<Rightarrow> pool \<Rightarrow> cachedFront list" where
  "frontsToCache fs maxSize p = frontsToCache_from maxSize p fs []"

definition cached_key :: "cachedFront \<Rightarrow> front_key" where
  "cached_key cf = (cf_ProviderID cf, cf_Domain cf, cf_IpAddress cf)"

definition applyCachedState ::
  "gotime \<Rightarrow> fref list \<Rightarrow> cachedFront option list \<Rightarrow> int \<Rightarrow> pool \<Rightarrow> pool res" where
  "applyCachedState now fs cached maxAge p =
     (if None \<in> set cached then Inl Panicked
      else
        let lookup = fold (\<lambda>cf m. AList.update (cached_key cf) cf m) (map the cached) []
        in Inr (fold (\<lambda>f q. case map_of lookup (key (mem q f)) of
               Some cf \<Rightarrow> (if time_Sub now (cf_LastSucceeded cf) < maxAge
                           then setLastSucceeded f (cf_LastSucceeded cf) q else q)
             | None \<Rightarrow> q) fs p))"

subsection \<open>What is cached and what is restored\<close>

lemma frontsToCache_from_eq:
  "frontsToCache_from n p fs cached =
     cached @ map (cache_entry p) (take (n - length cached) (filter (\<lambda>f. isSucceeding f p) fs))"
  by (induction n p fs cached rule: frontsToCache_from.induct)
    (auto simp: isSucceeding_def lastSucceededTime_def Suc_diff_le take_Cons')

lemma frontsToCache_eq:
  "frontsToCache fs n p = map (cache_entry p) (take n (filter (\<lambda>f. isSucceeding f p) fs))"
  by (simp add: frontsToCache_def frontsToCache_from_eq)

definition cached_for :: "cachedFront list \<Rightarrow> front_key \<Rightarrow> cachedFront option" where
  "cached_for cached k = find (\<lambda>cf. cached_key cf = k) (rev cached)"

lemma lookup_cached_for:
  "map_of (fold (\<lambda>cf m. AList.update (cached_key cf) cf m) cached []) k = cached_for cached k"
  using map_of_fold_update [of cached_key "\<lambda>cf. cf" cached "[]"]
  by (simp add: cached_for_def rev_map map_of_find)

definition restored :: "gotime \<Rightarrow> int \<Rightarrow> cachedFront list \<Rightarrow> front \<Rightarrow> gotime" where
  "restored now maxAge cached fr =
     (case cached_for cached (key fr) of
        Some cf \<Rightarrow> if time_Sub now (cf_LastSucceeded cf) < maxAge then cf_LastSucceeded cf else LastSucceeded fr
      | None \<Rightarrow> LastSucceeded fr)"

lemma restore_loop:
  fixes now maxAge cached
  defines "upd \<equiv> \<lambda>f q. case cached_for cached (key (mem q f)) of
       Some cf \<Rightarrow> (if time_Sub now (cf_LastSucceeded cf) < maxAge
                   then setLastSucceeded f (cf_LastSucceeded cf) q else q)
     | None \<Rightarrow> q"
  shows "ident (fold upd fs p) = ident p \<and> ready (fold upd fs p) = ready p \<and> fronts (fold upd fs p) = fronts p \<and>
    ready_cap (fold upd fs p) = ready_cap p \<and> pool_closed (fold upd fs p) = pool_closed p \<and>
    next_ref (fold upd fs p) = next_ref p \<and> (\<forall>f. queued (mem (fold upd fs p) f) = queued (mem p f)) \<and>
    (\<forall>f. LastSucceeded (mem (fold upd fs p) f) =
      (if f \<in> set fs then restored now maxAge cached (mem p f) else LastSucceeded (mem p f)))"
proof (induction fs arbitrary: p)
  case (Cons g fs)
  have u: "ident (upd g p) = ident p" "ready (upd g p) = ready p" "fronts (upd g p) = fronts p"
    "ready_cap (upd g p) = ready_cap p" "pool_closed (upd g p) = pool_closed p" "next_ref (upd g p) = next_ref p"
    "queued (mem (upd g p) f) = queued (mem p f)"
    "LastSucceeded (mem (upd g p) f) =
       (if f = g then restored now maxAge cached (mem p g) else LastSucceeded (mem p f))" for f
    by (auto simp: upd_def restored_def front_op_fields split: option.splits)
  have k: "key (mem (upd g p) f) = key (mem p f)" for f
    using u(1) ident_key by metis
  show ?case
    using Cons.IH [of "upd g p"] by (auto simp: u k restored_def split: option.splits)
qed simp

lemma applyCachedState_eq:
  "applyCachedState now fs cached maxAge p =
     (if None \<in> set cached then Inl Panicked
      else Inr (fold (\<lambda>f q. case cached_for (map the cached) (key (mem q f)) of
               Some cf \<Rightarrow> (if time_Sub now (cf_LastSucceeded cf) < maxAge
                           then setLastSucceeded f (cf_LastSucceeded cf) q else q)
             | None \<Rightarrow> q) fs p))"
  by (simp add: applyCachedState_def Let_def lookup_cached_for)

lemma applyCachedState_Inr:
  assumes "applyCachedState now fs cached maxAge p = Inr q"
  shows "ident q = ident p" "ready q = ready p" "fronts q = fronts p" "ready_cap q = ready_cap p"
    "pool_closed q = pool_closed p" "next_ref q = next_ref p" "queued (mem q f) = queued (mem p f)"
    "LastSucceeded (mem q f) =
       (if f \<in> set fs then restored now maxAge (map the cached) (mem p f) else LastSucceeded (mem p f))"
  using assms restore_loop [where cached = "map the cached" and now = now and maxAge = maxAge and fs = fs and p = p]
  by (simp_all add: applyCachedState_eq split: if_splits)

lemma applyCachedState_ok: "applyCachedState now fs cached maxAge p = Inr q \<Longrightarrow> pool_ok p \<Longrightarrow> pool_ok q"
  by (simp add: pool_ok_def applyCachedState_Inr)

subsection \<open>Properties\<close>

text \<open>
  What is written to the cache are the entries of the first \<open>maxSize\<close> fronts with a recorded
  success, in the order of the list, and nothing else.
\<close>

theorem frontsToCache_contract:
  "frontsToCache fs n p = map (cache_entry p) (take n (filter (\<lambda>f. isSucceeding f p) fs))"
  by (rule frontsToCache_eq)

definition json_roundtrips ::
  "(cachedFront list \<Rightarrow> goerr + string) \<Rightarrow> (string \<Rightarrow> goerr + cachedFront option list) \<Rightarrow>
     cachedFront list \<Rightarrow> bool" where
  "json_roundtrips marshal unmarshal cs \<longleftrightarrow>
     (\<forall>s. marshal cs = Inr s \<longrightarrow> s \<noteq> '''' \<and> unmarshal s = Inr (map Some cs))"

lemma cache_entry_time: "cf_LastSucceeded (cache_entry p g) = LastSucceeded (mem p g)"
  by (simp add: cache_entry_def lastSucceededTime_def)

lemma map_the_Some: "map the (map Some xs) = xs"
  by (simp add: comp_def)

lemma cached_for_distinct:
  assumes "distinct (map (\<lambda>f. key (mem p f)) gs)" "g \<in> set gs"
  shows "cached_for (map (cache_entry p) gs) (key (mem p g)) = Some (cache_entry p g)"
proof -
  have k: "cached_key (cache_entry p f) = key (mem p f)" for f
    by (simp add: cached_key_def cache_entry_def key_def)
  have "inj_on (\<lambda>f. key (mem p f)) (set gs)"
    using assms(1) by (simp add: distinct_map)
  moreover obtain cf where "cached_for (map (cache_entry p) gs) (key (mem p g)) = Some cf"
    using assms(2) k unfolding cached_for_def by (cases "find (\<lambda>cf. cached_key cf = key (mem p g)) (rev (map (cache_entry p) gs))")
      (auto simp: find_None_iff)
  ultimately show ?thesis
    using assms(2) k by (fastforce simp: cached_for_def dest!: find_Some_set dest: inj_onD)
qed

lemma cache_restart:
  assumes "json_roundtrips json_Marshal json_Unmarshal (frontsToCache gs n p)"
    and "FileCache_Save json_Marshal WriteOk path (frontsToCache gs n p) d = (None, d')"
    and "distinct (map (\<lambda>g. key (mem p g)) gs)" and "length gs \<le> n"
    and "g \<in> set gs" and "isSucceeding g p" and "time_Sub now (LastSucceeded (mem p g)) < maxAge"
    and "f \<in> set fs" and "key (mem q f) = key (mem p g)"
  shows "\<exists>cached q'. FileCache_Load json_Unmarshal None path d' = Inr cached \<and>
    applyCachedState now fs cached maxAge q = Inr q' \<and> LastSucceeded (mem q' f) = LastSucceeded (mem p g)"
proof -
  define ss where "ss = filter (\<lambda>f. isSucceeding f p) gs"
  have cached: "frontsToCache gs n p = map (cache_entry p) ss"
    using assms(4) by (simp add: frontsToCache_eq ss_def order_trans [OF length_filter_le])
  from assms(2) obtain s where "json_Marshal (map (cache_entry p) ss) = Inr s" "d' = d(path \<mapsto> s)"
    by (auto simp: FileCache_Save_def writeFile_def cached split: sum.splits)
  with assms(1) have load: "FileCache_Load json_Unmarshal None path d' = Inr (map Some (map (cache_entry p) ss))"
    by (auto simp: FileCache_Load_def readFile_def json_roundtrips_def cached)
  have "None \<notin> set (map Some (map (cache_entry p) ss))"
    by auto
  then obtain q' where q': "applyCachedState now fs (map Some (map (cache_entry p) ss)) maxAge q = Inr q'"
    unfolding applyCachedState_eq by simp
  have "distinct (map (\<lambda>f. key (mem p f)) ss)" "g \<in> set ss"
    using assms(3,5,6) by (auto simp: ss_def distinct_map_filter)
  from cached_for_distinct [OF this] have "LastSucceeded (mem q' f) = LastSucceeded (mem p g)"
    using applyCachedState_Inr(8) [OF q', of f, unfolded map_the_Some] assms(7,8,9)
    by (simp add: restored_def cache_entry_time)
  with load q' show ?thesis by blast
qed

text \<open>
  A restart keeps what was learned: when the state of a pool was saved to the cache file and is
  read back into a pool built from the same configuration, every front of the new pool whose provider,
  domain and address belong to a saved front has that front's success time again, as long as the time
  is younger than the maximum age. The fronts saved have distinct keys and fit the size limit; the
  hypothesis on \<open>encoding/json\<close> is its round trip on the saved entries.
\<close>

theorem cache_restart_roundtrip:
  assumes "json_roundtrips json_Marshal json_Unmarshal (frontsToCache gs n p)"
    and "FileCache_Save json_Marshal WriteOk path (frontsToCache gs n p) d = (None, d')"
    and "distinct (map (\<lambda>g. key (mem p g)) gs)" and "length gs \<le> n"
    and "g \<in> set gs" and "isSucceeding g p" and "time_Sub now (LastSucceeded (mem p g)) < maxAge"
    and "f \<in> set fs" and "key (mem q f) = key (mem p g)"
  shows "\<exists>cached q'. FileCache_Load json_Unmarshal None path d' = Inr cached \<and>
    applyCachedState now fs cached maxAge q = Inr q' \<and> LastSucceeded (mem q' f) = LastSucceeded (mem p g)"
  using assms by (rule cache_restart)

theorem cache_restart_roundtrip_witness:
  "\<exists>cached q'. FileCache_Load (\<lambda>s. Inr [Some (cache_entry sample_pool 2)]) None ''c.json'' [''c.json'' \<mapsto> ''x''] = Inr cached \<and>
    applyCachedState (unix_epoch + 10) [2] cached 100 (setLastSucceeded 2 zero_time sample_pool) = Inr q' \<and>
    LastSucceeded (mem q' 2) = unix_epoch + 3"
proof -
  have k: "key (mem (setLastSucceeded 2 zero_time sample_pool) 2) = key (mem sample_pool 2)"
    by (rule ident_key) (simp add: pool_simps)
  have s: "isSucceeding 2 sample_pool"
    by (simp add: isSucceeding_def sample_pool_fields unix_epoch_def)
  then have c: "frontsToCache [2] 5 sample_pool = [cache_entry sample_pool 2]"
    by (simp add: frontsToCache_eq)
  have "\<exists>cached q'. FileCache_Load (\<lambda>s. Inr [Some (cache_entry sample_pool 2)]) None ''c.json'' [''c.json'' \<mapsto> ''x''] = Inr cached \<and>
    applyCachedState (unix_epoch + 10) [2] cached 100 (setLastSucceeded 2 zero_time sample_pool) = Inr q' \<and>
    LastSucceeded (mem q' 2) = LastSucceeded (mem sample_pool 2)"
    by (rule cache_restart_roundtrip [where json_Marshal = "\<lambda>_. Inr ''x''" and gs = "[2]" and n = 5
          and p = sample_pool and g = 2 and d = Map.empty])
      (use k s in \<open>simp_all add: json_roundtrips_def c FileCache_Save_def writeFile_def sample_pool_fields time_Sub_def\<close>)
  moreover have "LastSucceeded (mem sample_pool 2) = unix_epoch + 3"
    by (simp add: sample_pool_fields)
  ultimately show ?thesis by metis
qed

text \<open>
  Reading a cache never makes up state: a front's success time changes only to that of the last
  entry with its key, and only when that entry is not too old; a nil entry, which a \<open>null\<close> in the file
  decodes to, is dereferenced.
\<close>

theorem applyCachedState_contract:
  "if None \<in> set cached then applyCachedState now fs cached maxAge p = Inl Panicked
   else \<exists>q. applyCachedState now fs cached maxAge p = Inr q \<and>
     (\<forall>f. LastSucceeded (mem q f) =
       (if f \<in> set fs then
          case find (\<lambda>cf. cached_key cf = key (mem p f)) (rev (map the cached)) of
            Some cf \<Rightarrow> if time_Sub now (cf_LastSucceeded cf) < maxAge then cf_LastSucceeded cf
                       else LastSucceeded (mem p f)
          | None \<Rightarrow> LastSucceeded (mem p f)
        else LastSucceeded (mem p f)))"
proof (cases "None \<in> set cached")
  case False
  then obtain q where q: "applyCachedState now fs cached maxAge p = Inr q"
    by (auto simp: applyCachedState_eq)
  with False applyCachedState_Inr(8) [OF q] show ?thesis
    by (simp add: restored_def cached_for_def)
qed (simp add: applyCachedState_eq)

end
