(* ===== verification/Dialer.thy ===== *)
theory Dialer
  imports Pool
begin

text \<open>
  Dialing a front (\<open>dialer.go\<close>): the address, the TLS configuration, verification of the edge's
  certificate, and the classification of errors.
  Parameters, in the record \<open>dial_env\<close>: the \<open>Dialer\<close> (TCP), the utls handshake, and package
  \<open>crypto/x509\<close>. A connection is a number; what \<open>dialFront\<close> does to it is a trace of events.
\<close>

subsection \<open>Classification of errors\<close>

text \<open>\<open>errors.As (err, &opErr)\<close>: the error inside the first \<open>*net.OpError\<close> of the chain.\<close>

fun as_OpError :: "goerr \<Rightarrow> goerr option" where
  "as_OpError (ErrOp p e) = Some e"
| "as_OpError (ErrWrap p e) = as_OpError e"
| "as_OpError (ErrJoin es) = foldr (\<lambda>e r. case as_OpError e of Some x \<Rightarrow> Some x | None \<Rightarrow> r) es None"
| "as_OpError e = None"

definition isNetworkUnreachable :: "goerr \<Rightarrow> bool" where
  "isNetworkUnreachable err =
     (case as_OpError err of
        None \<Rightarrow> False
      | Some inner \<Rightarrow>
         (if errors_is inner (ErrErrno ENETUNREACH) \<or> errors_is inner (ErrErrno EHOSTUNREACH) then True
          else let errMsg = error_text inner
               in strings_Contains errMsg ''network is unreachable'' \<or>
                  strings_Contains errMsg ''no route to host'' \<or>
                  strings_Contains errMsg ''unreachable network'' \<or>
                  strings_Contains errMsg ''unreachable host''))"

definition classifyError :: "goerr \<Rightarrow> bool" where
  "classifyError err =
     (if isNetworkUnreachable err then True
      else let errStr = error_text err
           in if strings_Contains errStr ''certificate'' \<or> strings_Contains errStr ''handshake'' then False
              else True)"

subsection \<open>Certificates\<close>

text \<open>A parsed certificate is identified with its DER bytes.\<close>

type_synonym cert = string

record verify_opts =
  Roots :: certpool
  CurrentTime :: gotime
  DNSName :: string
  Intermediates :: "cert list"

record hello_id =
  hello_Client :: string
  hello_Version :: string

record tls_config =
  RootCAs :: certpool
  InsecureSkipVerify :: bool
  ServerName :: string
  VerifyPeerCertificate :: "(string list \<Rightarrow> goerr option) option"

record conn_state =
  PeerCertificates :: "string list"
  NegotiatedProtocol :: string

type_synonym conn = nat

record dial_env =
  DialContext :: "string \<Rightarrow> goerr + conn"
  Handshake :: "conn \<Rightarrow> tls_config \<Rightarrow> hello_id \<Rightarrow> goerr + conn_state"
  HelloGolang :: hello_id
  ParseCertificate :: "string \<Rightarrow> goerr + cert"
  cert_Verify :: "cert \<Rightarrow> verify_opts \<Rightarrow> goerr option"
  dial_now :: gotime

fun parse_intermediates :: "(string \<Rightarrow> goerr + cert) \<Rightarrow> string list \<Rightarrow> cert list \<Rightarrow> goerr + cert list" where
  "parse_intermediates parse [] acc = Inr acc"
| "parse_intermediates parse (r # rs) acc =
     (case parse r of
        Inl e \<Rightarrow> Inl (ErrWrap ''unable to parse intermediate certificate'' e)
      | Inr c \<Rightarrow> parse_intermediates parse rs (acc @ [c]))"

definition verifyPeerCertificate ::
  "dial_env \<Rightarrow> string list \<Rightarrow> certpool \<Rightarrow> string \<Rightarrow> goerr option" where
  "verifyPeerCertificate env rawCerts roots domain =
     (case rawCerts of
        [] \<Rightarrow> Some (ErrText ''no certificates presented'')
      | r # rs \<Rightarrow>
         (case ParseCertificate env r of
            Inl e \<Rightarrow> Some (ErrWrap ''unable to parse certificate'' e)
          | Inr cert \<Rightarrow>
             (case parse_intermediates (ParseCertificate env) rs [] of
                Inl e \<Rightarrow> Some e
              | Inr ints \<Rightarrow>
                 (case cert_Verify env cert \<lparr>Roots = roots, CurrentTime = dial_now env, DNSName = domain,
                         Intermediates = ints\<rparr> of
                    Some e \<Rightarrow> Some (ErrWrap ''certificate verification failed'' e)
                  | None \<Rightarrow> None))))"

subsection \<open>Dialing\<close>

record tls_conn =
  conn_raw :: conn
  conn_proto :: string

record dialResult =
  dr_conn :: "tls_conn option"
  retriable :: bool
  dr_err :: "goerr option"

datatype net_event = Dialed string conn | HandshakeSent tls_config | CloseRaw conn

definition dial_addr :: "string \<Rightarrow> string" where
  "dial_addr ip = (if SplitHostPort ip = None then JoinHostPort ip ''443'' else ip)"

definition front_tls_config :: "dial_env \<Rightarrow> front \<Rightarrow> certpool \<Rightarrow> tls_config" where
  "front_tls_config env f rootCAs =
     (let config = \<lparr>RootCAs = rootCAs, InsecureSkipVerify = True, ServerName = '''', VerifyPeerCertificate = None\<rparr>
      in if SNI f \<noteq> '''' then
           config\<lparr>ServerName := SNI f,
             VerifyPeerCertificate := Some (\<lambda>rawCerts.
               verifyPeerCertificate env rawCerts rootCAs
                 (case VerifyHostname f of Some h \<Rightarrow> h | None \<Rightarrow> ''''))\<rparr>
         else config)"

definition dial_failed :: "bool \<Rightarrow> goerr \<Rightarrow> dialResult" where
  "dial_failed r e = \<lparr>dr_conn = None, retriable = r, dr_err = Some e\<rparr>"

definition dialFront ::
  "dial_env \<Rightarrow> front \<Rightarrow> certpool \<Rightarrow> hello_id \<Rightarrow> dialResult \<times> net_event list" where
  "dialFront env f rootCAs clientHelloID =
     (let addr = dial_addr (IpAddress f)
      in case DialContext env addr of
           Inl e \<Rightarrow> (dial_failed (classifyError e) e, [])
         | Inr rawConn \<Rightarrow>
            (let config = front_tls_config env f rootCAs;
                 chid = (if hello_Client clientHelloID = '''' then HelloGolang env else clientHelloID);
                 evs = [Dialed addr rawConn, HandshakeSent config]
             in case Handshake env rawConn config chid of
                  Inl e \<Rightarrow> (dial_failed (classifyError e) e, evs @ [CloseRaw rawConn])
                | Inr state \<Rightarrow>
                   (let conn = \<lparr>conn_raw = rawConn, conn_proto = NegotiatedProtocol state\<rparr>;
                        ok = (\<lparr>dr_conn = Some conn, retriable = False, dr_err = None\<rparr>, evs)
                    in if SNI f \<noteq> '''' then ok
                       else case verifyPeerCertificate env (PeerCertificates state) rootCAs (Domain f) of
                              Some e \<Rightarrow> (dial_failed False e, evs @ [CloseRaw rawConn])
                            | None \<Rightarrow> ok)))"

subsection \<open>Facts about dialing\<close>

lemma dial_addr_has_port:
  assumes "plain_host ip"
  shows "\<exists>h port. SplitHostPort (dial_addr ip) = Some (h, port) \<and>
    (SplitHostPort ip = None \<longrightarrow> h = ip \<and> port = ''443'')"
  using SplitHostPort_JoinHostPort [OF assms, of "''443''"]
  by (auto simp: dial_addr_def plain_port_def)

text \<open>Documented behaviour of utls: a handshake that succeeds has called the verifier and it passed.\<close>

definition handshake_law :: "dial_env \<Rightarrow> bool" where
  "handshake_law env \<longleftrightarrow> (\<forall>c cfg h st v. Handshake env c cfg h = Inr st \<longrightarrow>
     VerifyPeerCertificate cfg = Some v \<longrightarrow> v (PeerCertificates st) = None)"

text \<open>The name an edge's certificate is verified against; the empty name means the chain only.\<close>

definition verified_name :: "front \<Rightarrow> string" where
  "verified_name f =
     (if SNI f \<noteq> '''' then (case VerifyHostname f of Some h \<Rightarrow> h | None \<Rightarrow> '''') else Domain f)"

lemma dialFront_result:
  assumes "dialFront env f rootCAs hid = (res, evs)"
  shows "(dr_conn res = None) = (dr_err res \<noteq> None)"
  using assms by (auto simp: dialFront_def dial_failed_def Let_def split: sum.splits option.splits if_splits)

text \<open>The ClientHello that is sent for the client's setting.\<close>

definition sent_hello :: "dial_env \<Rightarrow> hello_id \<Rightarrow> hello_id" where
  "sent_hello env hid = (if hello_Client hid = '''' then HelloGolang env else hid)"

lemma dialFront_ok:
  assumes "dialFront env f rootCAs hid = (res, evs)" "dr_err res = None"
  obtains raw st where "DialContext env (dial_addr (IpAddress f)) = Inr raw"
    "Handshake env raw (front_tls_config env f rootCAs) (sent_hello env hid) = Inr st"
    "dr_conn res = Some \<lparr>conn_raw = raw, conn_proto = NegotiatedProtocol st\<rparr>"
    "SNI f = '''' \<longrightarrow> verifyPeerCertificate env (PeerCertificates st) rootCAs (Domain f) = None"
  using assms
  by (auto simp: dialFront_def dial_failed_def sent_hello_def Let_def split: sum.splits option.splits if_splits)

lemma dialFront_verified:
  assumes law: "handshake_law env"
    and dial: "dialFront env f rootCAs hid = (res, evs)" "dr_err res = None"
  obtains raw st where "DialContext env (dial_addr (IpAddress f)) = Inr raw"
    "Handshake env raw (front_tls_config env f rootCAs) (sent_hello env hid) = Inr st"
    "dr_conn res = Some \<lparr>conn_raw = raw, conn_proto = NegotiatedProtocol st\<rparr>"
    "verifyPeerCertificate env (PeerCertificates st) rootCAs (verified_name f) = None"
proof -
  from dial obtain raw st where
    hs: "DialContext env (dial_addr (IpAddress f)) = Inr raw"
      "Handshake env raw (front_tls_config env f rootCAs) (sent_hello env hid) = Inr st"
      "dr_conn res = Some \<lparr>conn_raw = raw, conn_proto = NegotiatedProtocol st\<rparr>"
    and nosni: "SNI f = '''' \<longrightarrow> verifyPeerCertificate env (PeerCertificates st) rootCAs (Domain f) = None"
    by (rule dialFront_ok)
  have "verifyPeerCertificate env (PeerCertificates st) rootCAs (verified_name f) = None"
  proof (cases "SNI f")
    case Nil
    with nosni show ?thesis by (simp add: verified_name_def)
  next
    case (Cons c cs)
    with law hs(2) show ?thesis
      by (force simp: handshake_law_def front_tls_config_def verified_name_def Let_def)
  qed
  with hs show ?thesis by (rule that)
qed

lemma parse_intermediates_Inr:
  "parse_intermediates parse rs acc = Inr ints \<longleftrightarrow> (\<exists>cs. map parse rs = map Inr cs \<and> ints = acc @ cs)"
proof (induction rs arbitrary: acc)
  case (Cons r rs)
  have "(\<exists>cs. parse r # map parse rs = map Inr cs \<and> ints = acc @ cs) \<longleftrightarrow>
      (\<exists>c. parse r = Inr c \<and> (\<exists>cs. map parse rs = map Inr cs \<and> ints = (acc @ [c]) @ cs))"
    by (auto simp: Cons_eq_map_conv)
  with Cons.IH show ?case
    by (auto split: sum.split)
qed auto

text \<open>
  What the verifier has checked when it passes: the first certificate that was presented is the leaf, the
  others are the intermediates, all of them parse, and the leaf verifies.
\<close>

definition chain_verified :: "dial_env \<Rightarrow> string list \<Rightarrow> certpool \<Rightarrow> string \<Rightarrow> bool" where
  "chain_verified env presented roots name \<longleftrightarrow> (\<exists>leaf rest cert ints.
     presented = leaf # rest \<and> ParseCertificate env leaf = Inr cert \<and> map (ParseCertificate env) rest = map Inr ints \<and>
     cert_Verify env cert \<lparr>Roots = roots, CurrentTime = dial_now env, DNSName = name, Intermediates = ints\<rparr> = None)"

lemma verifyPeerCertificate_None:
  "verifyPeerCertificate env certs roots name = None \<longleftrightarrow> chain_verified env certs roots name"
proof (cases certs)
  case Nil
  then show ?thesis by (simp add: verifyPeerCertificate_def chain_verified_def)
next
  case (Cons leaf rest)
  have "map (ParseCertificate env) rest = map Inr ints \<longleftrightarrow> parse_intermediates (ParseCertificate env) rest [] = Inr ints" for ints
    by (simp add: parse_intermediates_Inr)
  then show ?thesis
    unfolding chain_verified_def Cons by (auto simp: verifyPeerCertificate_def split: sum.split option.split)
qed

subsection \<open>Properties\<close>

text \<open>
  A front is always dialed at an address with a port, its own or else 443, for host names, IPv4
  addresses and bare IPv6 literals.
\<close>

theorem dial_address_has_port:
  assumes "plain_host ip"
  shows "\<exists>h port. SplitHostPort (dial_addr ip) = Some (h, port) \<and>
    (SplitHostPort ip = None \<longrightarrow> h = ip \<and> port = ''443'')"
  using assms by (rule dial_addr_has_port)

theorem dial_address_has_port_witness: "SplitHostPort (dial_addr ''::1'') = Some (''::1'', ''443'')"
proof -
  have "plain_host ''::1''"
    by (simp add: plain_host_def)
  moreover have "SplitHostPort ''::1'' = None"
    by (simp add: SplitHostPort_def)
  ultimately show ?thesis
    using dial_address_has_port [of "''::1''"] by auto
qed

text \<open>
  A dial that succeeds has checked the edge's certificate: the chain that the edge presented in the
  handshake verifies against the trusted roots, for the front's domain when no SNI is sent and for its
  pinned host name when one is. The hypothesis is the documented behaviour of the handshake: it succeeds
  only if the configured verifier does.
\<close>

theorem dialed_edge_is_verified:
  assumes "handshake_law env" and "dialFront env f rootCAs hid = (res, evs)" and "dr_err res = None"
  shows "\<exists>raw st. Handshake env raw (front_tls_config env f rootCAs) (sent_hello env hid) = Inr st \<and>
    dr_conn res = Some \<lparr>conn_raw = raw, conn_proto = NegotiatedProtocol st\<rparr> \<and>
    chain_verified env (PeerCertificates st) rootCAs
      (if SNI f \<noteq> '''' then (case VerifyHostname f of Some h \<Rightarrow> h | None \<Rightarrow> '''') else Domain f)"
  using assms
proof (rule dialFront_verified)
  fix raw st
  assume "Handshake env raw (front_tls_config env f rootCAs) (sent_hello env hid) = Inr st"
    "dr_conn res = Some \<lparr>conn_raw = raw, conn_proto = NegotiatedProtocol st\<rparr>"
    "verifyPeerCertificate env (PeerCertificates st) rootCAs (verified_name f) = None"
  then show ?thesis
    unfolding verifyPeerCertificate_None verified_name_def by blast
qed

definition sample_dial_env :: dial_env where
  "sample_dial_env =
     \<lparr>DialContext = (\<lambda>addr. if addr = ''13.224.0.1:443'' then Inr 7 else Inl (ErrOp ''dial tcp'' (ErrErrno ENETUNREACH))),
      Handshake = (\<lambda>c cfg h.
        (let st = \<lparr>PeerCertificates = [''leaf''], NegotiatedProtocol = ''h2''\<rparr>
         in case VerifyPeerCertificate cfg of
              None \<Rightarrow> Inr st
            | Some v \<Rightarrow> (case v [''leaf''] of None \<Rightarrow> Inr st | Some e \<Rightarrow> Inl e))),
      HelloGolang = \<lparr>hello_Client = ''Golang'', hello_Version = ''0''\<rparr>,
      ParseCertificate = Inr,
      cert_Verify = (\<lambda>c opts. if DNSName opts = ''d5678.cloudfront.net'' then None else Some (ErrText ''bad name'')),
      dial_now = unix_epoch + 5\<rparr>"

lemma sample_handshake_law: "handshake_law sample_dial_env"
  by (auto simp: handshake_law_def sample_dial_env_def Let_def split: option.splits)

definition sample_front :: front where
  "sample_front = newFront (sample_masquerade\<lparr>VerifyHostname := Some ''d5678.cloudfront.net''\<rparr>) ''cloudfront''"

lemma sample_dial:
  "\<exists>evs. dialFront sample_dial_env sample_front [] \<lparr>hello_Client = '''', hello_Version = ''''\<rparr> =
     (\<lparr>dr_conn = Some \<lparr>conn_raw = 7, conn_proto = ''h2''\<rparr>, retriable = False, dr_err = None\<rparr>, evs)"
proof -
  have "dial_addr ''13.224.0.1'' = ''13.224.0.1:443''"
    by (simp add: dial_addr_def SplitHostPort_no_colon JoinHostPort_def)
  then show ?thesis
    by (simp add: dialFront_def sample_dial_env_def sample_front_def newFront_def sample_masquerade_def
        front_tls_config_def verifyPeerCertificate_def Let_def)
qed

theorem dialed_edge_is_verified_witness:
  "\<exists>cert opts. cert_Verify sample_dial_env cert opts = None \<and> DNSName opts = ''d5678.cloudfront.net''"
proof -
  obtain res evs where d: "dialFront sample_dial_env sample_front [] \<lparr>hello_Client = '''', hello_Version = ''''\<rparr> = (res, evs)"
    "dr_err res = None"
    using sample_dial by (metis dialResult.select_convs(3))
  have v: "SNI sample_front = ''amazon.com''" "VerifyHostname sample_front = Some ''d5678.cloudfront.net''"
    by (simp_all add: sample_front_def newFront_def sample_masquerade_def)
  show ?thesis
    using dialed_edge_is_verified [OF sample_handshake_law d] unfolding v
    by (simp add: chain_verified_def) (metis verify_opts.select_convs(3))
qed

text \<open>
  C36: no dial leaks a connection: the raw connection is closed exactly when the dial fails after
  connecting, a failed dial has no connection to hand out, and a successful one hands out the
  connection it opened, still open.
\<close>

theorem dial_closes_exactly_on_failure:
  assumes "dialFront env f rootCAs hid = (res, evs)"
  shows "(case dr_err res of
      None \<Rightarrow> (\<exists>c. dr_conn res = Some c \<and> Dialed (dial_addr (IpAddress f)) (conn_raw c) \<in> set evs) \<and>
        (\<forall>r. CloseRaw r \<notin> set evs)
    | Some e \<Rightarrow> dr_conn res = None \<and>
        (\<forall>a r. Dialed a r \<in> set evs \<longrightarrow> last evs = CloseRaw r))"
  using assms
  by (auto simp: dialFront_def dial_failed_def Let_def split: sum.splits option.splits if_splits)

theorem dial_closes_exactly_on_failure_witness:
  "\<exists>res evs. dialFront (sample_dial_env\<lparr>cert_Verify := \<lambda>c opts. Some (ErrText ''expired'')\<rparr>) (sample_front\<lparr>SNI := ''''\<rparr>) []
     \<lparr>hello_Client = '''', hello_Version = ''''\<rparr> = (res, evs) \<and> last evs = CloseRaw 7"
proof -
  have "dial_addr ''13.224.0.1'' = ''13.224.0.1:443''"
    by (simp add: dial_addr_def SplitHostPort_no_colon JoinHostPort_def)
  then obtain res evs where d: "dialFront (sample_dial_env\<lparr>cert_Verify := \<lambda>c opts. Some (ErrText ''expired'')\<rparr>)
      (sample_front\<lparr>SNI := ''''\<rparr>) [] \<lparr>hello_Client = '''', hello_Version = ''''\<rparr> = (res, evs)"
    and "dr_err res \<noteq> None" "Dialed ''13.224.0.1:443'' 7 \<in> set evs"
    by (simp add: dialFront_def sample_dial_env_def sample_front_def newFront_def sample_masquerade_def
        front_tls_config_def verifyPeerCertificate_def Let_def dial_failed_def)
  with dial_closes_exactly_on_failure [OF d] show ?thesis
    by (auto split: option.splits)
qed

end
