(* ===== verification/Http.thy ===== *)
theory Http
  imports Dialer
begin

text \<open>
  Sending one request over a dialed connection (\<open>roundtrip.go\<close> without its retry loop): rewriting the
  request for the front, buffering its body for retries, framing it for the negotiated protocol, and
  judging the response.
  Parameters: the record \<open>transports\<close> (the HTTP/1.1 transport of \<open>net/http\<close> and \<open>x/net/http2\<close>),
  and \<open>valid_field_value\<close> (\<open>httpguts.ValidHeaderFieldValue\<close>).
\<close>

subsection \<open>Requests and responses\<close>

record url =
  u_Scheme :: string
  u_Host :: string
  u_rest :: string  \<comment> \<open>path, query, fragment and user, which are only copied\<close>

text \<open>
  A body is what it delivers and how it ends. \<open>GetBody\<close> is given the number of the call, because
  a caller's function may answer differently each time.
\<close>

record request =
  Method :: string
  URL :: url
  Proto :: "string \<times> nat \<times> nat"
  Header :: header
  Body :: "reader option"
  GetBody :: "(nat \<Rightarrow> goerr + reader) option"
  ContentLength :: int
  req_Host :: string

type_synonym h2_client_conn = nat

record response =
  StatusCode :: int
  resp_content :: string
  body_closes :: "h2_client_conn option"  \<comment> \<open>the HTTP/2 connection that closing the body tears down\<close>

record h1_transport =
  tr_conn :: tls_conn
  TLSHandshakeTimeout :: int
  DisableKeepAlives :: bool
  IdleConnTimeout :: int

record transports =
  h1_RoundTrip :: "h1_transport \<Rightarrow> request \<Rightarrow> goerr + response"
  h2_NewClientConn :: "tls_conn \<Rightarrow> goerr + h2_client_conn"
  h2_RoundTrip :: "h2_client_conn \<Rightarrow> request \<Rightarrow> goerr + response"

subsection \<open>Rewriting\<close>

definition rewriteRequest :: "request \<Rightarrow> string \<Rightarrow> reader option \<Rightarrow> request" where
  "rewriteRequest req frontedHost body =
     \<lparr>Method = Method req,
      URL = (URL req)\<lparr>u_Host := frontedHost, u_Scheme := ''http''\<rparr>,
      Proto = (''HTTP/1.1'', 1, 1),
      Header = filter (\<lambda>(k, vs). \<not> equal_fold k ''Host'') (Header req),
      Body = body,
      GetBody = None,
      ContentLength = ContentLength req,
      req_Host = ''''\<rparr>"

text \<open>The factory is given the number of the attempt.\<close>

definition getBodyFactory :: "request \<Rightarrow> goerr + (nat \<Rightarrow> goerr + reader option)" where
  "getBodyFactory req =
     (case Body req of
        None \<Rightarrow> Inr (\<lambda>_. Inr None)
      | Some body \<Rightarrow>
         (case GetBody req of
            Some g \<Rightarrow> Inr (\<lambda>n. case g n of Inl e \<Rightarrow> Inl e | Inr b \<Rightarrow> Inr (Some b))
          | None \<Rightarrow>
             (case body of
                (data, Some e) \<Rightarrow> Inl e
              | (data, None) \<Rightarrow> Inr (\<lambda>_. Inr (Some (data, None))))))"

subsection \<open>Framing\<close>

definition connection_tokens :: "header \<Rightarrow> string list" where
  "connection_tokens h =
     map strings_TrimSpace (concat (map (split_byte (CHR '','')) (header_Values h ''Connection'')))"

definition hasConnectionUpgrade :: "request \<Rightarrow> bool" where
  "hasConnectionUpgrade req \<longleftrightarrow> (\<exists>tok\<in>set (connection_tokens (Header req)). equal_fold tok ''upgrade'')"

definition forbidden_headers :: "string list" where
  "forbidden_headers = [''Connection'', ''Proxy-Connection'', ''Keep-Alive'', ''Transfer-Encoding'', ''Upgrade'']"

definition stripConnHeaders :: "request \<Rightarrow> request" where
  "stripConnHeaders req =
     (let toks = connection_tokens (Header req);
          h1 = fold (\<lambda>name h. if name \<noteq> '''' then header_Del h name else h) toks (Header req);
          h2 = fold (\<lambda>name h. header_Del h name) forbidden_headers h1
      in req\<lparr>Header := h2\<rparr>)"

definition newConnTransport :: "tls_conn \<Rightarrow> bool \<Rightarrow> h1_transport" where
  "newConnTransport conn disableKeepAlives =
     \<lparr>tr_conn = conn, TLSHandshakeTimeout = 20 * 1000000000, DisableKeepAlives = disableKeepAlives,
      IdleConnTimeout = 70 * 1000000000\<rparr>"

definition negotiatedProtocol :: "tls_conn \<Rightarrow> string" where
  [simp]: "negotiatedProtocol conn = conn_proto conn"

definition roundTripH2 :: "transports \<Rightarrow> tls_conn \<Rightarrow> request \<Rightarrow> goerr + response" where
  "roundTripH2 tr conn req =
     (case h2_NewClientConn tr conn of
        Inl e \<Rightarrow> Inl e
      | Inr cc \<Rightarrow>
         (case h2_RoundTrip tr cc req of
            Inl e \<Rightarrow> Inl e
          | Inr resp \<Rightarrow> Inr (resp\<lparr>body_closes := Some cc\<rparr>)))"

definition sendOverConn :: "transports \<Rightarrow> tls_conn \<Rightarrow> request \<Rightarrow> bool \<Rightarrow> goerr + response" where
  "sendOverConn tr conn req disableKeepAlives =
     (if negotiatedProtocol conn = ''h2'' then
        if hasConnectionUpgrade req then Inl ErrH2UpgradeUnsupported
        else let req' = stripConnHeaders req
             in roundTripH2 tr conn (req'\<lparr>URL := (URL req')\<lparr>u_Scheme := ''https''\<rparr>\<rparr>)
      else h1_RoundTrip tr (newConnTransport conn disableKeepAlives)
             (req\<lparr>URL := (URL req)\<lparr>u_Scheme := ''http''\<rparr>\<rparr>))"

text \<open>Closing the body of an HTTP/2 response, with what the two closes return.\<close>

record h2Body =
  once_done :: bool
  cc_closed :: nat

definition h2Body_Close :: "goerr option \<Rightarrow> goerr option \<Rightarrow> h2Body \<Rightarrow> goerr option \<times> h2Body" where
  "h2Body_Close bodyErr ccResult b =
     (let (ccErr, b') = (if once_done b then (None, b)
                         else (ccResult, b\<lparr>once_done := True, cc_closed := Suc (cc_closed b)\<rparr>))
      in (if bodyErr \<noteq> None then bodyErr else ccErr, b'))"

subsection \<open>One fronted request\<close>

definition defaultRetryableResponse :: "response \<Rightarrow> bool" where
  "defaultRetryableResponse resp \<longleftrightarrow> StatusCode resp = 403 \<or> 500 \<le> StatusCode resp"

definition label_provider :: "(string \<Rightarrow> bool) \<Rightarrow> string \<Rightarrow> header \<Rightarrow> header" where
  "label_provider valid_field_value providerID h =
     (if providerID \<noteq> '''' \<and> valid_field_value providerID \<and> header_Get h ''X-Lantern-Fronted-Via'' = ''''
      then header_Set h ''X-Lantern-Fronted-Via'' providerID else h)"

text \<open>\<open>retryableResponse\<close> is the client's predicate, \<open>None\<close> for a nil one or no client.\<close>

definition doRequest ::
  "transports \<Rightarrow> (string \<Rightarrow> bool) \<Rightarrow> (response \<Rightarrow> bool) option \<Rightarrow> request \<Rightarrow> tls_conn \<Rightarrow> string \<Rightarrow>
     string \<Rightarrow> reader option \<Rightarrow> goerr + response" where
  "doRequest tr valid_field_value retryableResponse req conn frontedHost providerID body =
     (let fronted = rewriteRequest req frontedHost body;
          fronted' = fronted\<lparr>Header := label_provider valid_field_value providerID (Header fronted)\<rparr>
      in case sendOverConn tr conn fronted' (\<not> hasConnectionUpgrade req) of
           Inl e \<Rightarrow> Inl e
         | Inr resp \<Rightarrow>
            (let retryable = (case retryableResponse of Some r \<Rightarrow> r | None \<Rightarrow> defaultRetryableResponse)
             in if retryable resp then Inl (ErrRetryableStatus (StatusCode resp)) else Inr resp))"

text \<open>
  What \<open>doRequest\<close> closes: the HTTP/2 client connection of a failed round trip, and the body of a response
  that it does not hand on.
\<close>

datatype http_close = CloseClientConn h2_client_conn | CloseBody response

definition roundTripH2_closes :: "transports \<Rightarrow> tls_conn \<Rightarrow> request \<Rightarrow> http_close list" where
  "roundTripH2_closes tr conn req =
     (case h2_NewClientConn tr conn of
        Inl e \<Rightarrow> []
      | Inr cc \<Rightarrow> (case h2_RoundTrip tr cc req of Inl e \<Rightarrow> [CloseClientConn cc] | Inr resp \<Rightarrow> []))"

definition sendOverConn_closes :: "transports \<Rightarrow> tls_conn \<Rightarrow> request \<Rightarrow> http_close list" where
  "sendOverConn_closes tr conn req =
     (if negotiatedProtocol conn = ''h2'' \<and> \<not> hasConnectionUpgrade req then
        let req' = stripConnHeaders req
        in roundTripH2_closes tr conn (req'\<lparr>URL := (URL req')\<lparr>u_Scheme := ''https''\<rparr>\<rparr>)
      else [])"

definition doRequest_closes ::
  "transports \<Rightarrow> (string \<Rightarrow> bool) \<Rightarrow> (response \<Rightarrow> bool) option \<Rightarrow> request \<Rightarrow> tls_conn \<Rightarrow> string \<Rightarrow>
     string \<Rightarrow> reader option \<Rightarrow> http_close list" where
  "doRequest_closes tr valid_field_value retryableResponse req conn frontedHost providerID body =
     (let fronted = rewriteRequest req frontedHost body;
          fronted' = fronted\<lparr>Header := label_provider valid_field_value providerID (Header fronted)\<rparr>;
          retryable = (case retryableResponse of Some r \<Rightarrow> r | None \<Rightarrow> defaultRetryableResponse)
      in sendOverConn_closes tr conn fronted' @
         (case sendOverConn tr conn fronted' (\<not> hasConnectionUpgrade req) of
            Inl e \<Rightarrow> []
          | Inr resp \<Rightarrow> if retryable resp then [CloseBody resp] else []))"

text \<open>The connections a close tears down.\<close>

fun torn_down :: "http_close \<Rightarrow> h2_client_conn set" where
  "torn_down (CloseClientConn cc) = {cc}"
| "torn_down (CloseBody resp) = set_option (body_closes resp)"

subsection \<open>Facts about headers\<close>

lemma map_of_header_Del: "map_of (header_Del h k) = (map_of h)(CanonicalHeaderKey k := None)"
  by (simp add: header_Del_def AList.delete_conv')

lemma map_of_header_Set: "map_of (header_Set h k v) = (map_of h)(CanonicalHeaderKey k \<mapsto> [v])"
  by (simp add: header_Set_def map_of_update)

lemma map_of_fold_Del:
  "map_of (fold (\<lambda>name h. header_Del h name) ks h) x =
     (if x \<in> CanonicalHeaderKey ` set ks then None else map_of h x)"
  by (induction ks arbitrary: h) (auto simp: map_of_header_Del)

lemma fold_Del_tokens:
  "fold (\<lambda>name h. if name \<noteq> '''' then header_Del h name else h) ks h =
     fold (\<lambda>name h. header_Del h name) (filter (\<lambda>k. k \<noteq> '''') ks) h"
  by (induction ks arbitrary: h) auto

text \<open>The keys that are removed: those named in \<open>Connection\<close> and the fixed ones.\<close>

definition stripped_keys :: "header \<Rightarrow> string set" where
  "stripped_keys h = CanonicalHeaderKey ` ({t \<in> set (connection_tokens h). t \<noteq> ''''} \<union> set forbidden_headers)"

lemma map_of_stripConnHeaders:
  "map_of (Header (stripConnHeaders req)) x =
     (if x \<in> stripped_keys (Header req) then None else map_of (Header req) x)"
  by (auto simp: stripConnHeaders_def Let_def fold_Del_tokens map_of_fold_Del stripped_keys_def)

lemma stripConnHeaders_fields:
  "Method (stripConnHeaders req) = Method req" "URL (stripConnHeaders req) = URL req"
  "Body (stripConnHeaders req) = Body req" "ContentLength (stripConnHeaders req) = ContentLength req"
  by (simp_all add: stripConnHeaders_def Let_def)

lemma forbidden_canonical: "CanonicalHeaderKey ` set forbidden_headers = set forbidden_headers"
  by (simp add: forbidden_headers_def CanonicalHeaderKey_def valid_field_byte_def is_digit_def char_eval)

lemma via_key: "CanonicalHeaderKey ''X-Lantern-Fronted-Via'' = ''X-Lantern-Fronted-Via''"
  by (simp add: CanonicalHeaderKey_def valid_field_byte_def is_digit_def char_eval)

lemma connection_key: "CanonicalHeaderKey ''Connection'' = ''Connection''"
  by (simp add: CanonicalHeaderKey_def valid_field_byte_def is_digit_def char_eval)

lemma doRequest_Inr:
  "doRequest tr vf rr req conn fh pid body = Inr resp \<Longrightarrow>
     \<not> (case rr of Some r \<Rightarrow> r | None \<Rightarrow> defaultRetryableResponse) resp"
  by (auto simp: doRequest_def Let_def split: sum.splits if_splits)

lemma sendOverConn_upgrade:
  "conn_proto conn = ''h2'' \<Longrightarrow> hasConnectionUpgrade req \<Longrightarrow>
     sendOverConn tr conn req b = Inl ErrH2UpgradeUnsupported"
  by (simp add: sendOverConn_def)

interpretation h2_once: once_only "\<lambda>(be, ce) b. snd (h2Body_Close be ce b)" once_done
  by unfold_locales (auto simp: h2Body_Close_def)

subsection \<open>Properties\<close>

text \<open>
  The request sent through a front goes to the fronted host and carries no \<open>Host\<close> header in any
  spelling; its method, path, length and body, and every header that is not a \<open>Host\<close> header, are the
  caller's.
\<close>

theorem rewriteRequest_contract:
  "let r = rewriteRequest req frontedHost body
   in u_Host (URL r) = frontedHost \<and> u_Scheme (URL r) = ''http'' \<and> u_rest (URL r) = u_rest (URL req) \<and>
      Method r = Method req \<and> ContentLength r = ContentLength req \<and> Body r = body \<and> req_Host r = '''' \<and>
      (\<forall>k vs. (k, vs) \<in> set (Header r) \<longleftrightarrow> (k, vs) \<in> set (Header req) \<and> \<not> equal_fold k ''Host'')"
  by (auto simp: rewriteRequest_def Let_def)

text \<open>
  C39: over HTTP/2 a request is never sent with a connection-specific header: neither one of the five
  that are always removed nor one named in its \<open>Connection\<close> header; every other header, the method
  and the body are untouched and the scheme is \<open>https\<close>. An upgrade request is not sent at all. Over
  HTTP/1.1 the headers are untouched and the scheme is \<open>http\<close>.
\<close>

theorem sendOverConn_framing:
  "if conn_proto conn = ''h2'' then
     if hasConnectionUpgrade req then sendOverConn tr conn req dka = Inl ErrH2UpgradeUnsupported
     else \<exists>r. sendOverConn tr conn req dka = roundTripH2 tr conn r \<and> u_Scheme (URL r) = ''https'' \<and>
        u_Host (URL r) = u_Host (URL req) \<and> Method r = Method req \<and> Body r = Body req \<and>
        (\<forall>k. map_of (Header r) k =
          (if k \<in> set forbidden_headers \<or> k \<in> CanonicalHeaderKey ` {t \<in> set (connection_tokens (Header req)). t \<noteq> ''''}
           then None else map_of (Header req) k))
   else sendOverConn tr conn req dka =
        h1_RoundTrip tr (newConnTransport conn dka) (req\<lparr>URL := (URL req)\<lparr>u_Scheme := ''http''\<rparr>\<rparr>)"
proof -
  let ?r = "(stripConnHeaders req)\<lparr>URL := (URL (stripConnHeaders req))\<lparr>u_Scheme := ''https''\<rparr>\<rparr>"
  have "map_of (Header ?r) k =
      (if k \<in> set forbidden_headers \<or> k \<in> CanonicalHeaderKey ` {t \<in> set (connection_tokens (Header req)). t \<noteq> ''''}
       then None else map_of (Header req) k)" for k
    by (simp add: map_of_stripConnHeaders stripped_keys_def image_Un forbidden_canonical)
  moreover have "sendOverConn tr conn req dka = roundTripH2 tr conn ?r"
    if "conn_proto conn = ''h2''" "\<not> hasConnectionUpgrade req"
    using that by (simp add: sendOverConn_def Let_def)
  ultimately show ?thesis
    by (auto simp: sendOverConn_def stripConnHeaders_fields intro!: exI [of _ ?r])
qed

text \<open>Documented behaviour of \<open>httpguts.ValidHeaderFieldValue\<close>: it rejects line breaks.\<close>

definition field_value_law :: "(string \<Rightarrow> bool) \<Rightarrow> bool" where
  "field_value_law valid \<longleftrightarrow> (\<forall>v. valid v \<longrightarrow> CHR 0x0D \<notin> set v \<and> CHR 0x0A \<notin> set v)"

text \<open>
  A response that the retry predicate rejects (403 and 5xx by default) is never handed to the
  caller, and a response that is accepted is the transport's own. The provider label is added only
  when the caller's headers have none and the value is a valid field value, so with the documented
  behaviour of \<open>ValidHeaderFieldValue\<close> a malformed provider ID cannot inject a line break.
\<close>

theorem doRequest_contract:
  assumes "field_value_law valid_field_value"
  shows "(\<forall>resp. doRequest tr valid_field_value retryableResponse req conn fh pid body = Inr resp \<longrightarrow>
      \<not> (case retryableResponse of Some r \<Rightarrow> r resp | None \<Rightarrow> StatusCode resp = 403 \<or> 500 \<le> StatusCode resp)) \<and>
    (\<exists>h. (case sendOverConn tr conn ((rewriteRequest req fh body)\<lparr>Header := h\<rparr>) (\<not> hasConnectionUpgrade req) of
            Inl e \<Rightarrow> doRequest tr valid_field_value retryableResponse req conn fh pid body = Inl e
          | Inr resp \<Rightarrow> doRequest tr valid_field_value retryableResponse req conn fh pid body
              \<in> {Inr resp, Inl (ErrRetryableStatus (StatusCode resp))}) \<and>
       (\<forall>k. k \<noteq> ''X-Lantern-Fronted-Via'' \<longrightarrow> map_of h k = map_of (Header (rewriteRequest req fh body)) k) \<and>
       (map_of h ''X-Lantern-Fronted-Via'' \<noteq> map_of (Header (rewriteRequest req fh body)) ''X-Lantern-Fronted-Via'' \<longrightarrow>
          map_of h ''X-Lantern-Fronted-Via'' = Some [pid] \<and> CHR 0x0D \<notin> set pid \<and> CHR 0x0A \<notin> set pid))"
proof -
  let ?orig = "Header (rewriteRequest req fh body)"
  let ?h = "label_provider valid_field_value pid ?orig"
  have 1: "map_of ?h k = map_of ?orig k" if "k \<noteq> ''X-Lantern-Fronted-Via''" for k
    using that by (simp add: label_provider_def map_of_header_Set via_key)
  have 2: "map_of ?h ''X-Lantern-Fronted-Via'' = Some [pid] \<and> CHR 0x0D \<notin> set pid \<and> CHR 0x0A \<notin> set pid"
    if "map_of ?h ''X-Lantern-Fronted-Via'' \<noteq> map_of ?orig ''X-Lantern-Fronted-Via''"
    using that assms by (auto simp: field_value_law_def label_provider_def map_of_header_Set via_key split: if_splits)
  have 3: "case sendOverConn tr conn ((rewriteRequest req fh body)\<lparr>Header := ?h\<rparr>) (\<not> hasConnectionUpgrade req) of
            Inl e \<Rightarrow> doRequest tr valid_field_value retryableResponse req conn fh pid body = Inl e
          | Inr resp \<Rightarrow> doRequest tr valid_field_value retryableResponse req conn fh pid body
              \<in> {Inr resp, Inl (ErrRetryableStatus (StatusCode resp))}"
    by (simp add: doRequest_def Let_def split: sum.split)
  have 4: "\<not> (case retryableResponse of Some r \<Rightarrow> r resp | None \<Rightarrow> StatusCode resp = 403 \<or> 500 \<le> StatusCode resp)"
    if "doRequest tr valid_field_value retryableResponse req conn fh pid body = Inr resp" for resp
    using doRequest_Inr [OF that] by (auto simp: defaultRetryableResponse_def split: option.splits)
  show ?thesis
    by (intro conjI exI [of _ ?h] allI impI) (erule 4, rule 3, erule 1, use 2 in simp_all)
qed

text \<open>
  C40: no request leaks an HTTP/2 connection: the client connection that \<open>doRequest\<close> set up over the dialed
  connection is torn down when it returns an error, by a close of its own or of the rejected response's
  body, and when it returns a response, closing that response's body is what tears it down and nothing
  was closed before.
\<close>

theorem doRequest_leaks_no_connection:
  assumes "conn_proto conn = ''h2''" and "h2_NewClientConn tr conn = Inr cc"
    and "\<not> hasConnectionUpgrade ((rewriteRequest req fh body)\<lparr>Header := label_provider valid pid (Header (rewriteRequest req fh body))\<rparr>)"
  shows "case doRequest tr valid retryableResponse req conn fh pid body of
      Inl e \<Rightarrow> \<exists>x\<in>set (doRequest_closes tr valid retryableResponse req conn fh pid body). cc \<in> torn_down x
    | Inr resp \<Rightarrow> body_closes resp = Some cc \<and> doRequest_closes tr valid retryableResponse req conn fh pid body = []"
proof -
  let ?f = "(rewriteRequest req fh body)\<lparr>Header := label_provider valid pid (Header (rewriteRequest req fh body))\<rparr>"
  let ?r = "(stripConnHeaders ?f)\<lparr>URL := (URL (stripConnHeaders ?f))\<lparr>u_Scheme := ''https''\<rparr>\<rparr>"
  have s: "sendOverConn tr conn ?f b = roundTripH2 tr conn ?r" "sendOverConn_closes tr conn ?f = roundTripH2_closes tr conn ?r" for b
    using assms(1,3) by (simp_all add: sendOverConn_def sendOverConn_closes_def Let_def)
  show ?thesis
    unfolding doRequest_def doRequest_closes_def Let_def s
    using assms(2) by (auto simp: roundTripH2_def roundTripH2_closes_def split: sum.splits)
qed

definition sample_request :: request where
  "sample_request =
     \<lparr>Method = ''GET'', URL = \<lparr>u_Scheme = ''https'', u_Host = ''config.example.com'', u_rest = ''/''\<rparr>,
      Proto = (''HTTP/1.1'', 1, 1), Header = [], Body = None, GetBody = None, ContentLength = 0, req_Host = ''''\<rparr>"

text \<open>Transports over which every front answers with status \<open>n\<close>.\<close>

definition sample_transports :: "int \<Rightarrow> transports" where
  "sample_transports n =
     \<lparr>h1_RoundTrip = (\<lambda>_ _. Inr \<lparr>StatusCode = n, resp_content = ''ok'', body_closes = None\<rparr>),
      h2_NewClientConn = (\<lambda>c. Inr (conn_raw c)),
      h2_RoundTrip = (\<lambda>_ _. Inr \<lparr>StatusCode = n, resp_content = ''ok'', body_closes = None\<rparr>)\<rparr>"

lemma connection_tokens_Nil [simp]: "connection_tokens [] = []"
  by (simp add: connection_tokens_def header_Values_def)

lemma sample_send:
  "sendOverConn (sample_transports n) \<lparr>conn_raw = c, conn_proto = ''''\<rparr> req b =
     Inr \<lparr>StatusCode = n, resp_content = ''ok'', body_closes = None\<rparr>"
  by (simp add: sendOverConn_def sample_transports_def)

theorem doRequest_contract_witness:
  "doRequest (sample_transports 503) (\<lambda>v. CHR 0x0D \<notin> set v \<and> CHR 0x0A \<notin> set v) None sample_request
     \<lparr>conn_raw = 7, conn_proto = ''''\<rparr> ''d1234.cloudfront.net'' ''cloudfront'' None = Inl (ErrRetryableStatus 503)"
proof -
  let ?vf = "\<lambda>v. CHR 0x0D \<notin> set v \<and> CHR 0x0A \<notin> set v"
  let ?d = "doRequest (sample_transports 503) ?vf None sample_request \<lparr>conn_raw = 7, conn_proto = ''''\<rparr>
     ''d1234.cloudfront.net'' ''cloudfront'' None"
  have vf: "field_value_law ?vf"
    by (simp add: field_value_law_def)
  note c = doRequest_contract [of ?vf "sample_transports 503" None sample_request
      "\<lparr>conn_raw = 7, conn_proto = ''''\<rparr>" "''d1234.cloudfront.net''" "''cloudfront''" None, OF vf]
  have "?d \<in> {Inr \<lparr>StatusCode = 503, resp_content = ''ok'', body_closes = None\<rparr>, Inl (ErrRetryableStatus 503)}"
    using conjunct2 [OF c] unfolding sample_send sum.case response.select_convs by (elim exE conjE)
  moreover have "?d \<noteq> Inr \<lparr>StatusCode = 503, resp_content = ''ok'', body_closes = None\<rparr>"
    using conjunct1 [OF c] by fastforce
  ultimately show ?thesis by blast
qed

text \<open>
  Every retry sends the whole body again: when the body has to be buffered, each attempt gets all of
  its bytes; a request without a body stays without one; a body that cannot be read fails the request
  before any front is used.
\<close>

theorem getBodyFactory_contract:
  "case (Body req, GetBody req) of
     (None, _) \<Rightarrow> (\<exists>mk. getBodyFactory req = Inr mk \<and> (\<forall>n. mk n = Inr None))
   | (Some (data, Some e), None) \<Rightarrow> getBodyFactory req = Inl e
   | (Some (data, None), None) \<Rightarrow> (\<exists>mk. getBodyFactory req = Inr mk \<and> (\<forall>n. mk n = Inr (Some (data, None))))
   | (Some _, Some g) \<Rightarrow> (\<exists>mk. getBodyFactory req = Inr mk \<and> (\<forall>n. mk n = map_sum id Some (g n)))"
  by (auto simp: getBodyFactory_def split: option.splits sum.splits)

text \<open>
  The body of an HTTP/2 response tears down its connection exactly once, however often it is closed
  and whatever the closes return.
\<close>

theorem h2Body_closes_once:
  assumes "closes \<noteq> []"
  shows "cc_closed (fold (\<lambda>(be, ce) b. snd (h2Body_Close be ce b)) closes \<lparr>once_done = False, cc_closed = 0\<rparr>) = 1"
  using assms h2_once.acts_once [of "\<lparr>once_done = False, cc_closed = 0\<rparr>" "hd closes" "tl closes"]
  by (cases closes) (auto simp: h2Body_Close_def)

theorem h2Body_closes_once_witness:
  "cc_closed (fold (\<lambda>(be, ce) b. snd (h2Body_Close be ce b)) [(None, Some ErrCanceled), (None, None)]
     \<lparr>once_done = False, cc_closed = 0\<rparr>) = 1"
  by (rule h2Body_closes_once) simp

theorem doRequest_leaks_no_connection_witness:
  "\<exists>x\<in>set (doRequest_closes (sample_transports 503) (\<lambda>v. True) None sample_request \<lparr>conn_raw = 7, conn_proto = ''h2''\<rparr>
      ''d1234.cloudfront.net'' '''' None). 7 \<in> torn_down x"
proof -
  let ?conn = "\<lparr>conn_raw = 7, conn_proto = ''h2''\<rparr>"
  have l: "label_provider (\<lambda>v. True) '''' h = h" for h
    by (simp add: label_provider_def)
  have 1: "h2_NewClientConn (sample_transports 503) ?conn = Inr 7"
    by (simp add: sample_transports_def)
  have 2: "\<not> hasConnectionUpgrade ((rewriteRequest sample_request ''d1234.cloudfront.net'' None)
      \<lparr>Header := label_provider (\<lambda>v. True) '''' (Header (rewriteRequest sample_request ''d1234.cloudfront.net'' None))\<rparr>)"
    unfolding l by (simp add: hasConnectionUpgrade_def rewriteRequest_def sample_request_def)
  have "\<exists>e. doRequest (sample_transports 503) (\<lambda>v. True) None sample_request ?conn ''d1234.cloudfront.net'' '''' None = Inl e"
    unfolding doRequest_def Let_def l using 2 [unfolded l]
    by (simp add: sendOverConn_def roundTripH2_def sample_transports_def defaultRetryableResponse_def)
  with doRequest_leaks_no_connection [OF _ 1 2, of None] show ?thesis
    by auto
qed

end
