(* ===== verification/Client.thy ===== *)
theory Client
  imports Gate Cache Http
begin

text \<open>
  The client (\<open>domainfront.go\<close>, \<open>pause.go\<close>): its state and options, the application of a config, the
  return of fronts, the crawler with its vetting goroutines, the cache saver, pause and close.
  Start-up is in \<open>Startup\<close>, the request paths are in \<open>RoundTrip\<close> and \<open>Connected\<close>, and config updates
  in \<open>ConfigFetch\<close>.
  The logger, the dialer, the HTTP client and the wait group are not state of the model: the dialer and
  the HTTP client are parameters of the operations that call them.
\<close>

subsection \<open>State\<close>

record configValidator =
  ETag :: string
  LastModified :: string

definition no_validator :: configValidator where
  "no_validator = \<lparr>ETag = '''', LastModified = ''''\<rparr>"

record client =
  ctx_err :: "goerr option"  \<comment> \<open>\<open>c.ctx.Err ()\<close>\<close>
  c_pool :: pool
  providers :: "(string \<times> provider) list"
  certPoolValue :: "certpool option"
  clientHelloID :: hello_id
  countryCode :: string
  defaultPID :: string
  maxRetries :: int
  retryableResponse :: "(response \<Rightarrow> bool) option"
  c_cache :: cache
  maxCacheSize :: nat
  maxCachedAge :: int
  cacheSaveInterval :: int
  cacheDirty :: bool  \<comment> \<open>whether the channel of capacity 1 holds its token\<close>
  configURLs :: "string list"
  configCachePath :: string
  configHash :: string
  configValidators :: "(string \<times> configValidator) list option"
  crawlerConcurrency :: int
  crawlInterval :: int
  readyQueueSize :: int
  c_gate :: pauseGate

text \<open>What the client uses of the platform: Unicode lower-casing, PEM parsing, the codecs, the system's
  roots, \<open>net/url\<close> parsing and \<open>httpguts.ValidHeaderFieldValue\<close>.\<close>

record platform =
  ulower :: "string \<Rightarrow> string"
  pem_ok :: "string \<Rightarrow> bool"
  codecs_of :: codecs
  SystemCertPool :: "goerr + certpool"
  url_Parse :: "string \<Rightarrow> goerr + url"
  valid_field_value :: "string \<Rightarrow> bool"

definition on_pool :: "(pool \<Rightarrow> pool) \<Rightarrow> client \<Rightarrow> client" where
  "on_pool f c = c\<lparr>c_pool := f (c_pool c)\<rparr>"

subsection \<open>Options\<close>

datatype client_option =
    WithCountryCode string
  | WithDefaultProviderID string
  | WithConfigURL "string list"
  | WithConfigCacheFile string
  | WithCache cache
  | WithMaxRetries int
  | WithRetryableResponse "(response \<Rightarrow> bool) option"
  | WithClientHelloID hello_id
  | WithCrawlerConcurrency int
  | WithReadyQueueSize int
  | WithCacheSaveInterval int
  | WithCacheFile string
  | WithCrawlInterval int

fun apply_option :: "client_option \<Rightarrow> client \<Rightarrow> client" where
  "apply_option (WithCountryCode cc) c = c\<lparr>countryCode := cc\<rparr>"
| "apply_option (WithDefaultProviderID i) c = c\<lparr>defaultPID := i\<rparr>"
| "apply_option (WithConfigURL urls) c = c\<lparr>configURLs := filter (\<lambda>u. u \<noteq> '''') urls\<rparr>"
| "apply_option (WithConfigCacheFile path) c = c\<lparr>configCachePath := path\<rparr>"
| "apply_option (WithCache ca) c = c\<lparr>c_cache := ca\<rparr>"
| "apply_option (WithMaxRetries n) c = c\<lparr>maxRetries := n\<rparr>"
| "apply_option (WithRetryableResponse fn) c = c\<lparr>retryableResponse := fn\<rparr>"
| "apply_option (WithClientHelloID i) c = c\<lparr>clientHelloID := i\<rparr>"
| "apply_option (WithCrawlerConcurrency n) c = c\<lparr>crawlerConcurrency := n\<rparr>"
| "apply_option (WithReadyQueueSize n) c = c\<lparr>readyQueueSize := n\<rparr>"
| "apply_option (WithCacheSaveInterval d) c = c\<lparr>cacheSaveInterval := d\<rparr>"
| "apply_option (WithCacheFile path) c = c\<lparr>c_cache := FileCache path\<rparr>"
| "apply_option (WithCrawlInterval d) c = c\<lparr>crawlInterval := d\<rparr>"

text \<open>The fields \<open>New\<close> sets before it runs the options; \<open>chrome\<close> is \<open>utls.HelloChrome_131\<close>.\<close>

definition default_client :: "goerr option \<Rightarrow> hello_id \<Rightarrow> client" where
  "default_client ctx chrome =
     \<lparr>ctx_err = ctx, c_pool = newFrontPool 0, providers = [], certPoolValue = None, clientHelloID = chrome,
      countryCode = '''', defaultPID = ''cloudfront'', maxRetries = 6,
      retryableResponse = Some defaultRetryableResponse, c_cache = NopCache, maxCacheSize = 1000,
      maxCachedAge = 24 * 3600 * 1000000000, cacheSaveInterval = 5 * 1000000000, cacheDirty = False,
      configURLs = [], configCachePath = '''', configHash = '''', configValidators = None,
      crawlerConcurrency = 10, crawlInterval = 0, readyQueueSize = 0, c_gate = newPauseGate\<rparr>"

subsection \<open>Small operations\<close>

definition certPool :: "platform \<Rightarrow> client \<Rightarrow> certpool" where
  "certPool pf c =
     (case certPoolValue c of
        Some p \<Rightarrow> p
      | None \<Rightarrow> (case SystemCertPool pf of Inl e \<Rightarrow> [] | Inr p \<Rightarrow> p))"

definition providerFor :: "client \<Rightarrow> front \<Rightarrow> provider option" where
  "providerFor c f =
     (let pid = (if ProviderID f = '''' then defaultPID c else ProviderID f) in map_of (providers c) pid)"

definition notifyCacheDirty :: "client \<Rightarrow> client" where
  "notifyCacheDirty c = c\<lparr>cacheDirty := True\<rparr>"

definition returnAfterDialFailure :: "fref \<Rightarrow> client \<Rightarrow> client" where
  "returnAfterDialFailure f c =
     (if isPaused (c_gate c) then on_pool (pool_Return f True) c
      else notifyCacheDirty (on_pool (pool_Return f False) c))"

definition Pause :: "client \<Rightarrow> client" where
  "Pause c = c\<lparr>c_gate := pause (c_gate c)\<rparr>"

definition Resume :: "client \<Rightarrow> client res" where
  "Resume c = (case resume (c_gate c) of Inl e \<Rightarrow> Inl e | Inr g \<Rightarrow> Inr (c\<lparr>c_gate := g\<rparr>))"

text \<open>\<open>rand.IntN (7)\<close> is \<open>n mod 7\<close> for some \<open>n\<close>.\<close>

definition nextCrawlDelay :: "nat \<Rightarrow> client \<Rightarrow> int" where
  "nextCrawlDelay n c =
     (if crawlInterval c > 0 then crawlInterval c else int (6 + n mod 7) * 1000000000)"

subsection \<open>Applying a config\<close>

text \<open>
  The fronts of the expanded providers, allocated in order. The entries of an expanded provider are
  not nil, as \<open>ExpandedProvider\<close> has dereferenced every one.
\<close>

fun new_fronts :: "(masquerade \<times> string) list \<Rightarrow> pool \<Rightarrow> fref list \<times> pool" where
  "new_fronts [] p = ([], p)"
| "new_fronts ((m, pid) # ms) p =
     (let (f, p1) = alloc_front m pid p; (fs, p2) = new_fronts ms p1 in (f # fs, p2))"

definition masquerades_of :: "(string \<times> provider) list \<Rightarrow> (masquerade \<times> string) list" where
  "masquerades_of ps = concat (map (\<lambda>(pid, p). map (\<lambda>m. (the m, pid)) (Masquerades p)) ps)"

definition expand_all ::
  "platform \<Rightarrow> string \<Rightarrow> (string \<times> provider option) list \<Rightarrow> (string \<times> provider) list res" where
  "expand_all pf cc ps =
     map_res (\<lambda>(pid, p). case ExpandedProvider (ulower pf) p cc of Inl e \<Rightarrow> Inl e | Inr ep \<Rightarrow> Inr (pid, ep)) ps"

text \<open>The fault of the call, if it has one, and the client as the call leaves it, with a fault or without.\<close>

definition applyConfig :: "platform \<Rightarrow> (nat \<Rightarrow> nat) \<Rightarrow> config \<Rightarrow> client \<Rightarrow> fault option \<times> client" where
  "applyConfig pf draw cfg c =
     (if length (provider_map cfg) = 0 then (Some (Returned (ErrText ''no providers configured'')), c)
      else
        case CertPool (pem_ok pf) cfg of
          Inl Panicked \<Rightarrow> (Some Panicked, c)
        | Inl (Returned e) \<Rightarrow> (Some (Returned (ErrWrap ''cert pool'' e)), c)
        | Inr certs \<Rightarrow>
           (case expand_all pf (countryCode c) (provider_map cfg) of
              Inl e \<Rightarrow> (Some e, c)
            | Inr expanded \<Rightarrow>
               (let c1 = c\<lparr>providers := expanded\<rparr>;
                    c2 = c1\<lparr>certPoolValue := Some certs\<rparr>;
                    (fs, p1) = new_fronts (masquerades_of expanded) (c_pool c2)
                in (None, c2\<lparr>c_pool := Replace (rand_Shuffle draw fs) p1\<rparr>))))"

subsection \<open>Vetting a front\<close>

definition vet_request :: "url \<Rightarrow> request" where
  "vet_request u =
     \<lparr>Method = ''POST'', URL = u, Proto = (''HTTP/1.1'', 1, 1),
      Header = header_Set [] ''Content-Type'' ''application/json'', Body = Some (''a'', None),
      GetBody = Some (\<lambda>_. Inr (''a'', None)), ContentLength = 1, req_Host = u_Host u\<rparr>"

text \<open>
  What an edge does with a request on a connection it has accepted: \<open>e_tr\<close> is its answer, unless it is
  \<open>silent\<close> and none ever comes; the body of an \<open>endless\<close> answer is never read to its end.
\<close>

record edge =
  e_tr :: transports
  silent :: bool
  endless :: bool

abbreviation answers :: "edge \<Rightarrow> bool" where
  "answers ed \<equiv> \<not> silent ed \<and> \<not> endless ed"

text \<open>
  The POST has no context of its own. On a connection with a \<open>deadline\<close> a wait for the answer ends with an
  error, and so does the reading of its body, whose error is ignored; on one without (the state in which
  \<open>dialFront\<close> hands a connection out) either can last for ever, and the call does not return: \<open>None\<close>.
\<close>

definition verifyWithPost :: "platform \<Rightarrow> edge \<Rightarrow> bool \<Rightarrow> tls_conn \<Rightarrow> string \<Rightarrow> bool option" where
  "verifyWithPost pf ed deadline conn testURL =
     (case url_Parse pf testURL of
        Inl e \<Rightarrow> Some False
      | Inr u \<Rightarrow>
         (if silent ed then (if deadline then Some False else None)
          else
            case sendOverConn (e_tr ed) conn (vet_request u) True of
              Inl e \<Rightarrow> Some False
            | Inr resp \<Rightarrow> (if endless ed \<and> \<not> deadline then None else Some (StatusCode resp = 202))))"

text \<open>A vet that does not return does not close its connection either.\<close>

definition vetFront ::
  "platform \<Rightarrow> edge \<Rightarrow> dial_env \<Rightarrow> fref \<Rightarrow> client \<Rightarrow> bool option \<times> net_event list" where
  "vetFront pf ed env f c =
     (case dialFront env (mem (c_pool c) f) (certPool pf c) (clientHelloID c) of
        (result, evs) \<Rightarrow>
          (case dr_conn result of
             None \<Rightarrow> (Some False, evs)
           | Some conn \<Rightarrow>
              (case providerFor c (mem (c_pool c) f) of
                 None \<Rightarrow> (Some False, evs @ [CloseRaw (conn_raw conn)])
               | Some provider \<Rightarrow>
                  (if TestURL provider = '''' then (Some False, evs @ [CloseRaw (conn_raw conn)])
                   else
                     case verifyWithPost pf ed False conn (TestURL provider) of
                       None \<Rightarrow> (None, evs)
                     | Some ok \<Rightarrow> (Some ok, evs @ [CloseRaw (conn_raw conn)])))))"

subsection \<open>The crawler\<close>

text \<open>
  One pass, \<open>crawlAllFronts\<close>: the loop takes candidates off \<open>todo\<close>, checks, then waits for a slot of
  the semaphore with \<open>pending\<close>; a goroutine is in \<open>started\<close> before its own check, in \<open>vetting\<close>
  during the vet, and in \<open>vetted\<close> after recording the result; it is in \<open>hung\<close> when its vet will never
  return, and then it keeps its slot. How the network and the edge of each candidate behave during the
  pass, in which it is vetted at most once, is in \<open>dials\<close> and \<open>edges\<close>.
\<close>

record crawl =
  cl :: client
  slots :: nat
  dials :: "fref \<Rightarrow> dial_env"
  edges :: "fref \<Rightarrow> edge"
  todo :: "fref list"
  pending :: "fref option"
  started :: "fref list"
  vetting :: "fref list"
  hung :: "fref list"
  vetted :: "fref list"

definition crawler_due :: "client \<Rightarrow> bool" where
  "crawler_due c \<longleftrightarrow> readyCount (c_pool c) < 2"

definition suspended :: "client \<Rightarrow> bool" where
  "suspended c \<longleftrightarrow> ctx_err c \<noteq> None \<or> isPaused (c_gate c)"

definition crawlAllFronts ::
  "(nat \<Rightarrow> nat) \<Rightarrow> (nat \<Rightarrow> nat) \<Rightarrow> (fref \<Rightarrow> dial_env) \<Rightarrow> (fref \<Rightarrow> edge) \<Rightarrow> client \<Rightarrow> crawl" where
  "crawlAllFronts ties draw envs eds c =
     \<lparr>cl = c, slots = nat (crawlerConcurrency c), dials = envs, edges = eds,
      todo = candidates ties draw (c_pool c), pending = None, started = [], vetting = [], hung = [], vetted = []\<rparr>"

definition vet_ok :: "gotime \<Rightarrow> fref \<Rightarrow> client \<Rightarrow> client" where
  "vet_ok now f c = notifyCacheDirty (on_pool (addReady f) (on_pool (markSucceeded now f) c))"

definition vet_bad :: "fref \<Rightarrow> client \<Rightarrow> client" where
  "vet_bad f c = notifyCacheDirty (on_pool (markFailed f) c)"

inductive crawl_step :: "platform \<Rightarrow> crawl \<Rightarrow> crawl \<Rightarrow> bool" for pf :: platform where
  stop: "todo s \<noteq> [] \<Longrightarrow> pending s = None \<Longrightarrow> suspended (cl s) \<or> 4 \<le> readyCount (c_pool (cl s)) \<Longrightarrow>
    crawl_step pf s (s\<lparr>todo := []\<rparr>)"
| go_on: "todo s = f # fs \<Longrightarrow> pending s = None \<Longrightarrow> \<not> suspended (cl s) \<Longrightarrow> readyCount (c_pool (cl s)) < 4 \<Longrightarrow>
    crawl_step pf s (s\<lparr>todo := fs, pending := Some f\<rparr>)"
| spawn: "pending s = Some f \<Longrightarrow> length (started s) + length (vetting s) + length (hung s) < slots s \<Longrightarrow>
    crawl_step pf s (s\<lparr>pending := None, started := f # started s\<rparr>)"
| skip: "f \<in> set (started s) \<Longrightarrow> suspended (cl s) \<Longrightarrow>
    crawl_step pf s (s\<lparr>started := remove1 f (started s)\<rparr>)"
| begin_vet: "f \<in> set (started s) \<Longrightarrow> \<not> suspended (cl s) \<Longrightarrow>
    crawl_step pf s (s\<lparr>started := remove1 f (started s), vetting := f # vetting s\<rparr>)"
| succeed: "f \<in> set (vetting s) \<Longrightarrow> fst (vetFront pf (edges s f) (dials s f) f (cl s)) = Some True \<Longrightarrow>
    crawl_step pf s (s\<lparr>cl := vet_ok now f (cl s), vetting := remove1 f (vetting s), vetted := f # vetted s\<rparr>)"
| fail: "f \<in> set (vetting s) \<Longrightarrow> fst (vetFront pf (edges s f) (dials s f) f (cl s)) = Some False \<Longrightarrow>
    crawl_step pf s (s\<lparr>cl := vet_bad f (cl s), vetting := remove1 f (vetting s), vetted := f # vetted s\<rparr>)"
| hang: "f \<in> set (vetting s) \<Longrightarrow> fst (vetFront pf (edges s f) (dials s f) f (cl s)) = None \<Longrightarrow>
    crawl_step pf s (s\<lparr>vetting := remove1 f (vetting s), hung := f # hung s\<rparr>)"

text \<open>The pass among other goroutines, whose steps on the client are those of \<open>R\<close>.\<close>

inductive crawl_among :: "platform \<Rightarrow> (client \<Rightarrow> client \<Rightarrow> bool) \<Rightarrow> crawl \<Rightarrow> crawl \<Rightarrow> bool"
  for pf :: platform and R :: "client \<Rightarrow> client \<Rightarrow> bool" where
  own: "crawl_step pf s t \<Longrightarrow> crawl_among pf R s t"
| others: "R (cl s) c \<Longrightarrow> crawl_among pf R s (s\<lparr>cl := c\<rparr>)"

definition crawl_finished :: "crawl \<Rightarrow> bool" where
  "crawl_finished s \<longleftrightarrow> todo s = [] \<and> pending s = None \<and> started s = [] \<and> vetting s = [] \<and> hung s = []"

subsection \<open>Saving the cache, and closing\<close>

definition saveCache ::
  "(cachedFront list \<Rightarrow> goerr + string) \<Rightarrow> write_outcome \<Rightarrow> (nat \<Rightarrow> nat) \<Rightarrow> (nat \<Rightarrow> nat) \<Rightarrow> client \<Rightarrow> disk \<Rightarrow> disk" where
  "saveCache json_Marshal out ties draw c d =
     snd (cache_Save json_Marshal out (c_cache c)
       (frontsToCache (candidates ties draw (c_pool c)) (maxCacheSize c) (c_pool c)) d)"

text \<open>What \<open>cacheSaver\<close> does when its timer fires and the gate lets it through.\<close>

definition cacheSaver_tick ::
  "(cachedFront list \<Rightarrow> goerr + string) \<Rightarrow> write_outcome \<Rightarrow> (nat \<Rightarrow> nat) \<Rightarrow> (nat \<Rightarrow> nat) \<Rightarrow> client \<Rightarrow> disk \<Rightarrow>
     client \<times> disk" where
  "cacheSaver_tick json_Marshal out ties draw c d =
     (if cacheDirty c then
        (let c' = c\<lparr>cacheDirty := False\<rparr> in (c', saveCache json_Marshal out ties draw c' d))
      else (c, d))"

definition client_Close ::
  "(cachedFront list \<Rightarrow> goerr + string) \<Rightarrow> write_outcome \<Rightarrow> (nat \<Rightarrow> nat) \<Rightarrow> (nat \<Rightarrow> nat) \<Rightarrow> client \<Rightarrow> disk \<Rightarrow>
     client \<times> disk" where
  "client_Close json_Marshal out ties draw c d =
     (let c1 = c\<lparr>ctx_err := (case ctx_err c of None \<Rightarrow> Some ErrCanceled | Some e \<Rightarrow> Some e)\<rparr>;
          c2 = on_pool pool_Close c1
      in (c2, saveCache json_Marshal out ties draw c2 d))"

subsection \<open>Facts about applying a config\<close>

lemma new_fronts_all:
  "new_fronts ms p = (fs, q) \<Longrightarrow>
     fs = [next_ref p ..< next_ref p + length ms] \<and> next_ref q = next_ref p + length ms \<and>
     fronts q = fronts p \<and> ready q = ready p \<and> ready_cap q = ready_cap p \<and> pool_closed q = pool_closed p \<and>
     (\<forall>f<next_ref p. mem q f = mem p f) \<and> (pool_wf p \<longrightarrow> pool_wf q) \<and>
     map (mem q) fs = map (\<lambda>(m, pid). newFront m pid) ms"
proof (induction ms arbitrary: p fs)
  case (Cons mp ms)
  obtain m pid where mp: "mp = (m, pid)" by fastforce
  define p1 where "p1 = snd (alloc_front m pid p)"
  have p1: "alloc_front m pid p = (next_ref p, p1)" "next_ref p1 = Suc (next_ref p)" "fronts p1 = fronts p"
    "ready p1 = ready p" "ready_cap p1 = ready_cap p" "pool_closed p1 = pool_closed p"
    "mem p1 = (mem p)(next_ref p := newFront m pid)"
    by (simp_all add: p1_def alloc_front_def)
  have wf: "pool_wf p \<Longrightarrow> pool_wf p1"
    by (simp add: p1_def alloc_front_wf)
  from Cons.prems obtain gs where gs: "new_fronts ms p1 = (gs, q)" "fs = next_ref p # gs"
    by (auto simp: mp p1 Let_def split: prod.splits)
  have m: "mem q (next_ref p) = newFront m pid"
    using Cons.IH [OF gs(1)] p1(2,7) by auto
  have up: "[next_ref p ..< next_ref p + length (mp # ms)] = next_ref p # [next_ref p1 ..< next_ref p1 + length ms]"
    by (simp add: p1(2) upt_conv_Cons del: upt_Suc)
  show ?case
    using Cons.IH [OF gs(1)] m wf unfolding up by (auto simp: p1 gs(2) mp)
qed simp

lemma new_fronts_spec:
  assumes "new_fronts ms p = (fs, q)"
  shows "fs = [next_ref p ..< next_ref p + length ms]" "next_ref q = next_ref p + length ms"
    "fronts q = fronts p" "ready q = ready p" "ready_cap q = ready_cap p" "pool_closed q = pool_closed p"
    "f < next_ref p \<Longrightarrow> mem q f = mem p f" "pool_wf p \<Longrightarrow> pool_wf q"
    "map (mem q) fs = map (\<lambda>(m, pid). newFront m pid) ms"
  using new_fronts_all [OF assms] by blast+

lemma expand_all_keys: "expand_all pf cc ps = Inr es \<Longrightarrow> map fst es = map fst ps"
  unfolding expand_all_def map_res_Inr_iff
  by (induction rule: list_all2_induct) (auto split: sum.splits)

lemma expand_all_in:
  assumes "expand_all pf cc ps = Inr es" "(pid, ep) \<in> set es"
  shows "\<exists>po. (pid, po) \<in> set ps \<and> ExpandedProvider (ulower pf) po cc = Inr ep"
  using map_res_in_set [OF assms(1) [unfolded expand_all_def] assms(2)] by (force split: sum.splits)

lemma applyConfig_ok:
  assumes "applyConfig pf draw cfg c = (None, c')"
  obtains certs es fs p1 where "provider_map cfg \<noteq> []" "CertPool (pem_ok pf) cfg = Inr certs"
    "expand_all pf (countryCode c) (provider_map cfg) = Inr es"
    "new_fronts (masquerades_of es) (c_pool c) = (fs, p1)"
    "c' = c\<lparr>providers := es, certPoolValue := Some certs, c_pool := Replace (rand_Shuffle draw fs) p1\<rparr>"
  using assms by (auto simp: applyConfig_def Let_def split: if_splits sum.splits fault.splits prod.splits)

text \<open>A call with a fault changes nothing.\<close>

lemma applyConfig_fault: "applyConfig pf draw cfg c = (Some e, c') \<Longrightarrow> c' = c"
  by (auto simp: applyConfig_def Let_def split: sum.splits fault.splits prod.splits if_splits)

lemma applied_cases:
  obtains (refused) e where "applyConfig pf draw cfg c = (Some e, c)"
  | (applied) c' where "applyConfig pf draw cfg c = (None, c')"
  using applyConfig_fault by (cases "applyConfig pf draw cfg c") (metis not_None_eq)

definition client_wf :: "client \<Rightarrow> bool" where
  "client_wf c \<longleftrightarrow> pool_wf (c_pool c) \<and> gate_wf (c_gate c) \<and> distinct (fronts (c_pool c)) \<and>
     (\<forall>f\<in>set (fronts (c_pool c)). f < next_ref (c_pool c))"

lemma distinct_rand_Shuffle: "distinct (rand_Shuffle draw xs) = distinct xs"
  by (rule mset_eq_imp_distinct_iff) simp

lemma distinct_candidates: "distinct (candidates ties draw p) = distinct (fronts p)"
  by (rule mset_eq_imp_distinct_iff) (rule mset_candidates)

lemma applyConfig_wf:
  assumes "applyConfig pf draw cfg c = (None, c')" "client_wf c"
  shows "client_wf c'"
  using assms(1)
proof (rule applyConfig_ok)
  fix certs es fs p1
  assume "new_fronts (masquerades_of es) (c_pool c) = (fs, p1)"
    "c' = c\<lparr>providers := es, certPoolValue := Some certs, c_pool := Replace (rand_Shuffle draw fs) p1\<rparr>"
  with assms(2) new_fronts_spec(1,2,8) [of "masquerades_of es" "c_pool c" fs p1] show ?thesis
    by (auto simp: client_wf_def Replace_wf Replace_fields distinct_rand_Shuffle)
qed

text \<open>
  The new fronts, before they are installed: one for each masquerade, none of them succeeding yet, and
  the fronts of the pool are as they were.
\<close>

lemma new_fronts_ident:
  assumes "new_fronts ms p = (fs, q)"
  shows "map (ident q) fs = ms" "f \<in> set fs \<Longrightarrow> LastSucceeded (mem q f) = zero_time"
    "f < next_ref p \<Longrightarrow> ident q f = ident p f"
proof -
  note m = new_fronts_spec(9) [OF assms]
  have "map (ident q) fs = map (\<lambda>fr. (masquerade.truncate fr, ProviderID fr)) (map (mem q) fs)"
    by (simp add: ident_def)
  also have "\<dots> = ms"
    unfolding m by (auto simp: newFront_def masquerade.defs intro!: map_idI)
  finally show "map (ident q) fs = ms" .
  show "LastSucceeded (mem q f) = zero_time" if "f \<in> set fs"
  proof -
    have "mem q f \<in> set (map (\<lambda>(m, pid). newFront m pid) ms)"
      using that m by (metis image_eqI list.set_map)
    then show ?thesis by (auto simp: newFront_def)
  qed
  show "ident q f = ident p f" if "f < next_ref p"
    using new_fronts_spec(7) [OF assms that] by (simp add: ident_def)
qed

text \<open>The success times of the new fronts, once installed, are those of the fronts they replace.\<close>

lemma Replace_new_fronts:
  assumes n: "new_fronts ms p = (fs, q)" and "\<forall>g\<in>set (fronts p). g < next_ref p" and "f \<in> set fs"
    and "set gs = set fs"
  shows "LastSucceeded (mem (Replace gs q) f) =
    (case find (\<lambda>g. key (mem p g) = key (mem (Replace gs q) f)) (rev (fronts p)) of
       Some g \<Rightarrow> LastSucceeded (mem p g) | None \<Rightarrow> zero_time)"
proof -
  note n' = new_fronts_spec [OF n]
  have old: "mem q g = mem p g" if "g \<in> set (fronts p)" for g
    using that assms(2) n'(7) by simp
  have disj: "set gs \<inter> set (fronts q) = {}"
    using n'(1,3) assms(2,4) by auto
  have k: "key (mem (Replace gs q) f) = key (mem q f)"
    by (metis Replace_fields(6) ident_key)
  have "find (\<lambda>g. key (mem q g) = k) (rev (fronts q)) = find (\<lambda>g. key (mem p g) = k) (rev (fronts p))" for k
    using n'(3) old by (auto intro!: find_cong)
  then have "inherited q f = find (\<lambda>g. key (mem p g) = key (mem q f)) (rev (fronts p))"
    by (simp add: inherited_def)
  moreover have "LastSucceeded (mem q g) = LastSucceeded (mem p g)"
    if "find (\<lambda>g. key (mem p g) = k) (rev (fronts p)) = Some g" for g k
    using find_Some_set [OF that] old by simp
  ultimately show ?thesis
    using assms(3,4) new_fronts_ident(2) [OF n assms(3)] unfolding k
    by (auto simp: Replace_LastSucceeded [OF disj] split: option.splits)
qed

text \<open>The pool after a config was applied: new fronts for exactly the config's masquerades.\<close>

lemma applyConfig_pool:
  assumes "applyConfig pf draw cfg c = (None, c')" "client_wf c"
  shows "ready (c_pool c') = []"
    "image_mset (ident (c_pool c')) (mset (fronts (c_pool c'))) = mset (masquerades_of (providers c'))"
    "f \<in> set (fronts (c_pool c')) \<Longrightarrow>
       LastSucceeded (mem (c_pool c') f) =
         (case find (\<lambda>g. key (mem (c_pool c) g) = key (mem (c_pool c') f)) (rev (fronts (c_pool c))) of
            Some g \<Rightarrow> LastSucceeded (mem (c_pool c) g) | None \<Rightarrow> zero_time)"
    "f \<in> set (fronts (c_pool c')) \<Longrightarrow> next_ref (c_pool c) \<le> f"
    "f < next_ref (c_pool c) \<Longrightarrow> ident (c_pool c') f = ident (c_pool c) f"
proof -
  from assms(1) obtain certs es fs p1 where
    n: "new_fronts (masquerades_of es) (c_pool c) = (fs, p1)" and
    c': "c' = c\<lparr>providers := es, certPoolValue := Some certs, c_pool := Replace (rand_Shuffle draw fs) p1\<rparr>"
    by (rule applyConfig_ok)
  note n' = new_fronts_spec [OF n] and id = new_fronts_ident [OF n]
  show "ready (c_pool c') = []"
    by (simp add: c' Replace_fields)
  show "image_mset (ident (c_pool c')) (mset (fronts (c_pool c'))) = mset (masquerades_of (providers c'))"
    using id(1) by (simp add: c' Replace_fields flip: mset_map)
  show "next_ref (c_pool c) \<le> f" if "f \<in> set (fronts (c_pool c'))"
    using that n'(1) by (simp add: c' Replace_fields)
  show "ident (c_pool c') f = ident (c_pool c) f" if "f < next_ref (c_pool c)"
    using id(3) [OF that] by (simp add: c' Replace_fields)
  show "LastSucceeded (mem (c_pool c') f) =
         (case find (\<lambda>g. key (mem (c_pool c) g) = key (mem (c_pool c') f)) (rev (fronts (c_pool c))) of
            Some g \<Rightarrow> LastSucceeded (mem (c_pool c) g) | None \<Rightarrow> zero_time)"
    if "f \<in> set (fronts (c_pool c'))"
    using Replace_new_fronts [OF n, of f "rand_Shuffle draw fs"] that assms(2)
    by (simp add: c' Replace_fields client_wf_def)
qed

subsection \<open>Facts about the crawler\<close>

lemma vetFront_eq:
  assumes "vetFront pf ed env f c = (ok, evs)"
  shows "ok = Some True \<longleftrightarrow> (\<exists>conn provider u resp.
      dr_conn (fst (dialFront env (mem (c_pool c) f) (certPool pf c) (clientHelloID c))) = Some conn \<and>
      providerFor c (mem (c_pool c) f) = Some provider \<and> TestURL provider \<noteq> '''' \<and>
      url_Parse pf (TestURL provider) = Inr u \<and> answers ed \<and>
      sendOverConn (e_tr ed) conn (vet_request u) True = Inr resp \<and> StatusCode resp = 202)"
  using assms
  by (auto simp: vetFront_def verifyWithPost_def split: prod.splits option.splits if_splits sum.splits)

lemma vetFront_hangs:
  assumes "vetFront pf ed env f c = (ok, evs)"
  shows "ok = None \<longleftrightarrow> (\<exists>conn provider u.
      dr_conn (fst (dialFront env (mem (c_pool c) f) (certPool pf c) (clientHelloID c))) = Some conn \<and>
      providerFor c (mem (c_pool c) f) = Some provider \<and> TestURL provider \<noteq> '''' \<and>
      url_Parse pf (TestURL provider) = Inr u \<and>
      (silent ed \<or> endless ed \<and> (\<exists>resp. sendOverConn (e_tr ed) conn (vet_request u) True = Inr resp)))"
  using assms
  by (auto simp: vetFront_def verifyWithPost_def split: prod.splits option.splits if_splits sum.splits)

lemma vetFront_answers: "answers ed \<Longrightarrow> \<exists>b. fst (vetFront pf ed env f c) = Some b"
  using vetFront_hangs [OF surjective_pairing, of pf ed env f c] by (cases "fst (vetFront pf ed env f c)") auto

lemma dialFront_events:
  assumes "dialFront env f rootCAs hid = (res, evs)" "Dialed a r \<in> set evs"
  shows "case dr_conn res of None \<Rightarrow> last evs = CloseRaw r | Some conn \<Rightarrow> conn_raw conn = r"
  using assms
  by (auto simp: dialFront_def dial_failed_def Let_def split: sum.splits option.splits if_splits)

lemma vetFront_closes:
  assumes "vetFront pf ed env f c = (Some ok, evs)" "Dialed a r \<in> set evs"
  shows "last evs = CloseRaw r"
  using assms dialFront_events [of env "mem (c_pool c) f" "certPool pf c" "clientHelloID c"]
  by (fastforce simp: vetFront_def split: prod.splits option.splits if_splits)

definition pending_list :: "crawl \<Rightarrow> fref list" where
  "pending_list s = (case pending s of None \<Rightarrow> [] | Some f \<Rightarrow> [f])"

definition in_flight :: "crawl \<Rightarrow> nat" where
  "in_flight s = length (started s) + length (vetting s) + length (hung s)"

definition crawl_inv :: "fref set \<Rightarrow> nat \<Rightarrow> crawl \<Rightarrow> bool" where
  "crawl_inv cands n s \<longleftrightarrow> slots s = n \<and> in_flight s \<le> n \<and>
     distinct (todo s @ pending_list s @ started s @ vetting s @ hung s @ vetted s) \<and>
     set (todo s @ pending_list s @ started s @ vetting s @ hung s @ vetted s) \<subseteq> cands \<and>
     (\<forall>f\<in>set (hung s). \<not> answers (edges s f))"

lemma crawl_inv_start:
  "distinct (fronts (c_pool c)) \<Longrightarrow>
     crawl_inv (set (fronts (c_pool c))) (nat (crawlerConcurrency c)) (crawlAllFronts ties draw envs eds c)"
  by (simp add: crawl_inv_def crawlAllFronts_def in_flight_def pending_list_def distinct_candidates set_candidates)

lemma length_remove1_Suc: "x \<in> set xs \<Longrightarrow> length xs = Suc (length (remove1 x xs))"
  by (induction xs) auto

lemma crawl_inv_own: "crawl_step pf s t \<Longrightarrow> crawl_inv cands n s \<Longrightarrow> crawl_inv cands n t"
proof (induction rule: crawl_step.induct)
  case (hang f s)
  have "\<not> answers (edges s f)"
    using hang.hyps(2) vetFront_answers [of "edges s f" pf "dials s f" f "cl s"] by auto
  with hang show ?case
    by (auto simp: crawl_inv_def in_flight_def pending_list_def dest: notin_set_remove1 length_remove1_Suc)
qed (auto simp: crawl_inv_def in_flight_def pending_list_def dest: notin_set_remove1 length_remove1_Suc)

text \<open>How the network behaves is fixed for the pass.\<close>

lemma crawl_step_net: "crawl_step pf s t \<Longrightarrow> dials t = dials s \<and> edges t = edges s \<and> slots t = slots s"
  by (induction rule: crawl_step.induct) simp_all

lemma crawl_among_net: "(crawl_among pf R)\<^sup>*\<^sup>* s t \<Longrightarrow> dials t = dials s \<and> edges t = edges s \<and> slots t = slots s"
proof (induction rule: rtranclp_induct)
  case (step t u)
  from step(2) have "dials u = dials t \<and> edges u = edges t \<and> slots u = slots t"
    by (cases rule: crawl_among.cases) (simp_all add: crawl_step_net)
  with step.IH show ?case by simp
qed simp

text \<open>A goroutine whose vet hangs is never heard of again.\<close>

lemma crawl_step_hung: "crawl_step pf s t \<Longrightarrow> set (hung s) \<subseteq> set (hung t)"
  by (induction rule: crawl_step.induct) auto

lemma crawl_step_hangs:
  "crawl_step pf s t \<Longrightarrow> f \<in> set (hung t) \<Longrightarrow> f \<notin> set (hung s) \<Longrightarrow> f \<in> set (vetting s) \<and> \<not> answers (edges s f)"
proof (induction rule: crawl_step.induct)
  case (hang g s)
  then show ?case
    using vetFront_answers [of "edges s g" pf "dials s g" g "cl s"] by auto
qed auto

lemma crawl_among_hung: "(crawl_among pf R)\<^sup>*\<^sup>* s t \<Longrightarrow> set (hung s) \<subseteq> set (hung t)"
proof (induction rule: rtranclp_induct)
  case (step t u)
  from step(2) have "set (hung t) \<subseteq> set (hung u)"
    by (cases rule: crawl_among.cases) (auto dest: crawl_step_hung)
  with step.IH show ?case by blast
qed simp

lemma crawl_inv_step: "crawl_among pf R s t \<Longrightarrow> crawl_inv cands n s \<Longrightarrow> crawl_inv cands n t"
proof (induction rule: crawl_among.induct)
  case (others s c)
  then show ?case by (simp add: crawl_inv_def in_flight_def pending_list_def)
qed (rule crawl_inv_own)

inductive_cases crawl_stepE: "crawl_step pf s t"

lemma begins_only_unsuspended:
  "crawl_step pf s t \<Longrightarrow> f \<in> set (vetting t) \<Longrightarrow> f \<notin> set (vetting s) \<Longrightarrow> \<not> suspended (cl s)"
  by (auto elim!: crawl_stepE dest: notin_set_remove1)

text \<open>What the pass has left to do.\<close>

definition crawl_work :: "crawl \<Rightarrow> nat" where
  "crawl_work s = 4 * length (todo s) + 3 * length (pending_list s) + 2 * length (started s) + length (vetting s)"

lemma crawl_step_work: "crawl_step pf s t \<Longrightarrow> crawl_work t < crawl_work s"
  by (induction rule: crawl_step.induct)
    (auto simp: crawl_work_def pending_list_def dest: length_remove1_Suc)

lemma crawl_not_stuck:
  assumes "0 < slots s" "hung s = []" "\<not> crawl_finished s"
  shows "\<exists>t. crawl_step pf s t"
proof (cases "started s = [] \<and> vetting s = []")
  case True
  then show ?thesis
  proof (cases "pending s")
    case None
    with True assms(2,3) obtain f fs where "todo s = f # fs"
      by (auto simp: crawl_finished_def neq_Nil_conv)
    with None show ?thesis
      by (metis crawl_step.stop crawl_step.go_on list.distinct(1) not_le)
  next
    case (Some f)
    with True assms(1,2) show ?thesis
      by (intro exI) (rule crawl_step.spawn, auto)
  qed
next
  case False
  then obtain f where "f \<in> set (started s) \<or> f \<in> set (vetting s)"
    by (metis last_in_set)
  moreover consider "fst (vetFront pf (edges s f) (dials s f) f (cl s)) = Some True"
    | "fst (vetFront pf (edges s f) (dials s f) f (cl s)) = Some False"
    | "fst (vetFront pf (edges s f) (dials s f) f (cl s)) = None"
    by (metis (full_types) not_None_eq)
  ultimately show ?thesis
    using crawl_step.skip crawl_step.begin_vet crawl_step.succeed crawl_step.fail crawl_step.hang by metis
qed

lemma readyCount_addReady: "readyCount (addReady f p) \<le> Suc (readyCount p)"
  by (simp add: readyCount_def addReady_def Let_def pool_simps)

lemma readyCount_vet:
  "readyCount (c_pool (vet_ok now f c)) \<le> Suc (readyCount (c_pool c))"
  "readyCount (c_pool (vet_bad f c)) = readyCount (c_pool c)"
  using readyCount_addReady [of f "markSucceeded now f (c_pool c)"]
  by (simp_all add: vet_ok_def vet_bad_def on_pool_def notifyCacheDirty_def markSucceeded_eq markFailed_eq
      readyCount_def pool_simps)

definition overshoot_inv :: "nat \<Rightarrow> crawl \<Rightarrow> bool" where
  "overshoot_inv n s \<longleftrightarrow> slots s = n \<and> in_flight s \<le> n \<and>
     readyCount (c_pool (cl s)) + in_flight s + length (pending_list s) \<le> n + 4"

lemma overshoot_inv_own:
  "crawl_step pf s t \<Longrightarrow> overshoot_inv n s \<Longrightarrow> overshoot_inv n t"
proof (induction rule: crawl_step.induct)
  case (succeed f s now)
  then show ?case
    using readyCount_vet(1) [of now f "cl s"] length_remove1_Suc [of f "vetting s"]
    by (simp add: overshoot_inv_def in_flight_def pending_list_def)
next
  case (fail f s)
  then show ?case
    using readyCount_vet(2) [of f "cl s"] length_remove1_Suc [of f "vetting s"]
    by (simp add: overshoot_inv_def in_flight_def pending_list_def)
qed (auto simp: overshoot_inv_def in_flight_def pending_list_def dest: length_remove1_Suc)

text \<open>What a pass that nothing interferes with has done so far.\<close>

definition delivers_inv :: "fref set \<Rightarrow> bool \<Rightarrow> crawl \<Rightarrow> bool" where
  "delivers_inv cands sus s \<longleftrightarrow> pool_ok (c_pool (cl s)) \<and> suspended (cl s) = sus \<and>
     (\<forall>f\<in>set (vetted s). isSucceeding f (c_pool (cl s)) \<longrightarrow>
        f \<in> set (ready (c_pool (cl s))) \<or> length (ready (c_pool (cl s))) = ready_cap (c_pool (cl s))) \<and>
     (sus \<or> 4 \<le> readyCount (c_pool (cl s)) \<or>
        set (todo s @ pending_list s @ started s @ vetting s @ hung s @ vetted s) = cands)"

lemma vet_fields [client_simps]:
  "suspended (vet_ok now f c) = suspended c" "suspended (vet_bad f c) = suspended c"
  "ready_cap (c_pool (vet_ok now f c)) = ready_cap (c_pool c)" "ready_cap (c_pool (vet_bad f c)) = ready_cap (c_pool c)"
  "ready (c_pool (vet_bad f c)) = ready (c_pool c)"
  "pool_ok (c_pool c) \<Longrightarrow> ready (c_pool (vet_ok now f c)) =
     (if f \<in> set (ready (c_pool c)) \<or> ready_cap (c_pool c) \<le> length (ready (c_pool c)) then ready (c_pool c)
      else ready (c_pool c) @ [f])"
  "pool_ok (c_pool c) \<Longrightarrow> pool_ok (c_pool (vet_ok now f c))" "pool_ok (c_pool c) \<Longrightarrow> pool_ok (c_pool (vet_bad f c))"
  "isSucceeding g (c_pool (vet_ok now f c)) = (if g = f then now \<noteq> zero_time else isSucceeding g (c_pool c))"
  "isSucceeding g (c_pool (vet_bad f c)) = (g \<noteq> f \<and> isSucceeding g (c_pool c))"
  using addReady_ready [OF setLastSucceeded_ok, of "c_pool c" f f now]
  by (auto simp: vet_ok_def vet_bad_def on_pool_def notifyCacheDirty_def suspended_def markSucceeded_eq markFailed_eq
      pool_simps pool_inv isSucceeding_def)

lemma delivers_inv_own: "crawl_step pf s t \<Longrightarrow> delivers_inv cands sus s \<Longrightarrow> delivers_inv cands sus t"
proof (induction rule: crawl_step.induct)
  case (stop s)
  then show ?case by (auto simp: delivers_inv_def)
next
  case (succeed f s now)
  have "length (ready (c_pool (cl s))) \<le> ready_cap (c_pool (cl s))"
    using succeed.prems by (simp add: delivers_inv_def pool_ok_def)
  with succeed show ?case
    by (auto simp: delivers_inv_def client_simps pending_list_def readyCount_def)
next
  case (fail f s)
  then show ?case
    by (auto simp: delivers_inv_def client_simps pending_list_def readyCount_def)
qed (auto simp: delivers_inv_def pending_list_def)

interpretation crawl_alone: invariant
  "\<lambda>s. \<exists>c ties draw envs eds. pool_ok (c_pool c) \<and> sus = suspended c \<and> cands = set (fronts (c_pool c)) \<and>
     s = crawlAllFronts ties draw envs eds c" "crawl_step pf" "delivers_inv cands sus" for pf cands sus
proof unfold_locales
  fix s assume "\<exists>c ties draw envs eds. pool_ok (c_pool c) \<and> sus = suspended c \<and> cands = set (fronts (c_pool c)) \<and>
     s = crawlAllFronts ties draw envs eds c"
  then show "delivers_inv cands sus s"
    by (auto simp: delivers_inv_def crawlAllFronts_def pending_list_def set_candidates)
qed (rule delivers_inv_own)

definition crawl_start :: "fref set \<Rightarrow> nat \<Rightarrow> crawl \<Rightarrow> bool" where
  "crawl_start cands n s \<longleftrightarrow> (\<exists>c ties draw envs eds. distinct (fronts (c_pool c)) \<and> cands = set (fronts (c_pool c)) \<and>
     n = nat (crawlerConcurrency c) \<and> s = crawlAllFronts ties draw envs eds c)"

lemma crawl_start_pass:
  "distinct (fronts (c_pool c)) \<Longrightarrow>
     crawl_start (set (fronts (c_pool c))) (nat (crawlerConcurrency c)) (crawlAllFronts ties draw envs eds c)"
  unfolding crawl_start_def by blast

interpretation crawl_run: invariant "crawl_start cands n" "crawl_among pf R" "crawl_inv cands n" for cands n pf R
  by unfold_locales (auto simp: crawl_start_def crawl_inv_start intro: crawl_inv_step)

interpretation crawl_ends: terminating "crawl_start cands n" "crawl_step pf" "crawl_inv cands n" crawl_work
  for cands n pf
  by unfold_locales (auto simp: crawl_start_def crawl_inv_start intro: crawl_inv_own crawl_step_work)

lemma crawl_work_start: "crawl_work (crawlAllFronts ties draw envs eds c) = 4 * length (fronts (c_pool c))"
  using arg_cong [OF mset_candidates, of size] by (simp add: crawl_work_def crawlAllFronts_def pending_list_def)

lemma crawl_work_cl [simp]: "crawl_work (s\<lparr>cl := c\<rparr>) = crawl_work s"
  by (simp add: crawl_work_def pending_list_def)

lemma crawl_among_work: "(crawl_among pf R)\<^sup>*\<^sup>* s t \<Longrightarrow> crawl_work t \<le> crawl_work s"
proof (induction rule: rtranclp_induct)
  case (step t u)
  from step(2) have "crawl_work u \<le> crawl_work t"
    by (cases rule: crawl_among.cases) (auto dest: crawl_step_work)
  with step.IH show ?case by simp
qed simp

definition crawl_start_due :: "nat \<Rightarrow> crawl \<Rightarrow> bool" where
  "crawl_start_due n s \<longleftrightarrow> (\<exists>c ties draw envs eds. crawler_due c \<and> n = nat (crawlerConcurrency c) \<and>
     s = crawlAllFronts ties draw envs eds c)"

definition only_takes :: "client \<Rightarrow> client \<Rightarrow> bool" where
  "only_takes c c' \<longleftrightarrow> readyCount (c_pool c') \<le> readyCount (c_pool c)"

lemma overshoot_inv_step: "crawl_among pf only_takes s t \<Longrightarrow> overshoot_inv n s \<Longrightarrow> overshoot_inv n t"
proof (induction rule: crawl_among.induct)
  case (others s c)
  then show ?case by (simp add: overshoot_inv_def in_flight_def pending_list_def only_takes_def)
qed (rule overshoot_inv_own)

interpretation crawl_run_due: invariant "crawl_start_due n" "crawl_among pf only_takes" "overshoot_inv n" for n pf
proof unfold_locales
  show "crawl_start_due n s \<Longrightarrow> overshoot_inv n s" for s
    by (auto simp: crawl_start_due_def crawler_due_def overshoot_inv_def crawlAllFronts_def in_flight_def pending_list_def)
qed (rule overshoot_inv_step)

lemma CertPool_Inr_iff: "(\<exists>r. CertPool_from ok i cas pool = Inr r) \<longleftrightarrow> list_all (ca_ok ok) cas"
  by (induction ok i cas pool rule: CertPool_from.induct) (auto simp: ca_ok_def)

lemma CertPool_Panicked: "CertPool_from ok i cas pool = Inl Panicked \<Longrightarrow> None \<in> set cas"
  by (induction ok i cas pool rule: CertPool_from.induct) (auto split: if_splits)

definition provider_ok :: "provider option \<Rightarrow> bool" where
  "provider_ok po = (case po of None \<Rightarrow> False | Some p \<Rightarrow> None \<notin> set (Masquerades p))"

lemma ExpandedProvider_cases:
  "if provider_ok po then \<exists>ep. ExpandedProvider u po cc = Inr ep else ExpandedProvider u po cc = Inl Panicked"
proof (cases po)
  case (Some p)
  have "(\<exists>ys. map_res (expand_masquerade p c) (Masquerades p) = Inr ys) \<longleftrightarrow> None \<notin> set (Masquerades p)" for c
    unfolding map_res_ok_iff using expand_masquerade_Some expand_masquerade_None
    by (metis not_None_eq sum.distinct(1))
  with Some show ?thesis
    by (auto simp: ExpandedProvider_def provider_ok_def split: sum.splits
        dest!: map_res_Inl_ex expand_masquerade_Inl)
qed (simp add: ExpandedProvider_def provider_ok_def)

lemma expand_all_cases:
  "if list_all (\<lambda>(pid, po). provider_ok po) ps then \<exists>es. expand_all pf cc ps = Inr es
   else expand_all pf cc ps = Inl Panicked"
proof (induction ps)
  case (Cons x ps)
  obtain pid po where x: "x = (pid, po)" by fastforce
  show ?case
    using ExpandedProvider_cases [of po "ulower pf" cc] Cons.IH
    by (auto simp: expand_all_def x split: if_splits sum.splits)
qed (simp add: expand_all_def)

lemma applyConfig_outcomes:
  "case applyConfig pf draw cfg c of
     (None, c') \<Rightarrow> provider_map cfg \<noteq> [] \<and> list_all (ca_ok (pem_ok pf)) (TrustedCAs cfg) \<and>
       list_all (\<lambda>(pid, po). provider_ok po) (provider_map cfg)
   | (Some (Returned e), c') \<Rightarrow> c' = c \<and>
       (if provider_map cfg = [] then e = ErrText ''no providers configured''
        else \<not> list_all (ca_ok (pem_ok pf)) (TrustedCAs cfg) \<and>
          (\<exists>e'. CertPool (pem_ok pf) cfg = Inl (Returned e') \<and> e = ErrWrap ''cert pool'' e'))
   | (Some Panicked, c') \<Rightarrow> c' = c \<and> provider_map cfg \<noteq> [] \<and>
       (if list_all (ca_ok (pem_ok pf)) (TrustedCAs cfg)
        then list_ex (\<lambda>(pid, po). \<not> provider_ok po) (provider_map cfg) else None \<in> set (TrustedCAs cfg))"
proof -
  have 1: "list_all (ca_ok (pem_ok pf)) (TrustedCAs cfg)" if "CertPool (pem_ok pf) cfg = Inr r" for r
    using that CertPool_Inr_iff [of "pem_ok pf" 0 "TrustedCAs cfg" "[]"] by (auto simp: CertPool_def)
  have 2: "None \<in> set (TrustedCAs cfg)" if "CertPool (pem_ok pf) cfg = Inl Panicked"
    using that CertPool_Panicked [of "pem_ok pf" 0 "TrustedCAs cfg" "[]"] by (simp add: CertPool_def)
  have 5: "\<not> list_all (ca_ok (pem_ok pf)) (TrustedCAs cfg)" if "CertPool (pem_ok pf) cfg = Inl e" for e
    using that CertPool_Inr_iff [of "pem_ok pf" 0 "TrustedCAs cfg" "[]"] by (auto simp: CertPool_def)
  have 3: "if list_all (\<lambda>(pid, po). provider_ok po) (provider_map cfg)
     then \<exists>es. expand_all pf (countryCode c) (provider_map cfg) = Inr es
     else expand_all pf (countryCode c) (provider_map cfg) = Inl Panicked"
    by (rule expand_all_cases)
  have 4: "list_ex (\<lambda>(pid, po). \<not> provider_ok po) (provider_map cfg)"
    if "\<not> list_all (\<lambda>(pid, po). provider_ok po) (provider_map cfg)"
    using that by (auto simp: list_all_iff list_ex_iff)
  show ?thesis
    using 1 2 3 4 5 by (auto simp: applyConfig_def Let_def split: sum.splits fault.splits prod.splits if_splits)
qed

text \<open>A config with a null where a provider, a masquerade or a CA belongs.\<close>

definition holds_null :: "config \<Rightarrow> bool" where
  "holds_null cfg \<longleftrightarrow> None \<in> set (TrustedCAs cfg) \<or> list_ex (\<lambda>(pid, po). \<not> provider_ok po) (provider_map cfg)"

lemma applyConfig_panics: "applyConfig pf draw cfg c = (Some Panicked, c') \<Longrightarrow> holds_null cfg"
  using applyConfig_outcomes [where pf = pf and draw = draw and cfg = cfg and c = c] by (auto simp: holds_null_def split: if_splits)

lemma gate_paused:
  "gate_wf (c_gate c) \<Longrightarrow> isPaused (c_gate (Pause c))" "c_pool (Pause c) = c_pool c" "cacheDirty (Pause c) = cacheDirty c"
  by (simp_all add: Pause_def pause_wf)

subsection \<open>Properties\<close>

text \<open>
  C20: a config is applied exactly when it has a provider, all its trusted CAs parse, and neither it nor
  a provider holds a null; a config without providers or with a CA that does not parse is refused with
  an error; a null is dereferenced. A config that is not applied leaves the whole client as it was: no
  provider, no root and no front of it is installed before the last check has passed.
\<close>

theorem applyConfig_outcome:
  "case applyConfig pf draw cfg c of
     (None, c') \<Rightarrow> provider_map cfg \<noteq> [] \<and> list_all (ca_ok (pem_ok pf)) (TrustedCAs cfg) \<and>
       list_all (\<lambda>(pid, po). provider_ok po) (provider_map cfg)
   | (Some (Returned e), c') \<Rightarrow> c' = c \<and>
       (if provider_map cfg = [] then e = ErrText ''no providers configured''
        else \<not> list_all (ca_ok (pem_ok pf)) (TrustedCAs cfg) \<and>
          (\<exists>e'. CertPool (pem_ok pf) cfg = Inl (Returned e') \<and> e = ErrWrap ''cert pool'' e'))
   | (Some Panicked, c') \<Rightarrow> c' = c \<and> provider_map cfg \<noteq> [] \<and>
       (if list_all (ca_ok (pem_ok pf)) (TrustedCAs cfg)
        then list_ex (\<lambda>(pid, po). \<not> provider_ok po) (provider_map cfg) else None \<in> set (TrustedCAs cfg))"
  by (rule applyConfig_outcomes)

text \<open>
  C21: applying a config installs it completely: the pool's fronts are one new front for each masquerade
  of each expanded provider, none is ready, and the providers are the config's, expanded for the
  client's country. What was learned is kept: a new front starts with the success time of the old front
  with the same provider, domain and address, and as never succeeded when there is none.
\<close>

theorem applyConfig_installs:
  assumes "applyConfig pf draw cfg c = (None, c')" and "client_wf c"
  shows "client_wf c' \<and> ready (c_pool c') = [] \<and> map fst (providers c') = map fst (provider_map cfg) \<and>
    (\<forall>(pid, ep) \<in> set (providers c').
       \<exists>po. (pid, po) \<in> set (provider_map cfg) \<and> ExpandedProvider (ulower pf) po (countryCode c) = Inr ep) \<and>
    image_mset (ident (c_pool c')) (mset (fronts (c_pool c'))) = mset (masquerades_of (providers c')) \<and>
    (\<forall>f\<in>set (fronts (c_pool c')). f \<notin> set (fronts (c_pool c)) \<and>
       LastSucceeded (mem (c_pool c') f) =
         (case find (\<lambda>g. key (mem (c_pool c) g) = key (mem (c_pool c') f)) (rev (fronts (c_pool c))) of
            Some g \<Rightarrow> LastSucceeded (mem (c_pool c) g) | None \<Rightarrow> zero_time))"
proof -
  from assms(1) obtain es where es: "providers c' = es"
    "expand_all pf (countryCode c) (provider_map cfg) = Inr es"
    by (elim applyConfig_ok) simp
  have "f \<notin> set (fronts (c_pool c))" if "f \<in> set (fronts (c_pool c'))" for f
    using applyConfig_pool(4) [OF assms that] assms(2) by (auto simp: client_wf_def)
  then show ?thesis
    using applyConfig_wf [OF assms] applyConfig_pool(1,2,3) [OF assms] expand_all_keys [OF es(2)]
      expand_all_in [OF es(2)] by (auto simp: es(1))
qed

definition sample_platform :: platform where
  "sample_platform =
     \<lparr>ulower = (\<lambda>s. s), pem_ok = (\<lambda>s. s \<noteq> ''''), codecs_of = sample_codecs, SystemCertPool = Inr [],
      url_Parse = (\<lambda>s. Inr \<lparr>u_Scheme = ''https'', u_Host = s, u_rest = ''/''\<rparr>),
      valid_field_value = (\<lambda>v. CHR 0x0D \<notin> set v \<and> CHR 0x0A \<notin> set v)\<rparr>"

definition sample_config :: config where
  "sample_config = \<lparr>TrustedCAs = [], Providers = Some [(''cloudfront'', Some sample_provider)]\<rparr>"

definition sample_client :: client where
  "sample_client = default_client None \<lparr>hello_Client = ''Chrome'', hello_Version = ''131''\<rparr>"

lemma newFrontPool_fields:
  "fronts (newFrontPool n) = []" "ready (newFrontPool n) = []" "next_ref (newFrontPool n) = 0"
  by (simp_all add: newFrontPool_def)

lemma sample_client_wf: "client_wf sample_client"
  by (simp add: client_wf_def sample_client_def default_client_def newFrontPool_wf newPauseGate_wf newFrontPool_fields)

definition sample_edge :: masquerade where
  "sample_edge = sample_masquerade\<lparr>VerifyHostname := Some ''d5678.cloudfront.net''\<rparr>"

lemma sample_apply:
  "applyConfig sample_platform id sample_config sample_client =
     (None, sample_client\<lparr>providers := [(''cloudfront'', sample_expanded)], certPoolValue := Some [],
       c_pool := Replace [0] (snd (alloc_front sample_edge ''cloudfront'' (newFrontPool 0)))\<rparr>)"
proof -
  have 1: "masquerades_of [(''cloudfront'', sample_expanded)] = [(sample_edge, ''cloudfront'')]"
    by (simp add: masquerades_of_def sample_expanded_def sample_edge_def)
  have 2: "expand_all sample_platform '''' [(''cloudfront'', Some sample_provider)] = Inr [(''cloudfront'', sample_expanded)]"
    by (simp add: expand_all_def sample_platform_def sample_expansion)
  have 3: "provider_map sample_config = [(''cloudfront'', Some sample_provider)]"
    by (simp add: provider_map_def sample_config_def)
  have 4: "c_pool sample_client = newFrontPool 0" "countryCode sample_client = ''''"
    by (simp_all add: sample_client_def default_client_def)
  have 5: "CertPool (pem_ok sample_platform) sample_config = Inr []"
    by (simp add: CertPool_def sample_config_def)
  have 6: "alloc_front m pid (newFrontPool 0) = (0, snd (alloc_front m pid (newFrontPool 0)))" for m pid
    by (simp add: alloc_front_def newFrontPool_fields)
  have 7: "new_fronts [(sample_edge, ''cloudfront'')] (newFrontPool 0) =
      ([0], snd (alloc_front sample_edge ''cloudfront'' (newFrontPool 0)))"
    by (subst new_fronts.simps, subst 6) simp
  show ?thesis
    unfolding applyConfig_def 3 4 5 by (simp add: 1 2 4 7 rand_Shuffle_def Let_def del: new_fronts.simps)
qed

theorem applyConfig_installs_witness:
  "\<exists>c'. applyConfig sample_platform id sample_config sample_client = (None, c') \<and> ready (c_pool c') = [] \<and>
     image_mset (ident (c_pool c')) (mset (fronts (c_pool c'))) = {#(sample_edge, ''cloudfront'')#}"
proof -
  obtain c' where c': "applyConfig sample_platform id sample_config sample_client = (None, c')"
    "providers c' = [(''cloudfront'', sample_expanded)]"
    using sample_apply by simp
  have "masquerades_of (providers c') = [(sample_edge, ''cloudfront'')]"
    by (simp add: c' masquerades_of_def sample_expanded_def sample_edge_def)
  with applyConfig_installs [OF c'(1) sample_client_wf] c'(1) show ?thesis by auto
qed

text \<open>
  C22: a crawl pass vets each candidate at most once, never has more goroutines than \<open>crawlerConcurrency\<close>
  (those whose vet never returns included), and begins no vet while the client is paused or its context
  has ended, whatever other goroutines do to the client in between.
\<close>

theorem crawl_is_bounded:
  assumes "distinct (fronts (c_pool c))" and "(crawl_among pf R)\<^sup>*\<^sup>* (crawlAllFronts ties draw envs eds c) s"
  shows "distinct (started s @ vetting s @ hung s @ vetted s) \<and>
    set (started s @ vetting s @ hung s @ vetted s) \<subseteq> set (fronts (c_pool c)) \<and>
    length (started s) + length (vetting s) + length (hung s) \<le> nat (crawlerConcurrency c) \<and>
    (\<forall>t f. crawl_step pf s t \<longrightarrow> f \<in> set (vetting t) \<longrightarrow> f \<notin> set (vetting s) \<longrightarrow>
       ctx_err (cl s) = None \<and> \<not> isPaused (c_gate (cl s)))"
proof -
  have "crawl_inv (set (fronts (c_pool c))) (nat (crawlerConcurrency c)) s"
    by (rule crawl_run.inv_reachable [OF crawl_start_pass [OF assms(1)] assms(2)])
  then show ?thesis
    using begins_only_unsuspended [of pf s] by (auto simp: crawl_inv_def in_flight_def suspended_def)
qed

definition sample_crawl_client :: client where
  "sample_crawl_client = sample_client\<lparr>c_pool := sample_pool\<rparr>"

lemma sample_crawl_client_fields:
  "c_pool sample_crawl_client = sample_pool" "crawlerConcurrency sample_crawl_client = 10"
  by (simp_all add: sample_crawl_client_def sample_client_def default_client_def)

definition one_front_client :: client where
  "one_front_client = sample_client\<lparr>c_pool := (newFrontPool 0)\<lparr>next_ref := 1, fronts := [0]\<rparr>\<rparr>"

lemma one_front_client_fields:
  "pool_ok (c_pool one_front_client)" "ctx_err one_front_client = None" "\<not> isPaused (c_gate one_front_client)"
  "fronts (c_pool one_front_client) = [0]" "ready (c_pool one_front_client) = []" "crawlerConcurrency one_front_client = 10"
  using newFrontPool_ok
  by (simp_all add: one_front_client_def sample_client_def default_client_def newFrontPool_fields newPauseGate_wf
      pool_ok_def)

definition refusing_env :: dial_env where
  "refusing_env = sample_dial_env\<lparr>DialContext := \<lambda>_. Inl (ErrOp ''dial tcp'' (ErrErrno EHOSTUNREACH))\<rparr>"

definition sample_answers :: "int \<Rightarrow> edge" where
  "sample_answers code = \<lparr>e_tr = sample_transports code, silent = False, endless = False\<rparr>"

lemma refused_vet: "fst (vetFront pf ed refusing_env f c) = Some False"
  by (simp add: vetFront_def refusing_env_def dialFront_def dial_failed_def Let_def)

abbreviation one_front_crawl :: crawl where
  "one_front_crawl \<equiv> crawlAllFronts id id (\<lambda>_. refusing_env) (\<lambda>_. sample_answers 202) one_front_client"

text \<open>The first steps of a pass over one front.\<close>

lemma one_front_starts:
  assumes "fronts (c_pool c) = [f]" and "\<not> suspended c" and "readyCount (c_pool c) < 4" and "1 \<le> crawlerConcurrency c"
  shows "(crawl_step pf)\<^sup>*\<^sup>* (crawlAllFronts ties draw envs eds c)
    ((crawlAllFronts ties draw envs eds c)\<lparr>todo := [], vetting := [f]\<rparr>)"
proof -
  let ?n = "nat (crawlerConcurrency c)"
  let ?s = "\<lambda>td p st ve. \<lparr>cl = c, slots = ?n, dials = envs, edges = eds, todo = td, pending = p, started = st,
    vetting = ve, hung = [], vetted = []\<rparr>"
  have "mset (candidates ties draw (c_pool c)) = {#f#}"
    by (simp add: mset_candidates assms(1))
  then have 0: "crawlAllFronts ties draw envs eds c = ?s [f] None [] []"
    by (simp add: crawlAllFronts_def)
  have 1: "crawl_step pf (?s [f] None [] []) (?s [] (Some f) [] [])"
    using crawl_step.go_on [of "?s [f] None [] []" f "[]" pf] assms(2,3) by simp
  have 2: "crawl_step pf (?s [] (Some f) [] []) (?s [] None [f] [])"
    using crawl_step.spawn [of "?s [] (Some f) [] []" f pf] assms(4) by simp
  have 3: "crawl_step pf (?s [] None [f] []) (?s [] None [] [f])"
    using crawl_step.begin_vet [of f "?s [] None [f] []" pf] assms(2) by simp
  from 1 2 3 show ?thesis
    unfolding 0 by simp
qed

lemma one_front_vet: "(crawl_step pf)\<^sup>*\<^sup>* (crawlAllFronts ties draw envs eds one_front_client)
    ((crawlAllFronts ties draw envs eds one_front_client)\<lparr>todo := [], vetting := [0]\<rparr>)"
  by (rule one_front_starts) (simp_all add: one_front_client_fields suspended_def readyCount_def)

lemma crawl_alone_among: "(crawl_step pf)\<^sup>*\<^sup>* s t \<Longrightarrow> (crawl_among pf R)\<^sup>*\<^sup>* s t"
  by (induction rule: rtranclp_induct) (auto intro: rtranclp.rtrancl_into_rtrancl crawl_among.own)

theorem crawl_is_bounded_witness:
  "\<exists>s. (crawl_among sample_platform (\<lambda>_ _. False))\<^sup>*\<^sup>* one_front_crawl s \<and>
     vetting s = [0] \<and> length (started s) + length (vetting s) + length (hung s) \<le> 10"
proof -
  have d: "distinct (fronts (c_pool one_front_client))"
    by (simp add: one_front_client_fields)
  let ?s = "one_front_crawl\<lparr>todo := [], vetting := [0]\<rparr>"
  have r: "(crawl_among sample_platform (\<lambda>_ _. False))\<^sup>*\<^sup>* one_front_crawl ?s"
    by (rule crawl_alone_among [OF one_front_vet])
  from crawl_is_bounded [OF d r]
  have "length (started ?s) + length (vetting ?s) + length (hung ?s) \<le> 10"
    unfolding one_front_client_fields(6) by simp
  with r show ?thesis
    by (intro exI [of _ ?s]) simp
qed

text \<open>
  C23: a crawl pass ends unless an edge keeps it waiting: with the work that is left, at most four steps
  for each candidate, every step of its own uses some up and no step of another goroutine adds to it; and
  a pass that can go no further has ended, unless the vet of some candidate hangs, which happens only if
  the candidate's edge accepted the connection and then never answered the POST or never ended its
  answer. A pass in which a vet hangs never ends. With a slot there is no other way to get stuck: the
  clamp of \<open>crawlerConcurrency\<close> to at least 1 is what rules a deadlock on the semaphore out.
\<close>

theorem crawl_pass_ends:
  assumes "distinct (fronts (c_pool c))" and "1 \<le> crawlerConcurrency c"
    and "(crawl_among pf R)\<^sup>*\<^sup>* (crawlAllFronts ties draw envs eds c) s"
  shows "(\<forall>t. crawl_step pf s t \<longrightarrow> crawl_work t < crawl_work s) \<and> crawl_work s \<le> 4 * length (fronts (c_pool c)) \<and>
    (\<forall>c'. crawl_work (s\<lparr>cl := c'\<rparr>) = crawl_work s) \<and>
    ((\<nexists>t. crawl_step pf s t) \<longrightarrow> (crawl_finished s \<longleftrightarrow> hung s = [])) \<and>
    (\<forall>f\<in>set (hung s). (silent (eds f) \<or> endless (eds f)) \<and>
       (\<forall>t. (crawl_among pf R)\<^sup>*\<^sup>* s t \<longrightarrow> \<not> crawl_finished t))"
proof -
  have s: "crawl_inv (set (fronts (c_pool c))) (nat (crawlerConcurrency c)) s"
    by (rule crawl_run.inv_reachable [OF crawl_start_pass [OF assms(1)] assms(3)])
  then have slots: "0 < slots s" and h: "\<forall>f\<in>set (hung s). \<not> answers (edges s f)"
    using assms(2) by (auto simp: crawl_inv_def)
  have "edges s = eds"
    using crawl_among_net [OF assms(3)] by (simp add: crawlAllFronts_def)
  with h have "\<forall>f\<in>set (hung s). silent (eds f) \<or> endless (eds f)"
    by simp
  moreover have "(\<nexists>t. crawl_step pf s t) \<longrightarrow> (crawl_finished s \<longleftrightarrow> hung s = [])"
    using crawl_not_stuck [OF slots] unfolding crawl_finished_def by blast
  moreover have "crawl_work s \<le> 4 * length (fronts (c_pool c))"
    using crawl_among_work [OF assms(3)] by (simp add: crawl_work_start)
  moreover have "\<not> crawl_finished t" if "f \<in> set (hung s)" "(crawl_among pf R)\<^sup>*\<^sup>* s t" for f t
    using crawl_among_hung [OF that(2)] that(1) by (auto simp: crawl_finished_def)
  ultimately show ?thesis
    using crawl_step_work by auto
qed

text \<open>A pass in which every edge answers can always be finished, and nothing but its end stops it.\<close>

corollary answered_pass_ends:
  assumes "distinct (fronts (c_pool c))" and "1 \<le> crawlerConcurrency c" and "\<forall>f. answers (eds f)"
    and "(crawl_among pf R)\<^sup>*\<^sup>* (crawlAllFronts ties draw envs eds c) s"
  shows "\<exists>t. (crawl_step pf)\<^sup>*\<^sup>* s t \<and> crawl_finished t"
proof -
  let ?inv = "crawl_inv (set (fronts (c_pool c))) (nat (crawlerConcurrency c))"
  have s: "?inv s"
    by (rule crawl_run.inv_reachable [OF crawl_start_pass [OF assms(1)] assms(4)])
  from crawl_ends.run_ends [OF this] obtain t where t: "(crawl_step pf)\<^sup>*\<^sup>* s t" "?inv t" "\<nexists>u. crawl_step pf t u"
    by blast
  have "edges t = eds"
    using crawl_among_net [OF rtranclp_trans [OF assms(4) crawl_alone_among [OF t(1)]]] by (simp add: crawlAllFronts_def)
  with t(2) assms(3) have "hung t = []"
    by (auto simp: crawl_inv_def)
  with t assms(2) have "crawl_finished t"
    using crawl_not_stuck [of t pf] by (auto simp: crawl_inv_def)
  with t(1) show ?thesis by blast
qed

text \<open>The pass over one front that cannot be dialed.\<close>

lemma one_front_pass:
  "(crawl_step sample_platform)\<^sup>*\<^sup>* one_front_crawl
     (one_front_crawl\<lparr>cl := vet_bad 0 one_front_client, todo := [], vetted := [0]\<rparr>)"
proof -
  let ?s = "one_front_crawl\<lparr>todo := [], vetting := [0]\<rparr>"
  have "fst (vetFront sample_platform (edges ?s 0) (dials ?s 0) 0 (cl ?s)) = Some False"
    by (simp add: crawlAllFronts_def refused_vet)
  then have "crawl_step sample_platform ?s (?s\<lparr>cl := vet_bad 0 (cl ?s), vetting := remove1 0 (vetting ?s), vetted := 0 # vetted ?s\<rparr>)"
    by (intro crawl_step.fail) simp_all
  with one_front_vet [of sample_platform id id "\<lambda>_. refusing_env" "\<lambda>_. sample_answers 202"] show ?thesis
    by (simp add: crawlAllFronts_def rtranclp.rtrancl_into_rtrancl)
qed

theorem crawl_pass_ends_witness:
  "\<exists>s. (crawl_among sample_platform (\<lambda>_ _. False))\<^sup>*\<^sup>* one_front_crawl s \<and> vetted s = [0] \<and> crawl_finished s"
proof -
  have d: "distinct (fronts (c_pool one_front_client))" and k: "1 \<le> crawlerConcurrency one_front_client"
    by (simp_all add: one_front_client_fields)
  let ?t = "one_front_crawl\<lparr>cl := vet_bad 0 one_front_client, todo := [], vetted := [0]\<rparr>"
  have r: "(crawl_among sample_platform (\<lambda>_ _. False))\<^sup>*\<^sup>* one_front_crawl ?t"
    by (rule crawl_alone_among [OF one_front_pass])
  have "\<nexists>t. crawl_step sample_platform ?t t"
    by (auto elim!: crawl_stepE simp: crawlAllFronts_def)
  with crawl_pass_ends [OF d k r] have "crawl_finished ?t \<longleftrightarrow> hung ?t = []"
    by blast
  with r show ?thesis
    by (intro exI [of _ ?t]) (simp add: crawlAllFronts_def)
qed

text \<open>
  A crawl pass stops soon after four fronts are ready: a pass that begins when it is due, while
  other goroutines only take fronts, never brings the ready queue above \<open>crawlerConcurrency\<close> + 4, the
  vets in flight and the one waiting for a slot when the fourth front got ready.
\<close>

theorem crawl_overshoot_bounded:
  assumes "crawler_due c"
    and "(crawl_among pf (\<lambda>c c'. readyCount (c_pool c') \<le> readyCount (c_pool c)))\<^sup>*\<^sup>*
      (crawlAllFronts ties draw envs eds c) s"
  shows "readyCount (c_pool (cl s)) \<le> nat (crawlerConcurrency c) + 4"
proof -
  have "overshoot_inv (nat (crawlerConcurrency c)) s"
    using assms unfolding only_takes_def [symmetric, abs_def]
    by (intro crawl_run_due.inv_reachable) (unfold crawl_start_due_def, blast+)
  then show ?thesis by (simp add: overshoot_inv_def)
qed

theorem crawl_overshoot_bounded_witness:
  "readyCount (c_pool (cl (crawlAllFronts id id (\<lambda>_. refusing_env) (\<lambda>_. sample_answers 202) sample_client))) \<le> 14"
proof -
  have 1: "crawler_due sample_client" "crawlerConcurrency sample_client = 10"
    by (simp_all add: crawler_due_def sample_client_def default_client_def readyCount_def newFrontPool_fields)
  show ?thesis
    using crawl_overshoot_bounded [OF 1(1) rtranclp.rtrancl_refl, of id id "\<lambda>_. refusing_env" "\<lambda>_. sample_answers 202"] 1(2) by simp
qed

text \<open>
  C24: a crawl pass does its work: one that is neither suspended nor interfered with ends with at least four
  fronts ready, or with every candidate vetted; and then each candidate that is recorded as succeeding
  is in the ready queue, unless the queue is full.
\<close>

theorem crawl_pass_delivers:
  assumes "pool_ok (c_pool c)" and "ctx_err c = None" and "\<not> isPaused (c_gate c)"
    and "(crawl_step pf)\<^sup>*\<^sup>* (crawlAllFronts ties draw envs eds c) s"
    and "todo s = []" and "pending s = None" and "started s = []" and "vetting s = []" and "hung s = []"
  shows "4 \<le> readyCount (c_pool (cl s)) \<or>
    set (vetted s) = set (fronts (c_pool c)) \<and>
    (\<forall>f\<in>set (fronts (c_pool c)). isSucceeding f (c_pool (cl s)) \<longrightarrow>
       f \<in> set (ready (c_pool (cl s))) \<or> length (ready (c_pool (cl s))) = ready_cap (c_pool (cl s)))"
proof -
  have "False = suspended c"
    using assms(2,3) by (simp add: suspended_def)
  with assms(1) have "delivers_inv (set (fronts (c_pool c))) False s"
    by (intro crawl_alone.inv_reachable [OF _ assms(4)]) blast
  with assms(5-9) show ?thesis
    by (auto simp: delivers_inv_def pending_list_def)
qed

theorem crawl_pass_delivers_witness:
  "\<exists>s. (crawl_step sample_platform)\<^sup>*\<^sup>* one_front_crawl s \<and>
     (4 \<le> readyCount (c_pool (cl s)) \<or> set (vetted s) = {0})"
proof -
  let ?t = "one_front_crawl\<lparr>cl := vet_bad 0 one_front_client, todo := [], vetted := [0]\<rparr>"
  have "4 \<le> readyCount (c_pool (cl ?t)) \<or> set (vetted ?t) = set (fronts (c_pool one_front_client))"
    using crawl_pass_delivers [OF one_front_client_fields(1-3) one_front_pass] by (auto simp: crawlAllFronts_def)
  then show ?thesis
    using one_front_pass by (intro exI [of _ ?t]) (simp add: one_front_client_fields)
qed

text \<open>
  A front is vetted as good exactly when it could be dialed, its provider exists and has a test URL
  that parses, and a POST to it over that connection is answered with status 202. The vet hangs exactly
  when it gets as far as the POST and the edge does not answer, or does not end its answer; when it
  returns, the connection of the vet is closed last of all, whatever the outcome.
\<close>

theorem vetFront_contract:
  assumes "vetFront pf ed env f c = (ok, evs)"
  shows "(ok = Some True \<longleftrightarrow> (\<exists>conn provider u resp.
      dr_conn (fst (dialFront env (mem (c_pool c) f) (certPool pf c) (clientHelloID c))) = Some conn \<and>
      providerFor c (mem (c_pool c) f) = Some provider \<and> TestURL provider \<noteq> '''' \<and>
      url_Parse pf (TestURL provider) = Inr u \<and> answers ed \<and>
      sendOverConn (e_tr ed) conn (vet_request u) True = Inr resp \<and> StatusCode resp = 202)) \<and>
    (ok = None \<longleftrightarrow> (\<exists>conn provider u.
      dr_conn (fst (dialFront env (mem (c_pool c) f) (certPool pf c) (clientHelloID c))) = Some conn \<and>
      providerFor c (mem (c_pool c) f) = Some provider \<and> TestURL provider \<noteq> '''' \<and>
      url_Parse pf (TestURL provider) = Inr u \<and>
      (silent ed \<or> endless ed \<and> (\<exists>resp. sendOverConn (e_tr ed) conn (vet_request u) True = Inr resp)))) \<and>
    (ok \<noteq> None \<longrightarrow> (\<forall>a r. Dialed a r \<in> set evs \<longrightarrow> last evs = CloseRaw r))"
proof -
  have "last evs = CloseRaw r" if "ok = Some b" "Dialed a r \<in> set evs" for b a r
    using vetFront_closes [of pf ed env f c b evs] assms that by simp
  then show ?thesis
    using vetFront_eq [OF assms] vetFront_hangs [OF assms] by blast
qed

theorem vetFront_contract_witness:
  "fst (vetFront sample_platform (sample_answers 202) refusing_env 0 sample_crawl_client) \<noteq> Some True"
proof -
  have "dr_conn (fst (dialFront refusing_env fr r h)) = None" for fr r h
    by (simp add: refusing_env_def dialFront_def dial_failed_def Let_def)
  with vetFront_contract [OF surjective_pairing, of sample_platform "sample_answers 202" refusing_env 0 sample_crawl_client]
  show ?thesis by simp
qed

text \<open>
  While the client is paused a failed dial costs a front nothing: it is back in the ready queue if
  there is room, and no success time changes. Once the client is resumed, a failed dial drops the front:
  its success time is cleared, it is not requeued, and the cache is marked for saving.
\<close>

theorem pause_protects_fronts:
  assumes "client_wf c"
  shows "(\<forall>g. LastSucceeded (mem (c_pool (returnAfterDialFailure f (Pause c))) g) = LastSucceeded (mem (c_pool c) g)) \<and>
    ready (c_pool (returnAfterDialFailure f (Pause c))) =
      (if f \<in> set (ready (c_pool c)) \<or> ready_cap (c_pool c) \<le> length (ready (c_pool c))
       then ready (c_pool c) else ready (c_pool c) @ [f]) \<and>
    (\<exists>c'. Resume (Pause c) = Inr c' \<and>
      LastSucceeded (mem (c_pool (returnAfterDialFailure f c')) f) = zero_time \<and>
      ready (c_pool (returnAfterDialFailure f c')) = ready (c_pool c) \<and> cacheDirty (returnAfterDialFailure f c'))"
proof -
  have wf: "gate_wf (c_gate c)" "pool_ok (c_pool c)"
    using assms by (auto simp: client_wf_def pool_wf_def)
  have p: "isPaused (pause (c_gate c))" "gate_wf (pause (c_gate c))"
    using pause_wf [OF wf(1)] by auto
  obtain g where g: "resume (pause (c_gate c)) = Inr g"
    by (simp add: resume_eq)
  then have np: "\<not> isPaused g"
    using resume_wf [OF p(2)] by blast
  show ?thesis
    using wf(2) p(1) np
    by (simp add: returnAfterDialFailure_def Pause_def Resume_def g on_pool_def pool_Return_def addReady_ready
        addReady_fields markFailed_eq notifyCacheDirty_def front_op_fields)
qed

theorem pause_protects_fronts_witness:
  "LastSucceeded (mem (c_pool (returnAfterDialFailure 2 (Pause sample_crawl_client))) 2) = unix_epoch + 3"
proof -
  have "client_wf sample_crawl_client"
    by (auto simp: client_wf_def pool_wf_def sample_crawl_client_def sample_pool_ok sample_pool_fields)
      (auto simp: sample_client_def default_client_def newPauseGate_wf sample_pool_def)
  from pause_protects_fronts [OF this, of 2] show ?thesis
    by (simp add: sample_crawl_client_fields sample_pool_fields)
qed

text \<open>
  The cache saver writes the file exactly when something changed since the last save: then it holds
  the entries of the first \<open>maxCacheSize\<close> candidates with a recorded success, and the mark is cleared;
  otherwise the disk is untouched.
\<close>

theorem cacheSaver_saves_changes:
  assumes "c_cache c = FileCache path" and "cacheSaver_tick json_Marshal WriteOk ties draw c d = (c', d')"
  shows "\<not> cacheDirty c' \<and> c_pool c' = c_pool c \<and>
    d' = (if cacheDirty c then
            case json_Marshal (map (cache_entry (c_pool c)) (take (maxCacheSize c)
                   (filter (\<lambda>f. isSucceeding f (c_pool c)) (candidates ties draw (c_pool c))))) of
              Inl e \<Rightarrow> d | Inr s \<Rightarrow> d(path \<mapsto> s)
          else d)"
  using assms
  by (auto simp: cacheSaver_tick_def saveCache_def cache_Save_def FileCache_Save_def writeFile_def
      frontsToCache_eq Let_def split: if_splits sum.splits)

theorem cacheSaver_saves_changes_witness:
  "\<exists>c' d'. cacheSaver_tick (\<lambda>_. Inr ''[]'') WriteOk id id (sample_client\<lparr>c_cache := FileCache ''f.json'', cacheDirty := True\<rparr>)
     Map.empty = (c', d') \<and> d' ''f.json'' = Some ''[]'' \<and> \<not> cacheDirty c'"
proof -
  obtain c' d' where t: "cacheSaver_tick (\<lambda>_. Inr ''[]'') WriteOk id id
      (sample_client\<lparr>c_cache := FileCache ''f.json'', cacheDirty := True\<rparr>) Map.empty = (c', d')"
    by fastforce
  have 1: "c_cache (sample_client\<lparr>c_cache := FileCache ''f.json'', cacheDirty := True\<rparr>) = FileCache ''f.json''"
    by simp
  from cacheSaver_saves_changes [OF 1 t] t show ?thesis by auto
qed

lemma closed_never_blocks:
  assumes "pool_closed p"
  shows "fst (TakePreferringUntried pick ctx tried p) \<noteq> TakeBlocks"
proof
  assume "fst (TakePreferringUntried pick ctx tried p) = TakeBlocks"
  then obtain p' where "TakePreferringUntried pick ctx tried p = (TakeBlocks, p')"
    by (metis prod.collapse)
  from TakePreferringUntried_not_taken [OF this] assms show False by auto
qed

text \<open>
  After \<open>Close\<close> nothing of the client waits or works on: no take of a front blocks any more, no
  crawl pass begins a vet, and the state of the pool at the end is what the cache file holds.
\<close>

theorem Close_stops_and_saves:
  assumes "client_Close json_Marshal WriteOk ties draw c d = (c', d')" and "c_cache c = FileCache path"
    and "json_Marshal (frontsToCache (candidates ties draw (c_pool c')) (maxCacheSize c') (c_pool c')) = Inr s"
  shows "d' path = Some s \<and> suspended c' \<and>
    (\<forall>pick ctx tried. fst (TakePreferringUntried pick ctx tried (c_pool c')) \<noteq> TakeBlocks) \<and>
    (\<forall>s t. cl s = c' \<longrightarrow> crawl_step pf s t \<longrightarrow> set (vetting t) \<subseteq> set (vetting s))"
proof -
  have c': "c' = on_pool pool_Close (c\<lparr>ctx_err := (case ctx_err c of None \<Rightarrow> Some ErrCanceled | Some e \<Rightarrow> Some e)\<rparr>)"
    and d': "d' = saveCache json_Marshal WriteOk ties draw c' d"
    using assms(1) by (auto simp: client_Close_def Let_def)
  have s: "suspended c'"
    by (auto simp: c' suspended_def on_pool_def split: option.splits)
  have "pool_closed (c_pool c')"
    by (simp add: c' on_pool_def pool_Close_def)
  moreover have "c_cache c' = FileCache path"
    using assms(2) by (simp add: c' on_pool_def)
  then have "d' path = Some s"
    using assms(3) by (simp add: d' saveCache_def cache_Save_def FileCache_Save_def writeFile_def)
  moreover have "set (vetting t) \<subseteq> set (vetting u)" if "cl u = c'" "crawl_step pf u t" for t u
    using begins_only_unsuspended [OF that(2)] that(1) s by blast
  ultimately show ?thesis
    using s closed_never_blocks by blast
qed

theorem Close_stops_and_saves_witness:
  "\<exists>c' d'. client_Close (\<lambda>_. Inr ''[]'') WriteOk id id (sample_client\<lparr>c_cache := FileCache ''f.json''\<rparr>) Map.empty = (c', d') \<and>
     d' ''f.json'' = Some ''[]'' \<and> suspended c'"
proof -
  obtain c' d' where t: "client_Close (\<lambda>_. Inr ''[]'') WriteOk id id (sample_client\<lparr>c_cache := FileCache ''f.json''\<rparr>)
      Map.empty = (c', d')"
    by fastforce
  have 1: "c_cache (sample_client\<lparr>c_cache := FileCache ''f.json''\<rparr>) = FileCache ''f.json''"
    by simp
  from Close_stops_and_saves [OF t 1] t show ?thesis by blast
qed

end
