(* ===== verification/RoundTrip.thy ===== *)
theory RoundTrip
  imports Client
begin

text \<open>
  The retry loop of \<open>roundtrip.go\<close>: \<open>roundTripper.RoundTrip\<close>.
  Other goroutines act on the client between the steps of the loop; what they do before the front is
  taken, while it is dialed and while the request is out is part of the \<open>attempt\<close> record, along with
  what the network, the clock and the scheduler do in that attempt.
  The trace has, for each attempt, what was taken, dialed, sent, given back and closed.
\<close>

subsection \<open>Attempts\<close>

record attempt =
  others_take :: "client \<Rightarrow> client"
  a_pick :: nat
  a_ctx :: "goerr option"  \<comment> \<open>\<open>ctx.Err ()\<close> at the take\<close>
  a_env :: dial_env
  others_dial :: "client \<Rightarrow> client"
  a_tr :: transports
  others_send :: "client \<Rightarrow> client"
  a_now :: gotime

datatype outcome = Requeued | Failed | Succeeded

datatype rt_event =
    EvTook fref
  | EvNet net_event
  | EvSent fref string  \<comment> \<open>the request went out through the front to this fronted host\<close>
  | EvBack fref outcome

datatype rt_result = Response response | RtErr goerr | RtBlocked

datatype verdict = Done rt_result | Retry goerr "string set" nat

definition quoted :: "string \<Rightarrow> string" where
  "quoted s = CHR 0x27 # s @ [CHR 0x27]"

definition no_mapping :: "string \<Rightarrow> string \<Rightarrow> goerr" where
  "no_mapping originHost pid =
     ErrText (''no domain fronting mapping for '' @ quoted originHost @ '' on provider '' @ pid)"

text \<open>After the dial: the body of the attempt, the request, and the return of the front.\<close>

definition attempt_request ::
  "platform \<Rightarrow> attempt \<Rightarrow> request \<Rightarrow> (nat \<Rightarrow> goerr + reader option) \<Rightarrow> nat \<Rightarrow> string set \<Rightarrow> fref \<Rightarrow> string \<Rightarrow>
     string \<Rightarrow> tls_conn \<Rightarrow> client \<Rightarrow> verdict \<times> client \<times> rt_event list" where
  "attempt_request pf a req bodyFactory nb tried f pid frontedHost conn c =
     (case bodyFactory nb of
        Inl e \<Rightarrow> (Done (RtErr (ErrWrap ''failed to get request body'' e)), on_pool (pool_Return f True) c,
                  [EvNet (CloseRaw (conn_raw conn)), EvBack f Requeued])
      | Inr body \<Rightarrow>
         (let c1 = others_send a c
          in case doRequest (a_tr a) (valid_field_value pf) (retryableResponse c) req conn frontedHost pid body of
               Inl e \<Rightarrow>
                 (let isUpgrade = errors_is e ErrH2UpgradeUnsupported
                  in (Retry e (if isUpgrade then tried else insert pid tried) (Suc nb),
                      notifyCacheDirty (on_pool (pool_Return f isUpgrade) c1),
                      [EvSent f frontedHost, EvBack f (if isUpgrade then Requeued else Failed),
                       EvNet (CloseRaw (conn_raw conn))]))
             | Inr resp \<Rightarrow>
                 (Done (Response resp), notifyCacheDirty (on_pool (ReturnSuccess (a_now a) f) c1),
                  [EvSent f frontedHost, EvBack f Succeeded])))"

text \<open>With the front taken: the provider, the mapping and the dial.\<close>

definition attempt_front ::
  "platform \<Rightarrow> attempt \<Rightarrow> request \<Rightarrow> (nat \<Rightarrow> goerr + reader option) \<Rightarrow> nat \<Rightarrow> string set \<Rightarrow> fref \<Rightarrow> client \<Rightarrow>
     verdict \<times> client \<times> rt_event list" where
  "attempt_front pf a req bodyFactory nb tried f c =
     (let fr = mem (c_pool c) f; originHost = url_Hostname (u_Host (URL req))
      in case providerFor c fr of
           None \<Rightarrow> (Retry (ErrText (''no provider for '' @ ProviderID fr)) tried nb, on_pool (pool_Return f True) c,
                    [EvBack f Requeued])
         | Some provider \<Rightarrow>
            (let frontedHost = Lookup (ulower pf) provider originHost
             in if frontedHost = '''' then
                  (Retry (no_mapping originHost (ProviderID fr)) tried nb, on_pool (pool_Return f True) c,
                   [EvBack f Requeued])
                else
                  case dialFront (a_env a) fr (certPool pf c) (clientHelloID c) of
                    (result, nevs) \<Rightarrow>
                      (let c1 = others_dial a c
                       in case dr_err result of
                            Some e \<Rightarrow>
                              (Retry e tried nb, returnAfterDialFailure f c1,
                               map EvNet nevs @ [EvBack f (if isPaused (c_gate c1) then Requeued else Failed)])
                          | None \<Rightarrow>
                              (case attempt_request pf a req bodyFactory nb tried f (ProviderID fr) frontedHost
                                      (the (dr_conn result)) c1 of
                                 (v, c2, evs) \<Rightarrow> (v, c2, map EvNet nevs @ evs)))))"

definition attempt_once ::
  "platform \<Rightarrow> attempt \<Rightarrow> request \<Rightarrow> (nat \<Rightarrow> goerr + reader option) \<Rightarrow> nat \<Rightarrow> string set \<Rightarrow> client \<Rightarrow>
     verdict \<times> client \<times> rt_event list" where
  "attempt_once pf a req bodyFactory nb tried c =
     (let c0 = others_take a c
      in case TakePreferringUntried (a_pick a) (a_ctx a) tried (c_pool c0) of
           (TakeBlocks, p) \<Rightarrow> (Done RtBlocked, c0\<lparr>c_pool := p\<rparr>, [])
         | (TakeErr e, p) \<Rightarrow> (Done (RtErr (ErrWrap ''failed to get front'' e)), c0\<lparr>c_pool := p\<rparr>, [])
         | (Took f, p) \<Rightarrow>
            (case attempt_front pf a req bodyFactory nb tried f (c0\<lparr>c_pool := p\<rparr>) of
               (v, c1, evs) \<Rightarrow> (v, c1, EvTook f # evs)))"

subsection \<open>The loop\<close>

definition after_all :: "int \<Rightarrow> goerr option \<Rightarrow> goerr" where
  "after_all n_max lastErr =
     (let p = ''domain fronting failed after '' @ show_int n_max @ '' attempts''
      in case lastErr of
           Some e \<Rightarrow> ErrWrap p e
         | None \<Rightarrow> ErrText (p @ '': %!w(<nil>)''))"

fun rt_loop ::
  "platform \<Rightarrow> (nat \<Rightarrow> attempt) \<Rightarrow> request \<Rightarrow> (nat \<Rightarrow> goerr + reader option) \<Rightarrow> int \<Rightarrow> nat \<Rightarrow> nat \<Rightarrow> nat \<Rightarrow>
     string set \<Rightarrow> goerr option \<Rightarrow> client \<Rightarrow> rt_result \<times> client \<times> rt_event list list" where
  "rt_loop pf world req bodyFactory maxR 0 i nb tried lastErr c = (RtErr (after_all maxR lastErr), c, [])"
| "rt_loop pf world req bodyFactory maxR (Suc n) i nb tried lastErr c =
     (case attempt_once pf (world i) req bodyFactory nb tried c of
        (Done r, c', evs) \<Rightarrow> (r, c', [evs])
      | (Retry e tried' nb', c', evs) \<Rightarrow>
         (case rt_loop pf world req bodyFactory maxR n (Suc i) nb' tried' (Some e) c' of
            (r, c'', tr) \<Rightarrow> (r, c'', evs # tr)))"

definition RoundTrip ::
  "platform \<Rightarrow> (nat \<Rightarrow> attempt) \<Rightarrow> request \<Rightarrow> client \<Rightarrow> rt_result \<times> client \<times> rt_event list list" where
  "RoundTrip pf world req c =
     (case getBodyFactory req of
        Inl e \<Rightarrow> (RtErr (ErrWrap ''failed to buffer request body'' e), c, [])
      | Inr bodyFactory \<Rightarrow>
         rt_loop pf world req bodyFactory (maxRetries c) (nat (maxRetries c)) 0 0 {} None c)"

subsection \<open>What the trace of an attempt shows\<close>

definition taken :: "rt_event list \<Rightarrow> fref list" where
  "taken evs = concat (map (\<lambda>e. case e of EvTook f \<Rightarrow> [f] | _ \<Rightarrow> []) evs)"

definition given_back :: "rt_event list \<Rightarrow> (fref \<times> outcome) list" where
  "given_back evs = concat (map (\<lambda>e. case e of EvBack f how \<Rightarrow> [(f, how)] | _ \<Rightarrow> []) evs)"

lemma trace_simps [simp]:
  "taken [] = []" "taken (EvTook f # evs) = f # taken evs" "taken (EvNet x # evs) = taken evs"
  "taken (EvSent f h # evs) = taken evs" "taken (EvBack f how # evs) = taken evs"
  "given_back [] = []" "given_back (EvTook f # evs) = given_back evs" "given_back (EvNet x # evs) = given_back evs"
  "given_back (EvSent f h # evs) = given_back evs" "given_back (EvBack f how # evs) = (f, how) # given_back evs"
  "taken (xs @ ys) = taken xs @ taken ys" "given_back (xs @ ys) = given_back xs @ given_back ys"
  by (simp_all add: taken_def given_back_def)

lemma trace_net [simp]: "taken (map EvNet nevs) = []" "given_back (map EvNet nevs) = []"
  by (induction nevs) simp_all

definition accepted :: "client \<Rightarrow> response \<Rightarrow> bool" where
  "accepted c resp \<longleftrightarrow>
     \<not> (case retryableResponse c of Some r \<Rightarrow> r | None \<Rightarrow> defaultRetryableResponse) resp"

text \<open>The three ways in which the part of an attempt after the dial ends.\<close>

lemma attempt_request_cases:
  assumes "attempt_request pf a req mk nb tried f pid fh conn c = (v, c', evs)"
  obtains (no_body) e where "mk nb = Inl e" "v = Done (RtErr (ErrWrap ''failed to get request body'' e))"
      "c' = on_pool (pool_Return f True) c" "evs = [EvNet (CloseRaw (conn_raw conn)), EvBack f Requeued]"
  | (failed) body e where "mk nb = Inr body"
      "doRequest (a_tr a) (valid_field_value pf) (retryableResponse c) req conn fh pid body = Inl e"
      "v = Retry e (if errors_is e ErrH2UpgradeUnsupported then tried else insert pid tried) (Suc nb)"
      "c' = notifyCacheDirty (on_pool (pool_Return f (errors_is e ErrH2UpgradeUnsupported)) (others_send a c))"
      "evs = [EvSent f fh, EvBack f (if errors_is e ErrH2UpgradeUnsupported then Requeued else Failed),
              EvNet (CloseRaw (conn_raw conn))]"
  | (answered) body resp where "mk nb = Inr body"
      "doRequest (a_tr a) (valid_field_value pf) (retryableResponse c) req conn fh pid body = Inr resp"
      "v = Done (Response resp)" "c' = notifyCacheDirty (on_pool (ReturnSuccess (a_now a) f) (others_send a c))"
      "evs = [EvSent f fh, EvBack f Succeeded]" "accepted c resp"
proof (cases "mk nb")
  case (Inl e)
  with assms show ?thesis
    by (intro no_body) (auto simp: attempt_request_def)
next
  case (Inr body)
  let ?d = "doRequest (a_tr a) (valid_field_value pf) (retryableResponse c) req conn fh pid body"
  show ?thesis
  proof (cases ?d)
    case (Inl e)
    with Inr assms show ?thesis
      by (intro failed) (auto simp: attempt_request_def Let_def)
  next
    case res: (Inr resp)
    with Inr assms doRequest_Inr [OF res] show ?thesis
      by (intro answered) (auto simp: attempt_request_def Let_def accepted_def)
  qed
qed

text \<open>The ways in which an attempt that took a front ends.\<close>

lemma attempt_front_cases:
  assumes "attempt_front pf a req mk nb tried f c = (v, c', evs)"
  obtains (no_provider) "providerFor c (mem (c_pool c) f) = None"
      "v = Retry (ErrText (''no provider for '' @ ProviderID (mem (c_pool c) f))) tried nb"
      "c' = on_pool (pool_Return f True) c" "evs = [EvBack f Requeued]"
  | (unmapped) provider where "providerFor c (mem (c_pool c) f) = Some provider"
      "Lookup (ulower pf) provider (url_Hostname (u_Host (URL req))) = ''''"
      "v = Retry (no_mapping (url_Hostname (u_Host (URL req))) (ProviderID (mem (c_pool c) f))) tried nb"
      "c' = on_pool (pool_Return f True) c" "evs = [EvBack f Requeued]"
  | (no_dial) provider res nevs e where "providerFor c (mem (c_pool c) f) = Some provider"
      "Lookup (ulower pf) provider (url_Hostname (u_Host (URL req))) \<noteq> ''''"
      "dialFront (a_env a) (mem (c_pool c) f) (certPool pf c) (clientHelloID c) = (res, nevs)" "dr_err res = Some e"
      "v = Retry e tried nb" "c' = returnAfterDialFailure f (others_dial a c)"
      "evs = map EvNet nevs @ [EvBack f (if isPaused (c_gate (others_dial a c)) then Requeued else Failed)]"
  | (dialed) provider res nevs conn evs' where "providerFor c (mem (c_pool c) f) = Some provider"
      "Lookup (ulower pf) provider (url_Hostname (u_Host (URL req))) \<noteq> ''''"
      "dialFront (a_env a) (mem (c_pool c) f) (certPool pf c) (clientHelloID c) = (res, nevs)" "dr_err res = None"
      "dr_conn res = Some conn"
      "attempt_request pf a req mk nb tried f (ProviderID (mem (c_pool c) f))
         (Lookup (ulower pf) provider (url_Hostname (u_Host (URL req)))) conn (others_dial a c) = (v, c', evs')"
      "evs = map EvNet nevs @ evs'"
proof (cases "providerFor c (mem (c_pool c) f)")
  case None
  with assms show ?thesis
    by (intro no_provider) (auto simp: attempt_front_def)
next
  case (Some provider)
  let ?h = "Lookup (ulower pf) provider (url_Hostname (u_Host (URL req)))"
  obtain res nevs where d: "dialFront (a_env a) (mem (c_pool c) f) (certPool pf c) (clientHelloID c) = (res, nevs)"
    by fastforce
  show ?thesis
  proof (cases "?h = ''''")
    case True
    with Some assms show ?thesis
      by (intro unmapped) (auto simp: attempt_front_def Let_def)
  next
    case False
    show ?thesis
    proof (cases "dr_err res")
      case (Some e)
      with False \<open>providerFor c _ = Some provider\<close> assms d show ?thesis
        by (intro no_dial) (auto simp: attempt_front_def Let_def)
    next
      case None
      with dialFront_result [OF d] obtain conn where conn: "dr_conn res = Some conn" by auto
      obtain v' d' evs' where "attempt_request pf a req mk nb tried f (ProviderID (mem (c_pool c) f)) ?h conn
          (others_dial a c) = (v', d', evs')"
        by (metis prod_cases3)
      with False None Some assms d conn show ?thesis
        by (intro dialed) (auto simp: attempt_front_def Let_def)
    qed
  qed
qed

text \<open>The ways in which an attempt ends.\<close>

lemma attempt_once_cases:
  assumes "attempt_once pf a req mk nb tried c = (v, c', evs)"
  obtains (blocks) "v = Done RtBlocked" "c' = others_take a c" "evs = []"
      "ready (c_pool c') = []" "a_ctx a = None" "\<not> pool_closed (c_pool c')"
  | (no_front) e where "v = Done (RtErr (ErrWrap ''failed to get front'' e))" "c' = others_take a c" "evs = []"
      "a_ctx a = Some e \<or> pool_closed (c_pool c') \<and> e = ErrCanceled"
  | (took) f p evs' where
      "TakePreferringUntried (a_pick a) (a_ctx a) tried (c_pool (others_take a c)) = (Took f, p)"
      "attempt_front pf a req mk nb tried f ((others_take a c)\<lparr>c_pool := p\<rparr>) = (v, c', evs')"
      "evs = EvTook f # evs'"
proof -
  obtain r p where t: "TakePreferringUntried (a_pick a) (a_ctx a) tried (c_pool (others_take a c)) = (r, p)"
    by fastforce
  show ?thesis
  proof (cases r)
    case (Took f)
    obtain v' c'' evs' where "attempt_front pf a req mk nb tried f ((others_take a c)\<lparr>c_pool := p\<rparr>) = (v', c'', evs')"
      by (metis prod_cases3)
    with assms t Took show ?thesis
      by (intro took) (auto simp: attempt_once_def Let_def)
  next
    case (TakeErr e)
    with TakePreferringUntried_not_taken [OF t] assms t show ?thesis
      by (intro no_front) (auto simp: attempt_once_def Let_def)
  next
    case TakeBlocks
    with TakePreferringUntried_not_taken [OF t] assms t show ?thesis
      by (intro blocks) (auto simp: attempt_once_def Let_def)
  qed
qed

definition closes_what_it_dials :: "rt_event list \<Rightarrow> bool" where
  "closes_what_it_dials evs \<longleftrightarrow>
     (\<forall>r\<in>{r. \<exists>a. EvNet (Dialed a r) \<in> set evs}. EvNet (CloseRaw r) \<in> set evs)"

lemma closesI:
  "(\<And>a r. EvNet (Dialed a r) \<in> set evs \<Longrightarrow> EvNet (CloseRaw r) \<in> set evs) \<Longrightarrow> closes_what_it_dials evs"
  by (auto simp: closes_what_it_dials_def)

lemma dialFront_net:
  assumes "dialFront env f rootCAs hid = (res, nevs)"
  shows "dr_err res = Some e \<Longrightarrow> EvNet (Dialed a r) \<in> EvNet ` set nevs \<Longrightarrow> CloseRaw r \<in> set nevs"
    "dr_conn res = Some conn \<Longrightarrow> EvNet (Dialed a r) \<in> EvNet ` set nevs \<Longrightarrow> conn_raw conn = r"
  using dialFront_events [OF assms, of a r] dialFront_result [OF assms]
  by (auto split: option.splits) (metis last_in_set length_greater_0_conv length_pos_if_in_set)

text \<open>One front is taken and given back once; a good response comes with a success and only then.\<close>

lemma attempt_front_trace:
  assumes "attempt_front pf a req mk nb tried f c = (v, c', evs)"
  shows "taken evs = [] \<and> (\<exists>how. given_back evs = [(f, how)] \<and>
    (case v of
       Retry e t m \<Rightarrow> how \<noteq> Succeeded \<and> closes_what_it_dials evs
     | Done (Response resp) \<Rightarrow> how = Succeeded \<and> accepted (others_dial a c) resp
     | Done (RtErr e) \<Rightarrow> how = Requeued \<and> closes_what_it_dials evs
     | Done RtBlocked \<Rightarrow> False))"
  using assms
proof (cases rule: attempt_front_cases)
  case (no_dial provider res nevs e)
  have "closes_what_it_dials evs"
    using dialFront_net(1) [OF no_dial(3,4)] by (intro closesI) (auto simp: no_dial(7))
  then show ?thesis by (simp add: no_dial(5,7))
next
  case (dialed provider res nevs conn evs')
  note net = dialFront_net(2) [OF dialed(3,5)]
  show ?thesis
    using dialed(6)
  proof (cases rule: attempt_request_cases)
    case (no_body e)
    have "closes_what_it_dials evs"
      using net by (intro closesI) (auto simp: dialed(7) no_body(4))
    then show ?thesis by (simp add: dialed(7) no_body(2,4))
  next
    case (failed body e)
    have "closes_what_it_dials evs"
      using net by (intro closesI) (auto simp: dialed(7) failed(5))
    then show ?thesis by (simp add: dialed(7) failed(3,5))
  next
    case (answered body resp)
    then show ?thesis by (simp add: dialed(7))
  qed
qed (auto intro!: closesI)

lemma attempt_once_trace:
  assumes "attempt_once pf a req mk nb tried c = (v, c', evs)"
  shows "(evs = [] \<and> (\<exists>r. v = Done r \<and> (\<forall>resp. r \<noteq> Response resp) \<and> (r = RtBlocked \<longrightarrow> a_ctx a = None))) \<or>
    (\<exists>f how p. taken evs = [f] \<and> given_back evs = [(f, how)] \<and>
    (case v of
       Retry e t m \<Rightarrow> how \<noteq> Succeeded \<and> closes_what_it_dials evs
     | Done (Response resp) \<Rightarrow> how = Succeeded \<and> accepted (others_dial a ((others_take a c)\<lparr>c_pool := p\<rparr>)) resp
     | Done (RtErr e) \<Rightarrow> how = Requeued \<and> closes_what_it_dials evs
     | Done RtBlocked \<Rightarrow> False))"
  using assms
proof (cases rule: attempt_once_cases)
  case (took f p evs')
  have eq: "closes_what_it_dials (EvTook f # evs') = closes_what_it_dials evs'"
    by (simp add: closes_what_it_dials_def)
  show ?thesis
    using attempt_front_trace [OF took(2)] unfolding took(3) eq
    by (intro disjI2 exI [of _ f]) (auto intro!: exI [of _ p])
qed auto

subsection \<open>What the loop does with its attempts\<close>

definition kept_by_attempts ::
  "platform \<Rightarrow> (nat \<Rightarrow> attempt) \<Rightarrow> request \<Rightarrow> (nat \<Rightarrow> goerr + reader option) \<Rightarrow> (client \<Rightarrow> bool) \<Rightarrow> bool" where
  "kept_by_attempts pf world req mk Q \<longleftrightarrow> (\<forall>j nb tried c v c' evs.
     attempt_once pf (world j) req mk nb tried c = (v, c', evs) \<longrightarrow> Q c \<longrightarrow> Q c')"

text \<open>The first attempt of the loop and the rest of it, if there is one.\<close>

lemma rt_loop_first:
  assumes "rt_loop pf world req mk maxR (Suc n) i nb tried lastErr c = (r, c', tr)"
  obtains (last) evs where "attempt_once pf (world i) req mk nb tried c = (Done r, c', evs)" "tr = [evs]"
  | (more) e t m d evs tr' where "attempt_once pf (world i) req mk nb tried c = (Retry e t m, d, evs)"
      "rt_loop pf world req mk maxR n (Suc i) m t (Some e) d = (r, c', tr')" "tr = evs # tr'"
proof -
  obtain v d evs where at: "attempt_once pf (world i) req mk nb tried c = (v, d, evs)"
    by (metis prod_cases3)
  show thesis
  proof (cases v)
    case (Done r')
    with assms at show thesis by (intro last) auto
  next
    case (Retry e t m)
    with assms at show thesis by (auto split: prod.splits intro: more)
  qed
qed

text \<open>
  Attempt \<open>a\<close> of a loop with \<open>n\<close> attempts that ends with \<open>r\<close> in \<open>c'\<close>: it began with \<open>Q\<close>, and either
  another attempt follows, or it decided the result, or it was the last one that was allowed.
\<close>

definition attempt_in_loop ::
  "platform \<Rightarrow> attempt \<Rightarrow> request \<Rightarrow> (nat \<Rightarrow> goerr + reader option) \<Rightarrow> (client \<Rightarrow> bool) \<Rightarrow> int \<Rightarrow> bool \<Rightarrow> bool \<Rightarrow>
     rt_result \<Rightarrow> client \<Rightarrow> rt_event list \<Rightarrow> bool" where
  "attempt_in_loop pf a req mk Q maxR follows used_up r c' evs \<longleftrightarrow> (\<exists>nb tried d v d'.
     attempt_once pf a req mk nb tried d = (v, d', evs) \<and> Q d \<and>
     (if follows then \<exists>e t m. v = Retry e t m
      else d' = c' \<and> (v = Done r \<or> used_up \<and> (\<exists>e t m. v = Retry e t m \<and> r = RtErr (after_all maxR (Some e))))))"

lemma attempt_in_loopI:
  "attempt_once pf a req mk nb tried d = (v, d', evs) \<Longrightarrow> Q d \<Longrightarrow>
     if follows then \<exists>e t m. v = Retry e t m
     else d' = c' \<and> (v = Done r \<or> used_up \<and> (\<exists>e t m. v = Retry e t m \<and> r = RtErr (after_all maxR (Some e)))) \<Longrightarrow>
     attempt_in_loop pf a req mk Q maxR follows used_up r c' evs"
  unfolding attempt_in_loop_def by blast

lemma rt_loop_attempts:
  assumes "kept_by_attempts pf world req mk Q"
    and "rt_loop pf world req mk maxR n i nb tried lastErr c = (r, c', tr)" and "Q c"
  shows "Q c' \<and> length tr \<le> n \<and> (tr = [] \<longrightarrow> n = 0 \<and> r = RtErr (after_all maxR lastErr) \<and> c' = c) \<and>
    (\<forall>k<length tr. attempt_in_loop pf (world (i + k)) req mk Q maxR (Suc k < length tr) (length tr = n) r c' (tr ! k))"
  using assms(2,3)
proof (induction n arbitrary: i nb tried lastErr c tr)
  case (Suc n)
  from Suc.prems(1) show ?case
  proof (cases rule: rt_loop_first)
    case (last evs)
    have "Q c'"
      using assms(1) last(1) Suc.prems(2) unfolding kept_by_attempts_def by blast
    with last Suc.prems(2) show ?thesis
      by (auto intro: attempt_in_loopI)
  next
    case (more e t m d evs tr')
    have "Q d"
      using assms(1) more(1) Suc.prems(2) unfolding kept_by_attempts_def by blast
    note ih = Suc.IH [OF more(2) this]
    then have "attempt_in_loop pf (world i) req mk Q maxR (tr' \<noteq> []) (tr' \<noteq> [] \<longrightarrow> length tr' = n) r c' evs"
      using Suc.prems(2) by (intro attempt_in_loopI [OF more(1)]) auto
    moreover have "(tr' \<noteq> [] \<longrightarrow> length tr' = n) = (length tr' = n)" if "tr' = []"
      using ih that by simp
    ultimately have "attempt_in_loop pf (world i) req mk Q maxR (tr' \<noteq> []) (length tr' = n) r c' evs"
      by (cases "tr' = []") (auto simp: attempt_in_loop_def)
    with ih show ?thesis
      by (simp add: more(3) All_less_Suc2)
  qed
qed simp

lemma rt_loop_steps:
  assumes "kept_by_attempts pf world req mk Q"
    and "rt_loop pf world req mk maxR n i nb tried lastErr c = (r, c', tr)" and "Q c"
  shows "Q c' \<and> length tr \<le> n \<and> (tr = [] \<longrightarrow> n = 0 \<and> r = RtErr (after_all maxR lastErr) \<and> c' = c) \<and>
    (\<forall>k<length tr. \<exists>nb tried d v d'. attempt_once pf (world (i + k)) req mk nb tried d = (v, d', tr ! k) \<and> Q d \<and>
      (if Suc k < length tr then \<exists>e t m. v = Retry e t m
       else d' = c' \<and> (v = Done r \<or>
         length tr = n \<and> (\<exists>e t m. v = Retry e t m \<and> r = RtErr (after_all maxR (Some e))))))"
  using rt_loop_attempts [OF assms] unfolding attempt_in_loop_def .

subsection \<open>What an attempt keeps\<close>

text \<open>The fields that never change after \<open>New\<close> and that the loop reads.\<close>

definition settings :: "client \<Rightarrow> (response \<Rightarrow> bool) option \<times> int \<times> string \<times> hello_id" where
  "settings c = (retryableResponse c, maxRetries c, defaultPID c, clientHelloID c)"

definition settled :: "attempt \<Rightarrow> bool" where
  "settled a \<longleftrightarrow> (\<forall>c. settings (others_take a c) = settings c \<and> settings (others_dial a c) = settings c \<and>
     settings (others_send a c) = settings c)"

lemma settings_simps [simp]:
  "settings (on_pool g c) = settings c" "settings (notifyCacheDirty c) = settings c"
  "settings (returnAfterDialFailure f c) = settings c" "settings (c\<lparr>c_pool := p\<rparr>) = settings c"
  by (simp_all add: settings_def on_pool_def notifyCacheDirty_def returnAfterDialFailure_def)

lemma accepted_cong: "settings c = settings d \<Longrightarrow> accepted c resp = accepted d resp"
  by (simp add: settings_def accepted_def)

lemma attempt_front_settings:
  assumes "attempt_front pf a req mk nb tried f c = (v, c', evs)" "settled a"
  shows "settings c' = settings c"
  using assms(1)
proof (cases rule: attempt_front_cases)
  case (dialed provider res nevs conn evs')
  from dialed(6) show ?thesis
    by (cases rule: attempt_request_cases) (use assms(2) in \<open>auto simp: settled_def\<close>)
qed (use assms(2) in \<open>auto simp: settled_def\<close>)

lemma attempt_once_settings:
  assumes "attempt_once pf a req mk nb tried c = (v, c', evs)" "settled a"
  shows "settings c' = settings c"
  using assms(1)
proof (cases rule: attempt_once_cases)
  case (took f p evs')
  from attempt_front_settings [OF took(2) assms(2)] assms(2) show ?thesis
    by (simp add: settled_def)
qed (use assms(2) in \<open>auto simp: settled_def\<close>)

text \<open>Other goroutines keep the client well-formed and never free a front.\<close>

definition polite :: "(client \<Rightarrow> client) \<Rightarrow> bool" where
  "polite g \<longleftrightarrow> (\<forall>c. client_wf c \<longrightarrow> client_wf (g c) \<and> next_ref (c_pool c) \<le> next_ref (c_pool (g c)))"

definition polite_attempt :: "attempt \<Rightarrow> bool" where
  "polite_attempt a \<longleftrightarrow> polite (others_take a) \<and> polite (others_dial a) \<and> polite (others_send a)"

lemma politeD: "polite g \<Longrightarrow> client_wf c \<Longrightarrow> client_wf (g c) \<and> next_ref (c_pool c) \<le> next_ref (c_pool (g c))"
  by (simp add: polite_def)

lemma pool_op_wf:
  assumes "client_wf c" "pool_wf (g (c_pool c))" "fronts (g (c_pool c)) = fronts (c_pool c)"
    "next_ref (g (c_pool c)) = next_ref (c_pool c)"
  shows "client_wf (on_pool g c)"
  using assms by (simp add: client_wf_def on_pool_def)

lemma pool_Return_fields [pool_simps]:
  "fronts (pool_Return f b p) = fronts p" "next_ref (pool_Return f b p) = next_ref p"
  "fronts (ReturnSuccess now f p) = fronts p" "next_ref (ReturnSuccess now f p) = next_ref p"
  by (simp_all add: pool_Return_def ReturnSuccess_def markFailed_eq markSucceeded_eq addReady_fields front_op_fields)

lemma client_wf_pool: "client_wf c \<Longrightarrow> pool_wf (c_pool c)"
  by (simp add: client_wf_def)

lemma client_op_wf:
  assumes "client_wf c" "f < next_ref (c_pool c)"
  shows "client_wf (on_pool (pool_Return f b) c)" "client_wf (on_pool (ReturnSuccess now f) c)"
    "client_wf (returnAfterDialFailure f c)" "client_wf (notifyCacheDirty c)"
proof -
  show "client_wf (on_pool (pool_Return f b) c)" for b
    using assms by (intro pool_op_wf) (simp_all add: client_wf_pool pool_Return_wf pool_simps)
  then show "client_wf (returnAfterDialFailure f c)"
    by (simp add: returnAfterDialFailure_def notifyCacheDirty_def client_wf_def)
  show "client_wf (on_pool (ReturnSuccess now f) c)"
    using assms by (intro pool_op_wf) (simp_all add: client_wf_pool ReturnSuccess_wf pool_simps)
  show "client_wf (notifyCacheDirty c)"
    using assms by (simp add: notifyCacheDirty_def client_wf_def)
qed

lemma notify_wf: "client_wf (notifyCacheDirty c) = client_wf c"
  by (simp add: notifyCacheDirty_def client_wf_def)

lemma attempt_front_wf:
  assumes "attempt_front pf a req mk nb tried f c = (v, c', evs)" "polite_attempt a" "client_wf c"
    "f < next_ref (c_pool c)"
  shows "client_wf c'"
  using assms(1)
proof (cases rule: attempt_front_cases)
  case (no_dial provider res nevs e)
  have "client_wf (others_dial a c)" "f < next_ref (c_pool (others_dial a c))"
    using assms(2-) politeD [of "others_dial a" c] by (auto simp: polite_attempt_def)
  then show ?thesis by (simp add: no_dial(6) client_op_wf)
next
  case (dialed provider res nevs conn evs')
  let ?d = "others_dial a c"
  have d: "client_wf ?d" "f < next_ref (c_pool ?d)"
    using assms(2-) politeD [of "others_dial a" c] by (auto simp: polite_attempt_def)
  then have s: "client_wf (others_send a ?d)" "f < next_ref (c_pool (others_send a ?d))"
    using assms(2) politeD [of "others_send a" ?d] by (auto simp: polite_attempt_def)
  from dialed(6) show ?thesis
    by (cases rule: attempt_request_cases) (use d s in \<open>auto simp: client_op_wf notify_wf\<close>)
qed (use assms in \<open>auto simp: client_op_wf\<close>)

lemma taken_front:
  assumes "client_wf c" "TakePreferringUntried pick ctx tried (c_pool c) = (Took f, p)"
  shows "f \<in> set (ready (c_pool c))" "f < next_ref p" "client_wf (c\<lparr>c_pool := p\<rparr>)" "f \<notin> set (ready p)"
    "mset (ready (c_pool c)) = add_mset f (mset (ready p))"
proof -
  have ok: "pool_ok (c_pool c)" and al: "\<forall>f\<in>set (ready (c_pool c)). f < next_ref (c_pool c)"
    using assms(1) by (auto simp: client_wf_def pool_wf_def)
  note t = TakePreferringUntried_took [OF ok assms(2)]
  note fl = TakePreferringUntried_fields [OF assms(2)]
  show f: "f \<in> set (ready (c_pool c))" and m: "mset (ready (c_pool c)) = add_mset f (mset (ready p))"
    using t by (auto simp flip: set_mset_mset)
  show "f < next_ref p"
    using f al fl(4) by auto
  have "distinct (f # ready p)"
    using m ok mset_eq_imp_distinct_iff [of "ready (c_pool c)" "f # ready p"] by (simp add: pool_okD)
  then show "f \<notin> set (ready p)" by simp
  have "pool_wf p"
    using TakePreferringUntried_wf [of "c_pool c" pick ctx tried] assms by (simp add: client_wf_def)
  then show "client_wf (c\<lparr>c_pool := p\<rparr>)"
    using assms(1) fl by (simp add: client_wf_def)
qed

lemma attempt_once_wf:
  assumes "attempt_once pf a req mk nb tried c = (v, c', evs)" "polite_attempt a" "client_wf c"
  shows "client_wf c'"
proof -
  have wf: "client_wf (others_take a c)"
    using assms(2,3) politeD by (auto simp: polite_attempt_def)
  from assms(1) show ?thesis
  proof (cases rule: attempt_once_cases)
    case (took f p evs')
    from taken_front [OF wf took(1)] attempt_front_wf [OF took(2) assms(2)] show ?thesis
      by simp
  qed (use wf in auto)
qed

text \<open>A front that was just taken has room in the queue.\<close>

lemma taken_room:
  assumes "client_wf c" "TakePreferringUntried pick ctx tried (c_pool c) = (Took f, p)"
  shows "pool_ok p" "ready (addReady f p) = ready p @ [f]" "ready (addReady f (setLastSucceeded f t p)) = ready p @ [f]"
    "LastSucceeded (mem p g) = LastSucceeded (mem (c_pool c) g)" "ident p = ident (c_pool c)"
proof -
  note t = taken_front [OF assms] and fl = TakePreferringUntried_fields [OF assms(2)]
  show ok: "pool_ok p"
    using t(3) by (simp add: client_wf_def pool_wf_def)
  have "length (ready p) < ready_cap p"
    using arg_cong [OF t(5), of size] assms(1) fl(2) by (auto simp: client_wf_def pool_wf_def pool_ok_def)
  then show "ready (addReady f p) = ready p @ [f]"
    "ready (addReady f (setLastSucceeded f t p)) = ready p @ [f]"
    using ok t(4) by (simp_all add: addReady_ready setLastSucceeded_ok front_op_fields)
  show "LastSucceeded (mem p g) = LastSucceeded (mem (c_pool c) g)" "ident p = ident (c_pool c)"
    using fl by simp_all
qed

text \<open>What is known of the client after an attempt that gave \<open>f\<close> back as \<open>how\<close>.\<close>

definition health_recorded :: "gotime \<Rightarrow> fref \<Rightarrow> outcome \<Rightarrow> client \<Rightarrow> client \<Rightarrow> bool" where
  "health_recorded now f how c c' \<longleftrightarrow>
     (\<forall>g. LastSucceeded (mem (c_pool c') g) =
        (if g = f \<and> how = Failed then zero_time else if g = f \<and> how = Succeeded then now
         else LastSucceeded (mem (c_pool c) g))) \<and>
     mset (ready (c_pool c)) = (if how = Failed then add_mset f (mset (ready (c_pool c'))) else mset (ready (c_pool c'))) \<and>
     (if how = Requeued then True else cacheDirty c')"

lemma health_recordedI:
  assumes "client_wf c" "TakePreferringUntried pick ctx tried (c_pool c) = (Took f, p)"
  shows "health_recorded now f Requeued c (on_pool (pool_Return f True) (c\<lparr>c_pool := p\<rparr>))"
    "health_recorded now f Requeued c (notifyCacheDirty (on_pool (pool_Return f True) (c\<lparr>c_pool := p\<rparr>)))"
    "health_recorded now f Failed c (notifyCacheDirty (on_pool (pool_Return f False) (c\<lparr>c_pool := p\<rparr>)))"
    "health_recorded now f Succeeded c (notifyCacheDirty (on_pool (ReturnSuccess now f) (c\<lparr>c_pool := p\<rparr>)))"
  using taken_room [OF assms] taken_front [OF assms]
  by (auto simp: health_recorded_def on_pool_def notifyCacheDirty_def pool_Return_def ReturnSuccess_def
      markFailed_eq markSucceeded_eq addReady_fields front_op_fields)

lemma attempt_once_health:
  assumes wf: "client_wf c" and at: "attempt_once pf a req mk nb tried c = (v, c', evs)"
    and alone: "others_take a = id" "others_dial a = id" "others_send a = id"
    and ret: "given_back evs = [(f, how)]"
  shows "health_recorded (a_now a) f how c c'"
  using at
proof (cases rule: attempt_once_cases)
  case (took g p evs')
  have t: "TakePreferringUntried (a_pick a) (a_ctx a) tried (c_pool c) = (Took g, p)"
    using took(1) alone by simp
  note h = health_recordedI [OF wf t]
  have fr: "attempt_front pf a req mk nb tried g (c\<lparr>c_pool := p\<rparr>) = (v, c', evs')"
    using took(2) alone by simp
  from fr show ?thesis
  proof (cases rule: attempt_front_cases)
    case (no_dial provider res nevs e)
    with h ret took(3) alone show ?thesis
      by (auto simp: returnAfterDialFailure_def split: if_splits)
  next
    case (dialed provider res nevs conn evs2)
    from dialed(6) show ?thesis
      by (cases rule: attempt_request_cases)
        (use h ret took(3) alone dialed(7) in \<open>auto split: if_splits\<close>)
  qed (use h ret took(3) alone in auto)
qed (use ret in auto)

subsection \<open>Upgrades\<close>

lemma map_of_filter_key: "P k \<Longrightarrow> map_of (filter (\<lambda>(k, v). P k) xs) k = map_of xs k"
  by (induction xs) auto

lemma Connection_not_Host: "\<not> equal_fold ''Connection'' ''Host''"
  by (simp add: char_eval)

lemma hasConnectionUpgrade_fronted:
  "hasConnectionUpgrade ((rewriteRequest req fh body)\<lparr>Header := label_provider vf pid (Header (rewriteRequest req fh body))\<rparr>)
     = hasConnectionUpgrade req"
proof -
  have 1: "map_of (Header (rewriteRequest req fh body)) ''Connection'' = map_of (Header req) ''Connection''"
    using map_of_filter_key [where P = "\<lambda>k. \<not> equal_fold k ''Host''" and k = "''Connection''" and xs = "Header req"]
      Connection_not_Host by (simp add: rewriteRequest_def)
  have 2: "map_of (label_provider vf pid h) ''Connection'' = map_of h ''Connection''" for h
    by (simp add: label_provider_def map_of_header_Set via_key)
  show ?thesis
    by (simp add: hasConnectionUpgrade_def connection_tokens_def header_Values_def connection_key 1 2)
qed

lemma doRequest_upgrade:
  assumes "conn_proto conn = ''h2''" "hasConnectionUpgrade req"
  shows "doRequest tr vf rr req conn fh pid body = Inl ErrH2UpgradeUnsupported"
  using assms by (simp add: doRequest_def Let_def sendOverConn_upgrade hasConnectionUpgrade_fronted)

subsection \<open>Ready fronts that cannot carry the request\<close>

definition unusable :: "platform \<Rightarrow> request \<Rightarrow> client \<Rightarrow> fref \<Rightarrow> bool" where
  "unusable pf req c f \<longleftrightarrow>
     (case providerFor c (mem (c_pool c) f) of
        None \<Rightarrow> True
      | Some provider \<Rightarrow> Lookup (ulower pf) provider (url_Hostname (u_Host (URL req))) = '''')"

lemma providerFor_cong:
  "providers c = providers d \<Longrightarrow> defaultPID c = defaultPID d \<Longrightarrow> ident (c_pool c) f = ident (c_pool d) f \<Longrightarrow>
     providerFor c (mem (c_pool c) f) = providerFor d (mem (c_pool d) f)"
  using ident_provider [of "c_pool c" f "c_pool d" f] by (simp add: providerFor_def)

text \<open>The clients in which every ready front is unusable for the request.\<close>

definition all_unusable :: "platform \<Rightarrow> request \<Rightarrow> client \<Rightarrow> bool" where
  "all_unusable pf req c \<longleftrightarrow> client_wf c \<and> \<not> pool_closed (c_pool c) \<and> ready (c_pool c) \<noteq> [] \<and>
     (\<forall>f\<in>set (ready (c_pool c)). unusable pf req c f)"

lemma attempt_unusable:
  assumes inv: "all_unusable pf req c" and a: "others_take a = id" "a_ctx a = None"
    and at: "attempt_once pf a req mk nb tried c = (v, c', evs)"
  shows "\<exists>e. v = Retry e tried nb \<and> all_unusable pf req c' \<and>
    mset (ready (c_pool c')) = mset (ready (c_pool c)) \<and> (\<forall>n. EvNet n \<notin> set evs)"
  using at
proof (cases rule: attempt_once_cases)
  case (took f p evs')
  have wf: "client_wf c"
    using inv by (simp add: all_unusable_def)
  have t: "TakePreferringUntried (a_pick a) (a_ctx a) tried (c_pool c) = (Took f, p)"
    using took(1) a by simp
  note tf = taken_front [OF wf t] and tr = taken_room [OF wf t] and fl = TakePreferringUntried_fields [OF t]
  have un: "unusable pf req (c\<lparr>c_pool := p\<rparr>) f"
  proof -
    have "providerFor (c\<lparr>c_pool := p\<rparr>) (mem p f) = providerFor c (mem (c_pool c) f)"
      using providerFor_cong [of "c\<lparr>c_pool := p\<rparr>" c f] tr(5) by simp
    with inv tf(1) show ?thesis
      by (auto simp: all_unusable_def unusable_def)
  qed
  have fr: "attempt_front pf a req mk nb tried f (c\<lparr>c_pool := p\<rparr>) = (v, c', evs')"
    using took(2) a by simp
  then have v: "\<exists>e. v = Retry e tried nb \<and> evs' = [EvBack f Requeued]" and c': "c' = c\<lparr>c_pool := addReady f p\<rparr>"
    by (atomize (full), cases rule: attempt_front_cases)
      (use un in \<open>auto simp: unusable_def on_pool_def pool_Return_def\<close>)
  have m: "mset (ready (c_pool c')) = mset (ready (c_pool c))"
    using tf(5) tr(2) by (simp add: c')
  have "unusable pf req c' g = unusable pf req c g" for g
    using providerFor_cong [of c' c g] tr(5) by (simp add: unusable_def c' addReady_fields)
  moreover have "client_wf c'"
    using pool_op_wf [OF tf(3), of "addReady f"] addReady_wf [of p f] tf(2,3)
    by (simp add: c' on_pool_def addReady_fields client_wf_pool [OF tf(3), simplified])
  ultimately have "all_unusable pf req c'"
    using inv m fl(3) unfolding all_unusable_def
    by (auto simp: c' addReady_fields simp flip: set_mset_mset)
  with v m show ?thesis by (auto simp: took(3))
qed (use inv a in \<open>auto simp: all_unusable_def\<close>)

lemma loop_unusable:
  assumes "\<forall>i. others_take (world i) = id \<and> a_ctx (world i) = None"
  shows "all_unusable pf req c \<Longrightarrow>
    \<exists>e c' tr. rt_loop pf world req mk maxR n i nb tried lastErr c = (RtErr e, c', tr) \<and> length tr = n \<and>
      mset (ready (c_pool c')) = mset (ready (c_pool c)) \<and> (\<forall>evs\<in>set tr. \<forall>n. EvNet n \<notin> set evs)"
proof (induction n arbitrary: i lastErr c)
  case (Suc n)
  obtain v d evs where at: "attempt_once pf (world i) req mk nb tried c = (v, d, evs)"
    by (metis prod_cases3)
  have "others_take (world i) = id" "a_ctx (world i) = None"
    using assms by auto
  from attempt_unusable [OF Suc.prems this at] obtain e where
    d: "v = Retry e tried nb" "all_unusable pf req d" "mset (ready (c_pool d)) = mset (ready (c_pool c))"
      "\<forall>n. EvNet n \<notin> set evs"
    by blast
  from Suc.IH [OF d(2), of "Suc i" "Some e"] obtain e' c' tr where
    "rt_loop pf world req mk maxR n (Suc i) nb tried (Some e) d = (RtErr e', c', tr)" "length tr = n"
    "mset (ready (c_pool c')) = mset (ready (c_pool d))" "\<forall>evs\<in>set tr. \<forall>n. EvNet n \<notin> set evs"
    by blast
  with at d show ?case by auto
qed simp

text \<open>Each attempt of the loop with the settings of the client, and how the loop goes on after it.\<close>

lemma rt_loop_attempt:
  assumes "\<forall>i. settled (world i)"
    and "rt_loop pf world req mk (maxRetries c) (nat (maxRetries c)) 0 0 {} None c = (r, c', tr)" and "k < length tr"
  shows "\<exists>nb tried d v d'. attempt_once pf (world k) req mk nb tried d = (v, d', tr ! k) \<and> settings d = settings c \<and>
    (if Suc k < length tr then \<exists>e t m. v = Retry e t m
     else v = Done r \<or> (\<exists>e t m. v = Retry e t m \<and> (\<exists>e'. r = RtErr e')))"
proof -
  have "kept_by_attempts pf world req mk (\<lambda>d. settings d = settings c)"
    using attempt_once_settings assms(1) unfolding kept_by_attempts_def by metis
  from rt_loop_steps [OF this assms(2) refl, THEN conjunct2, THEN conjunct2, THEN conjunct2, rule_format, OF assms(3)]
  obtain nb tried d v d' where "attempt_once pf (world (0 + k)) req mk nb tried d = (v, d', tr ! k)"
    "settings d = settings c" "if Suc k < length tr then \<exists>e t m. v = Retry e t m
       else d' = c' \<and> (v = Done r \<or>
         length tr = nat (maxRetries c) \<and> (\<exists>e t m. v = Retry e t m \<and> r = RtErr (after_all (maxRetries c) (Some e))))"
    by blast
  then show ?thesis
    by (rule_tac x = nb in exI, rule_tac x = tried in exI, rule_tac x = d in exI,
        rule_tac x = v in exI, rule_tac x = d' in exI) (auto split: if_splits)
qed

text \<open>With no retry left to explain it, a result is that of the last attempt.\<close>

lemma rt_loop_last:
  assumes "\<forall>i. settled (world i)"
    and "rt_loop pf world req mk (maxRetries c) (nat (maxRetries c)) 0 0 {} None c = (r, c', tr)" and "\<And>e. r \<noteq> RtErr e"
  obtains nb tried d d' where "tr \<noteq> []" "settings d = settings c"
    "attempt_once pf (world (length tr - 1)) req mk nb tried d = (Done r, d', last tr)"
proof -
  have "kept_by_attempts pf world req mk (\<lambda>_. True)"
    by (simp add: kept_by_attempts_def)
  from rt_loop_steps [OF this assms(2)] assms(3) have ne: "tr \<noteq> []" by auto
  from rt_loop_attempt [OF assms(1,2), of "length tr - 1"] ne assms(3) that show thesis
    by (auto simp: last_conv_nth)
qed

lemma attempt_without_response:
  assumes "attempt_once pf a req mk nb tried d = (v, d', evs)" and "\<And>resp. v \<noteq> Done (Response resp)"
  shows "(f, Succeeded) \<notin> set (given_back evs)"
proof (cases v)
  case (Done r')
  with attempt_once_trace [OF assms(1)] assms(2) show ?thesis by (cases r') auto
qed (use attempt_once_trace [OF assms(1)] in auto)

subsection \<open>Properties\<close>


definition sample_attempt :: attempt where
  "sample_attempt =
     \<lparr>others_take = id, a_pick = 0, a_ctx = None, a_env = sample_dial_env, others_dial = id,
      a_tr = sample_transports 200, others_send = id, a_now = unix_epoch + 9\<rparr>"

lemma sample_attempt_settled: "settled sample_attempt" "polite_attempt sample_attempt"
  by (simp_all add: settled_def polite_attempt_def polite_def sample_attempt_def)

lemma sample_crawl_client_wf: "client_wf sample_crawl_client" "maxRetries sample_crawl_client = 6"
  by (auto simp: client_wf_def pool_wf_def sample_crawl_client_def sample_pool_ok sample_pool_fields)
    (auto simp: sample_client_def default_client_def newPauseGate_wf sample_pool_def)


lemma RoundTrip_attempts:
  assumes "RoundTrip pf world req c = (r, c', tr)" "evs \<in> set tr"
  obtains mk i nb tried d v d' where "attempt_once pf (world i) req mk nb tried d = (v, d', evs)"
proof (cases "getBodyFactory req")
  case (Inl e)
  with assms show ?thesis by (simp add: RoundTrip_def)
next
  case (Inr mk)
  then have loop: "rt_loop pf world req mk (maxRetries c) (nat (maxRetries c)) 0 0 {} None c = (r, c', tr)"
    using assms(1) by (simp add: RoundTrip_def)
  have "kept_by_attempts pf world req mk (\<lambda>_. True)"
    by (simp add: kept_by_attempts_def)
  from rt_loop_steps [OF this loop TrueI] assms(2) that show ?thesis
    by (metis in_set_conv_nth)
qed

text \<open>
  C4: an attempt of \<open>RoundTrip\<close> takes at most one front and gives that same front back exactly once,
  requeued, failed or as a success; and unless it was a success, the attempt closes every connection it
  opened, so neither fronts nor connections leak on any path.
\<close>

theorem RoundTrip_accounts_for_fronts:
  assumes "RoundTrip pf world req c = (r, c', tr)" and "evs \<in> set tr"
  shows "evs = [] \<or> (\<exists>f how. taken evs = [f] \<and> given_back evs = [(f, how)] \<and>
    (how \<noteq> Succeeded \<longrightarrow> (\<forall>a r. EvNet (Dialed a r) \<in> set evs \<longrightarrow> EvNet (CloseRaw r) \<in> set evs)))"
proof -
  obtain mk i nb tried d v d' where at: "attempt_once pf (world i) req mk nb tried d = (v, d', evs)"
    using assms by (rule RoundTrip_attempts)
  have c: "EvNet (CloseRaw r) \<in> set evs" if "closes_what_it_dials evs" "EvNet (Dialed a r) \<in> set evs" for a r
    using that by (auto simp: closes_what_it_dials_def)
  from attempt_once_trace [OF at] show ?thesis
  proof (elim disjE)
    assume "\<exists>f how p. taken evs = [f] \<and> given_back evs = [(f, how)] \<and>
    (case v of
       Retry e t m \<Rightarrow> how \<noteq> Succeeded \<and> closes_what_it_dials evs
     | Done (Response resp) \<Rightarrow> how = Succeeded \<and> accepted (others_dial (world i) ((others_take (world i) d)\<lparr>c_pool := p\<rparr>)) resp
     | Done (RtErr e) \<Rightarrow> how = Requeued \<and> closes_what_it_dials evs
     | Done RtBlocked \<Rightarrow> False)"
    with c show ?thesis
      by (elim exE conjE) (intro disjI2 exI conjI, assumption, assumption,
        auto split: verdict.splits rt_result.splits)
  qed simp
qed

text \<open>
  C18: fronts are not used up by requests they cannot carry: when no ready front has a provider that maps
  the host of the request, \<open>RoundTrip\<close> tries \<open>maxRetries\<close> of them without any network activity, fails,
  and leaves the same fronts in the ready queue. So two such fronts, of providers that a config update
  removed while they were in use, keep the crawler from ever becoming due again.
\<close>

theorem unusable_fronts_circulate:
  assumes "client_wf c" and "\<not> pool_closed (c_pool c)" and "ready (c_pool c) \<noteq> []"
    and "\<forall>f\<in>set (ready (c_pool c)).
      (case providerFor c (mem (c_pool c) f) of
         None \<Rightarrow> True
       | Some provider \<Rightarrow> Lookup (ulower pf) provider (url_Hostname (u_Host (URL req))) = '''')"
    and "\<forall>i. others_take (world i) = id \<and> a_ctx (world i) = None" and "getBodyFactory req = Inr mk"
  shows "\<exists>e c' tr. RoundTrip pf world req c = (RtErr e, c', tr) \<and> length tr = nat (maxRetries c) \<and>
    (\<forall>evs\<in>set tr. \<forall>n. EvNet n \<notin> set evs) \<and>
    mset (ready (c_pool c')) = mset (ready (c_pool c)) \<and> crawler_due c' = crawler_due c"
proof -
  have "all_unusable pf req c"
    using assms(1-4) by (simp add: all_unusable_def unusable_def)
  from loop_unusable [OF assms(5) this] obtain e c' tr where
    "rt_loop pf world req mk (maxRetries c) (nat (maxRetries c)) 0 0 {} None c = (RtErr e, c', tr)"
    "length tr = nat (maxRetries c)" "mset (ready (c_pool c')) = mset (ready (c_pool c))"
    "\<forall>evs\<in>set tr. \<forall>n. EvNet n \<notin> set evs"
    by blast
  with assms(6) show ?thesis
    by (simp add: RoundTrip_def crawler_due_def readyCount_def mset_eq_length [of "ready (c_pool c')"])
qed

theorem unusable_fronts_circulate_witness:
  "\<exists>e c' tr. RoundTrip sample_platform (\<lambda>_. sample_attempt) sample_request sample_crawl_client = (RtErr e, c', tr) \<and>
     \<not> crawler_due c'"
proof -
  have u: "\<forall>f\<in>set (ready (c_pool sample_crawl_client)).
      (case providerFor sample_crawl_client (mem (c_pool sample_crawl_client) f) of
         None \<Rightarrow> True
       | Some provider \<Rightarrow> Lookup (ulower sample_platform) provider (url_Hostname (u_Host (URL sample_request))) = '''')"
    by (simp add: providerFor_def sample_crawl_client_def sample_client_def default_client_def)
  have "\<not> pool_closed (c_pool sample_crawl_client)" "ready (c_pool sample_crawl_client) \<noteq> []"
    by (simp_all add: sample_crawl_client_fields sample_pool_fields)
  moreover have "\<forall>i::nat. others_take sample_attempt = id \<and> a_ctx sample_attempt = None"
    by (simp add: sample_attempt_def)
  moreover have "getBodyFactory sample_request = Inr (\<lambda>_. Inr None)"
    by (simp add: getBodyFactory_def sample_request_def)
  moreover have "\<not> crawler_due sample_crawl_client"
    by (simp add: crawler_due_def readyCount_def sample_crawl_client_fields sample_pool_fields)
  ultimately show ?thesis
    using unusable_fronts_circulate [OF sample_crawl_client_wf(1) _ _ u] by metis
qed

lemma sent_net [simp]: "EvSent f h \<notin> EvNet ` X" "EvNet n \<in> EvNet ` X \<longleftrightarrow> n \<in> X"
  by auto

text \<open>What an attempt dials and sends, and how it updates the providers tried.\<close>

lemma attempt_front_sends:
  assumes "attempt_front pf a req mk nb tried f c = (v, c', evs)"
  shows "EvNet n \<in> set evs \<or> EvSent g h \<in> set evs \<Longrightarrow> \<exists>provider. providerFor c (mem (c_pool c) f) = Some provider \<and>
      Lookup (ulower pf) provider (url_Hostname (u_Host (URL req))) \<noteq> '''' \<and>
      (\<forall>g h. EvSent g h \<in> set evs \<longrightarrow> g = f \<and> h = Lookup (ulower pf) provider (url_Hostname (u_Host (URL req))))"
    "v = Retry e t m \<Longrightarrow> t = (if (\<exists>h. EvSent f h \<in> set evs) \<and> \<not> errors_is e ErrH2UpgradeUnsupported
       then insert (ProviderID (mem (c_pool c) f)) tried else tried)"
  using assms
proof (atomize (full), cases rule: attempt_front_cases)
  case (dialed provider res nevs conn evs')
  from dialed(6) show "(EvNet n \<in> set evs \<or> EvSent g h \<in> set evs \<longrightarrow> (\<exists>provider. providerFor c (mem (c_pool c) f) = Some provider \<and>
      Lookup (ulower pf) provider (url_Hostname (u_Host (URL req))) \<noteq> '''' \<and>
      (\<forall>g h. EvSent g h \<in> set evs \<longrightarrow> g = f \<and> h = Lookup (ulower pf) provider (url_Hostname (u_Host (URL req)))))) \<and>
     (v = Retry e t m \<longrightarrow> t = (if (\<exists>h. EvSent f h \<in> set evs) \<and> \<not> errors_is e ErrH2UpgradeUnsupported
       then insert (ProviderID (mem (c_pool c) f)) tried else tried))"
    by (cases rule: attempt_request_cases) (use dialed(1,2,7) in auto)
qed auto

lemma attempt_once_took:
  assumes "attempt_once pf a req mk nb tried c = (v, c', evs)" "evs \<noteq> []"
  obtains f p evs' where
    "TakePreferringUntried (a_pick a) (a_ctx a) tried (c_pool (others_take a c)) = (Took f, p)"
    "attempt_front pf a req mk nb tried f ((others_take a c)\<lparr>c_pool := p\<rparr>) = (v, c', evs')"
    "evs = EvTook f # evs'" "taken evs = [f]"
    "\<And>g. ProviderID (mem p g) = ProviderID (mem (c_pool (others_take a c)) g)"
    "providerFor ((others_take a c)\<lparr>c_pool := p\<rparr>) (mem p f) =
       providerFor (others_take a c) (mem (c_pool (others_take a c)) f)"
  using assms(1)
proof (cases rule: attempt_once_cases)
  case (took f p evs')
  have id: "ident p = ident (c_pool (others_take a c))"
    using TakePreferringUntried_fields(5) [OF took(1)] .
  have "taken evs = [f]"
    using attempt_front_trace [OF took(2)] by (simp add: took(3))
  moreover have "providerFor ((others_take a c)\<lparr>c_pool := p\<rparr>) (mem p f) =
       providerFor (others_take a c) (mem (c_pool (others_take a c)) f)"
    using providerFor_cong [of "(others_take a c)\<lparr>c_pool := p\<rparr>" "others_take a c" f] id by simp
  moreover have "ProviderID (mem p g) = ProviderID (mem (c_pool (others_take a c)) g)" for g
    by (rule ident_provider) (simp add: id)
  ultimately show ?thesis
    by (intro that [OF took(1,2,3)])
qed (use assms(2) in auto)

text \<open>
  C15: a front is dialed, and a request sent, only through a front whose provider maps the host of the
  request; what is sent is addressed to the host that \<open>Lookup\<close> gives for it, through that front.
\<close>

theorem attempt_sends_only_mapped:
  assumes "attempt_once pf a req mk nb tried c = (v, c', evs)" and "EvNet n \<in> set evs \<or> EvSent g h \<in> set evs"
  shows "\<exists>f provider. taken evs = [f] \<and>
    providerFor (others_take a c) (mem (c_pool (others_take a c)) f) = Some provider \<and>
    Lookup (ulower pf) provider (url_Hostname (u_Host (URL req))) \<noteq> '''' \<and>
    (\<forall>g h. EvSent g h \<in> set evs \<longrightarrow> g = f \<and> h = Lookup (ulower pf) provider (url_Hostname (u_Host (URL req))))"
proof -
  have "evs \<noteq> []" using assms(2) by auto
  with assms(1) obtain f p evs' where
    fr: "attempt_front pf a req mk nb tried f ((others_take a c)\<lparr>c_pool := p\<rparr>) = (v, c', evs')"
    and evs: "evs = EvTook f # evs'" "taken evs = [f]"
    and pr: "providerFor ((others_take a c)\<lparr>c_pool := p\<rparr>) (mem p f) =
       providerFor (others_take a c) (mem (c_pool (others_take a c)) f)"
    by (rule attempt_once_took)
  have "EvNet n \<in> set evs' \<or> EvSent g h \<in> set evs'"
    using assms(2) evs by auto
  from attempt_front_sends(1) [OF fr this] pr evs show ?thesis by auto
qed

text \<open>
  C16: a retry moves away from a provider that answers but does not forward: the front of an attempt is
  the first among the head of the ready queue and the next eight whose provider is not in \<open>tried\<close> (or
  the head when there is none), and a provider is added to \<open>tried\<close> exactly when a request was sent
  through one of its fronts and failed, other than by an upgrade over HTTP/2.
\<close>

theorem attempt_escapes_provider:
  assumes "client_wf (others_take a c)" and "attempt_once pf a req mk nb tried c = (v, c', evs)" and "taken evs = [f]"
  shows "f = (case find (\<lambda>g. ProviderID (mem (c_pool (others_take a c)) g) \<notin> tried)
                 (take (Suc maxProviderScan) (ready (c_pool (others_take a c)))) of
               Some g \<Rightarrow> g | None \<Rightarrow> hd (ready (c_pool (others_take a c)))) \<and>
    (case v of
       Retry e t m \<Rightarrow> t = (if (\<exists>h. EvSent f h \<in> set evs) \<and> \<not> errors_is e ErrH2UpgradeUnsupported
         then insert (ProviderID (mem (c_pool (others_take a c)) f)) tried else tried)
     | Done r \<Rightarrow> True)"
proof -
  have "evs \<noteq> []" using assms(3) by auto
  with assms(2) obtain g p evs' where
    t: "TakePreferringUntried (a_pick a) (a_ctx a) tried (c_pool (others_take a c)) = (Took g, p)"
    and fr: "attempt_front pf a req mk nb tried g ((others_take a c)\<lparr>c_pool := p\<rparr>) = (v, c', evs')"
    and evs: "evs = EvTook g # evs'" "taken evs = [g]"
    and pid: "\<And>x. ProviderID (mem p x) = ProviderID (mem (c_pool (others_take a c)) x)"
    by (rule attempt_once_took) blast
  have g: "g = f" using evs(2) assms(3) by simp
  have "pool_ok (c_pool (others_take a c))"
    using assms(1) by (simp add: client_wf_def pool_wf_def)
  from TakePreferringUntried_took [OF this t] have "f = preferred tried (c_pool (others_take a c))"
    by (simp add: g)
  moreover have "case v of
       Retry e t m \<Rightarrow> t = (if (\<exists>h. EvSent f h \<in> set evs) \<and> \<not> errors_is e ErrH2UpgradeUnsupported
         then insert (ProviderID (mem (c_pool (others_take a c)) f)) tried else tried)
     | Done r \<Rightarrow> True"
  proof (cases v)
    case (Retry e t m)
    from attempt_front_sends(2) [OF fr this] show ?thesis
      by (simp add: Retry g evs(1) pid split: if_splits)
  qed simp
  ultimately show ?thesis
    by (simp add: preferred_def)
qed

text \<open>
  C17: what an attempt records matches what happened: a front given back as requeued, which is no fault
  of its own, keeps its success time; one that failed loses it and leaves the ready queue; one that
  carried the request has the time of its success and is ready again; no other front is touched. A
  change is marked for the cache saver. (No other goroutine acts on the pool during the attempt.)
\<close>

theorem attempt_records_health:
  assumes "client_wf c" and "attempt_once pf a req mk nb tried c = (v, c', evs)"
    and "others_take a = id" and "others_dial a = id" and "others_send a = id"
    and "given_back evs = [(f, how)]"
  shows "(\<forall>g. LastSucceeded (mem (c_pool c') g) =
        (if g = f \<and> how = Failed then zero_time else if g = f \<and> how = Succeeded then a_now a
         else LastSucceeded (mem (c_pool c) g))) \<and>
     mset (ready (c_pool c)) = (if how = Failed then add_mset f (mset (ready (c_pool c'))) else mset (ready (c_pool c'))) \<and>
     (if how = Requeued then True else cacheDirty c')"
  using attempt_once_health [OF assms] by (simp add: health_recorded_def)

text \<open>
  An upgrade request (such as a WebSocket) that lands on a front with HTTP/2 costs the front nothing:
  it is requeued with its success time, its provider is not marked as tried, its connection is closed,
  and the request goes on to another front.
\<close>

theorem upgrade_is_not_a_front_failure:
  assumes "conn_proto conn = ''h2''" and "hasConnectionUpgrade req" and "mk nb = Inr body"
    and "attempt_request pf a req mk nb tried f pid frontedHost conn c = (v, c', evs)"
  shows "v = Retry ErrH2UpgradeUnsupported tried (Suc nb) \<and> given_back evs = [(f, Requeued)] \<and>
    EvNet (CloseRaw (conn_raw conn)) \<in> set evs \<and> c_pool c' = addReady f (c_pool (others_send a c))"
  using assms(4)
proof (cases rule: attempt_request_cases)
  case (failed body' e)
  with doRequest_upgrade [OF assms(1,2)] have "e = ErrH2UpgradeUnsupported" by simp
  with failed show ?thesis
    by (simp add: notifyCacheDirty_def on_pool_def pool_Return_def)
qed (use assms doRequest_upgrade [OF assms(1,2)] in auto)

text \<open>
  \<open>RoundTrip\<close> keeps the client well-formed on every path, success or error, as long as the other
  goroutines do: the ready queue agrees with the fronts' flags, holds no front twice and only fronts
  that exist, and the pause gate is sound.
\<close>

theorem RoundTrip_keeps_client_wf:
  assumes "\<forall>i. polite_attempt (world i)" and "client_wf c" and "RoundTrip pf world req c = (r, c', tr)"
  shows "client_wf c'"
proof (cases "getBodyFactory req")
  case (Inl e)
  with assms(2,3) show ?thesis by (simp add: RoundTrip_def)
next
  case (Inr mk)
  then have loop: "rt_loop pf world req mk (maxRetries c) (nat (maxRetries c)) 0 0 {} None c = (r, c', tr)"
    using assms(3) by (simp add: RoundTrip_def)
  have "kept_by_attempts pf world req mk client_wf"
    using attempt_once_wf assms(1) unfolding kept_by_attempts_def by blast
  from rt_loop_steps [OF this loop assms(2)] show ?thesis by simp
qed

subsection \<open>A sample run, used by the witnesses\<close>

definition sample_rt_client :: client where
  "sample_rt_client = sample_crawl_client\<lparr>providers := [(''a'', sample_expanded), (''b'', sample_expanded)]\<rparr>"

definition good_attempt :: attempt where
  "good_attempt = sample_attempt\<lparr>a_env := sample_dial_env\<lparr>cert_Verify := \<lambda>_ _. None\<rparr>\<rparr>"

lemma sample_rt_client_fields:
  "c_pool sample_rt_client = sample_pool" "providers sample_rt_client = [(''a'', sample_expanded), (''b'', sample_expanded)]"
  "client_wf sample_rt_client" "retryableResponse sample_rt_client = Some defaultRetryableResponse"
  using sample_crawl_client_wf(1)
  by (simp_all add: sample_rt_client_def sample_crawl_client_fields client_wf_def)
    (simp add: sample_crawl_client_def sample_client_def default_client_def)

definition sample_pool_taken :: pool where
  "sample_pool_taken = set_queued False 0 (sample_pool\<lparr>ready := [1, 2]\<rparr>)"

lemma sample_take: "TakePreferringUntried 0 None {} sample_pool = (Took 0, sample_pool_taken)"
  by (simp add: TakePreferringUntried_def Take_def take_cases_def sample_pool_fields sample_pool_taken_def)

lemma sample_lookup:
  "Lookup (ulower sample_platform) sample_expanded (url_Hostname (u_Host (URL sample_request))) = ''d1234.cloudfront.net''"
proof -
  have "strip_port ''config.example.com'' = ''config.example.com''"
    by (rule strip_port_plain) simp
  moreover have "url_Hostname ''config.example.com'' = ''config.example.com''"
    by (simp add: url_Hostname_def Let_def LastIndexByte_None_iff [THEN iffD2])
  ultimately show ?thesis
    by (simp add: Lookup_def sample_platform_def sample_expanded_def sample_request_def toLowerFast_def is_upper_code)
qed

lemma sample_good_dial:
  "\<exists>cfg. dialFront (a_env good_attempt) (mem sample_pool_taken 0) r h =
     (\<lparr>dr_conn = Some \<lparr>conn_raw = 7, conn_proto = ''h2''\<rparr>, retriable = False, dr_err = None\<rparr>,
      [Dialed ''13.224.0.1:443'' 7, HandshakeSent cfg])"
proof -
  have "dial_addr ''13.224.0.1'' = ''13.224.0.1:443''"
    by (simp add: dial_addr_def SplitHostPort_no_colon JoinHostPort_def)
  then show ?thesis
    by (simp add: good_attempt_def sample_attempt_def sample_pool_def dialFront_def sample_dial_env_def newFront_def
        sample_masquerade_def front_tls_config_def verifyPeerCertificate_def Let_def sample_pool_taken_def set_queued_def upd_front_def)
qed

lemma sample_good_request:
  "doRequest (sample_transports 200) vf (Some defaultRetryableResponse) sample_request \<lparr>conn_raw = 7, conn_proto = ''h2''\<rparr>
     fh pid None = Inr \<lparr>StatusCode = 200, resp_content = ''ok'', body_closes = Some 7\<rparr>"
  by (simp add: doRequest_def Let_def sendOverConn_def hasConnectionUpgrade_fronted roundTripH2_def
      sample_transports_def defaultRetryableResponse_def)
    (simp add: hasConnectionUpgrade_def sample_request_def)

lemma sample_good_attempt:
  "\<exists>c' cfg. attempt_once sample_platform good_attempt sample_request (\<lambda>_. Inr None) 0 {} sample_rt_client =
     (Done (Response \<lparr>StatusCode = 200, resp_content = ''ok'', body_closes = Some 7\<rparr>), c',
      [EvTook 0, EvNet (Dialed ''13.224.0.1:443'' 7), EvNet (HandshakeSent cfg),
       EvSent 0 ''d1234.cloudfront.net'', EvBack 0 Succeeded])"
proof -
  have a: "others_take good_attempt = id" "others_dial good_attempt = id" "others_send good_attempt = id"
    "a_pick good_attempt = 0" "a_ctx good_attempt = None" "a_tr good_attempt = sample_transports 200"
    by (simp_all add: good_attempt_def sample_attempt_def)
  have "ProviderID (mem sample_pool_taken 0) = ''a''"
    using ident_provider [of sample_pool_taken 0 sample_pool 0] by (simp add: sample_pool_taken_def pool_simps sample_pool_fields)
  then have p: "providerFor (sample_rt_client\<lparr>c_pool := sample_pool_taken\<rparr>) (mem sample_pool_taken 0) = Some sample_expanded"
    by (simp add: providerFor_def sample_rt_client_fields)
  obtain cfg where d: "dialFront (a_env good_attempt) (mem sample_pool_taken 0) r h =
     (\<lparr>dr_conn = Some \<lparr>conn_raw = 7, conn_proto = ''h2''\<rparr>, retriable = False, dr_err = None\<rparr>,
      [Dialed ''13.224.0.1:443'' 7, HandshakeSent cfg])"
    if "r = certPool sample_platform (sample_rt_client\<lparr>c_pool := sample_pool_taken\<rparr>)"
      "h = clientHelloID (sample_rt_client\<lparr>c_pool := sample_pool_taken\<rparr>)" for r h
    using sample_good_dial by metis
  show ?thesis
    by (simp add: attempt_once_def a sample_rt_client_fields sample_take attempt_front_def p d sample_lookup
        attempt_request_def sample_good_request [simplified] Let_def)
qed

lemma good_attempt_alone:
  "others_take good_attempt = id" "others_dial good_attempt = id" "others_send good_attempt = id"
  "a_now good_attempt = unix_epoch + 9" "polite_attempt good_attempt"
  by (simp_all add: good_attempt_def sample_attempt_def polite_attempt_def polite_def)

theorem RoundTrip_accounts_for_fronts_witness:
  "\<exists>evs. evs \<in> set (snd (snd (RoundTrip sample_platform (\<lambda>_. good_attempt) sample_request sample_rt_client))) \<and>
     given_back evs = [(0, Succeeded)]"
proof -
  let ?w = "\<lambda>_::nat. good_attempt"
  obtain r c' tr where rt: "RoundTrip sample_platform ?w sample_request sample_rt_client = (r, c', tr)"
    by (metis prod_cases3)
  have 6: "nat (maxRetries sample_rt_client) = Suc 5"
    by (simp add: sample_rt_client_def sample_crawl_client_def sample_client_def default_client_def)
  have "getBodyFactory sample_request = Inr (\<lambda>_. Inr None)"
    by (simp add: getBodyFactory_def sample_request_def)
  with rt have l: "rt_loop sample_platform ?w sample_request (\<lambda>_. Inr None) (maxRetries sample_rt_client) (Suc 5) 0 0 {} None
      sample_rt_client = (r, c', tr)"
    unfolding RoundTrip_def 6 by (simp only: sum.case)
  from sample_good_attempt l [unfolded rt_loop.simps(2)] obtain cfg where e: "tr = [[EvTook 0, EvNet (Dialed ''13.224.0.1:443'' 7),
      EvNet (HandshakeSent cfg), EvSent 0 ''d1234.cloudfront.net'', EvBack 0 Succeeded]]" (is "tr = [?e]")
    by auto
  with RoundTrip_accounts_for_fronts [OF rt, of ?e] show ?thesis
    by (intro exI [of _ ?e]) (simp add: rt)
qed

theorem attempt_sends_only_mapped_witness:
  "\<exists>provider. providerFor sample_rt_client (mem sample_pool 0) = Some provider \<and>
     Lookup (ulower sample_platform) provider (url_Hostname (u_Host (URL sample_request))) = ''d1234.cloudfront.net''"
proof -
  obtain c' cfg where at: "attempt_once sample_platform good_attempt sample_request (\<lambda>_. Inr None) 0 {} sample_rt_client =
     (Done (Response \<lparr>StatusCode = 200, resp_content = ''ok'', body_closes = Some 7\<rparr>), c',
      [EvTook 0, EvNet (Dialed ''13.224.0.1:443'' 7), EvNet (HandshakeSent cfg),
       EvSent 0 ''d1234.cloudfront.net'', EvBack 0 Succeeded])"
    using sample_good_attempt by blast
  from attempt_sends_only_mapped [OF at, of "Dialed ''13.224.0.1:443'' 7"] show ?thesis
    by (auto simp: good_attempt_alone sample_rt_client_fields)
qed

theorem attempt_escapes_provider_witness:
  "\<exists>v c' evs. attempt_once sample_platform good_attempt sample_request (\<lambda>_. Inr None) 0 {} sample_rt_client = (v, c', evs) \<and>
     taken evs = [0] \<and> hd (ready sample_pool) = 0"
proof -
  obtain v c' evs where at: "attempt_once sample_platform good_attempt sample_request (\<lambda>_. Inr None) 0 {} sample_rt_client =
     (v, c', evs)" and t: "taken evs = [0]"
    using sample_good_attempt by fastforce
  have wf: "client_wf (others_take good_attempt sample_rt_client)"
    by (simp add: good_attempt_alone sample_rt_client_fields)
  from attempt_escapes_provider [OF wf at t] at t show ?thesis
    by (simp add: good_attempt_alone sample_rt_client_fields sample_pool_fields)
qed

theorem attempt_records_health_witness:
  "\<exists>v c' evs. attempt_once sample_platform good_attempt sample_request (\<lambda>_. Inr None) 0 {} sample_rt_client = (v, c', evs) \<and>
     LastSucceeded (mem (c_pool c') 0) = unix_epoch + 9 \<and> mset (ready (c_pool c')) = {#0, 1, 2#}"
proof -
  obtain v c' evs where at: "attempt_once sample_platform good_attempt sample_request (\<lambda>_. Inr None) 0 {} sample_rt_client =
     (v, c', evs)" and t: "given_back evs = [(0, Succeeded)]"
    using sample_good_attempt by fastforce
  from attempt_records_health [OF sample_rt_client_fields(3) at good_attempt_alone(1,2,3) t] at show ?thesis
    by (simp add: good_attempt_alone sample_rt_client_fields sample_pool_fields)
qed

definition sample_upgrade :: request where
  "sample_upgrade = sample_request\<lparr>Header := [(''Connection'', [''Upgrade''])]\<rparr>"

lemma sample_upgrade_is: "hasConnectionUpgrade sample_upgrade"
proof -
  have "strings_TrimSpace ''Upgrade'' = ''Upgrade''"
    by (rule strings_TrimSpace_visible) simp_all
  then show ?thesis
    by (simp add: sample_upgrade_def sample_request_def hasConnectionUpgrade_def connection_tokens_def
        header_Values_def connection_key char_eval)
qed

theorem upgrade_is_not_a_front_failure_witness:
  "\<exists>v c' evs. attempt_request sample_platform good_attempt sample_upgrade (\<lambda>_. Inr None) 0 {} 0 ''a'' ''d1234.cloudfront.net''
     \<lparr>conn_raw = 7, conn_proto = ''h2''\<rparr> sample_rt_client = (v, c', evs) \<and> given_back evs = [(0, Requeued)]"
proof -
  obtain v c' evs where at: "attempt_request sample_platform good_attempt sample_upgrade (\<lambda>_. Inr None) 0 {} 0 ''a''
     ''d1234.cloudfront.net'' \<lparr>conn_raw = 7, conn_proto = ''h2''\<rparr> sample_rt_client = (v, c', evs)"
    by (metis prod_cases3)
  from upgrade_is_not_a_front_failure [OF _ sample_upgrade_is _ at] at show ?thesis by auto
qed

theorem RoundTrip_keeps_client_wf_witness:
  "client_wf (fst (snd (RoundTrip sample_platform (\<lambda>_. good_attempt) sample_request sample_rt_client)))"
proof -
  obtain r c' tr where rt: "RoundTrip sample_platform (\<lambda>_. good_attempt) sample_request sample_rt_client = (r, c', tr)"
    by (metis prod_cases3)
  have "\<forall>i::nat. polite_attempt good_attempt"
    by (simp add: good_attempt_alone)
  from RoundTrip_keeps_client_wf [OF this sample_rt_client_fields(3) rt] rt show ?thesis by simp
qed

end
