(* ===== verification/Connected.thy ===== *)
theory Connected
  imports RoundTrip
begin

text \<open>
  Pre-dialed round trippers (\<open>connected.go\<close>): the providers that map a host, one provider's lane of
  dials, the race of the lanes, and the single-use round tripper it hands out.
  As in \<open>RoundTrip\<close>, what other goroutines, the network and the scheduler do in one iteration of a lane
  is a record, and a trace says what was picked, dialed, given back and closed.
\<close>

subsection \<open>Providers and hosts\<close>

definition providersMapping :: "platform \<Rightarrow> client \<Rightarrow> string \<Rightarrow> string list" where
  "providersMapping pf c host =
     sort (map fst (filter (\<lambda>(pid, p). host = '''' \<or> Lookup (ulower pf) p host \<noteq> '''') (providers c)))"

definition providerIDOf :: "client \<Rightarrow> string \<Rightarrow> string" where
  "providerIDOf c pid = (if pid = '''' then defaultPID c else pid)"

definition hostOf :: "string \<Rightarrow> string" where
  "hostOf addr = (case SplitHostPort addr of Some (h, _) \<Rightarrow> h | None \<Rightarrow> addr)"

subsection \<open>One lane\<close>

record connectedRoundTripper =
  crt_front :: fref
  crt_provider :: provider
  crt_conn :: tls_conn

type_synonym laneResult = "goerr + connectedRoundTripper"

record lane_env =
  others_pick :: "client \<Rightarrow> client"
  l_ties :: "nat \<Rightarrow> nat"
  l_draw :: "nat \<Rightarrow> nat"
  l_env :: dial_env
  l_edge :: edge           \<comment> \<open>for the vetting request\<close>
  l_vet_ctx :: "goerr option"  \<comment> \<open>\<open>ctx.Err ()\<close> after the vetting request\<close>
  l_now :: gotime
  l_env2 :: dial_env       \<comment> \<open>for the dial after the vetting\<close>
  others_lane :: "client \<Rightarrow> client"  \<comment> \<open>while dialing\<close>
  l_ctx :: "goerr option"  \<comment> \<open>\<open>ctx.Err ()\<close> after the dial\<close>

datatype lane_event =
    LPick fref bool  \<comment> \<open>whether it came from the ready queue\<close>
  | LNet net_event
  | LVetted fref
  | LBack fref outcome  \<comment> \<open>a front of the ready queue is given back\<close>
  | LFailed fref        \<comment> \<open>a front that was not ready is marked as failed\<close>

text \<open>The vetting runs with a deadline on its connection, so it always returns.\<close>

definition dialUnvetted ::
  "platform \<Rightarrow> lane_env \<Rightarrow> fref \<Rightarrow> provider \<Rightarrow> client \<Rightarrow> dialResult \<times> client \<times> lane_event list" where
  "dialUnvetted pf a f provider c =
     (case dialFront (l_env a) (mem (c_pool c) f) (certPool pf c) (clientHelloID c) of
        (result, nevs) \<Rightarrow>
          (case dr_conn result of
             None \<Rightarrow> (result, c, map LNet nevs)
           | Some conn \<Rightarrow>
              (let ok = (verifyWithPost pf (l_edge a) True conn (TestURL provider) = Some True);
                   evs = map LNet nevs @ [LNet (CloseRaw (conn_raw conn))]
               in case l_vet_ctx a of
                    Some e \<Rightarrow> (dial_failed False e, c, evs)
                  | None \<Rightarrow>
                     (if \<not> ok then
                        (dial_failed False (ErrText (''front '' @ Domain (mem (c_pool c) f) @ '' failed vetting'')), c, evs)
                      else
                        (let c1 = on_pool (markSucceeded (l_now a) f) c
                         in case dialFront (l_env2 a) (mem (c_pool c1) f) (certPool pf c1) (clientHelloID c1) of
                              (result2, nevs2) \<Rightarrow> (result2, c1, evs @ [LVetted f] @ map LNet nevs2))))))"

text \<open>How an iteration ends: the loop goes on, breaks, or the lane returns.\<close>

datatype lane_verdict = LContinue goerr | LBreak | LReturn laneResult

definition give_back :: "bool \<Rightarrow> fref \<Rightarrow> client \<Rightarrow> client" where
  "give_back is_ready f c = (if is_ready then on_pool (pool_Return f True) c else c)"

definition back_event :: "bool \<Rightarrow> fref \<Rightarrow> lane_event list" where
  "back_event is_ready f = (if is_ready then [LBack f Requeued] else [])"

definition lane_dial ::
  "platform \<Rightarrow> lane_env \<Rightarrow> fref \<Rightarrow> bool \<Rightarrow> provider \<Rightarrow> client \<Rightarrow> dialResult \<times> client \<times> lane_event list" where
  "lane_dial pf a f is_ready provider c =
     (if is_ready then
        (let (r, nevs) = dialFront (l_env a) (mem (c_pool c) f) (certPool pf c) (clientHelloID c)
         in (r, c, map LNet nevs))
      else dialUnvetted pf a f provider c)"

text \<open>The part of an iteration after the front \<open>f\<close> was picked.\<close>

definition lane_front ::
  "platform \<Rightarrow> lane_env \<Rightarrow> string \<Rightarrow> string \<Rightarrow> fref \<Rightarrow> bool \<Rightarrow> client \<Rightarrow> lane_verdict \<times> client \<times> lane_event list" where
  "lane_front pf a pid host f is_ready c =
     (let fr = mem (c_pool c) f
      in case providerFor c fr of
           None \<Rightarrow> (LContinue (ErrText (''no provider for front '' @ ProviderID fr @ ''/'' @ Domain fr)),
                    give_back is_ready f c, back_event is_ready f)
         | Some provider \<Rightarrow>
            (if host \<noteq> '''' \<and> Lookup (ulower pf) provider host = '''' then
               (LReturn (Inl (ErrText (''provider '' @ pid @ '': no longer maps '' @ quoted host))),
                give_back is_ready f c, back_event is_ready f)
             else if \<not> is_ready \<and> TestURL provider = '''' then
               (LReturn (Inl (ErrText (''provider '' @ pid @ '': no ready fronts and no test URL to vet others''))), c, [])
             else
               (let (result, c1, evs) = lane_dial pf a f is_ready provider c;
                    c2 = others_lane a c1
                in case dr_err result of
                     Some e \<Rightarrow>
                       (case l_ctx a of
                          Some ce \<Rightarrow>
                            (LReturn (Inl (ErrWrap (''provider '' @ pid) ce)), give_back is_ready f c2,
                             evs @ back_event is_ready f)
                        | None \<Rightarrow>
                           (let lastErr = ErrWrap (''dial front '' @ Domain fr) e
                            in if is_ready then
                                 (LContinue lastErr, returnAfterDialFailure f c2,
                                  evs @ [LBack f (if isPaused (c_gate c2) then Requeued else Failed)])
                               else if \<not> isPaused (c_gate c2) then
                                 (LContinue lastErr, notifyCacheDirty (on_pool (markFailed f) c2), evs @ [LFailed f])
                               else (LContinue lastErr, c2, evs)))
                   | None \<Rightarrow>
                      (LReturn (Inr \<lparr>crt_front = f, crt_provider = provider, crt_conn = the (dr_conn result)\<rparr>),
                       c2, evs))))"

text \<open>
  One iteration. \<open>cands\<close> are the provider's candidates once they are loaded; the second component of
  the result is what they are afterwards.
\<close>

definition lane_candidates :: "lane_env \<Rightarrow> string \<Rightarrow> fref list option \<Rightarrow> client \<Rightarrow> fref list" where
  "lane_candidates a pid cands c =
     (case cands of
        Some cs \<Rightarrow> cs
      | None \<Rightarrow> filter (\<lambda>f. providerIDOf c (ProviderID (mem (c_pool c) f)) = pid)
                  (candidates (l_ties a) (l_draw a) (c_pool c)))"

definition lane_once ::
  "platform \<Rightarrow> lane_env \<Rightarrow> string \<Rightarrow> string \<Rightarrow> fref list option \<Rightarrow> fref set \<Rightarrow> client \<Rightarrow>
     lane_verdict \<times> fref list option \<times> fref option \<times> client \<times> lane_event list" where
  "lane_once pf a pid host cands tried c =
     (let c0 = others_pick a c
      in if isClosed (c_pool c0) then (LReturn (Inl (ErrWrap (''provider '' @ pid) ErrCanceled)), cands, None, c0, [])
         else
           case tryTakeFrom (\<lambda>f p. f \<notin> tried \<and> providerIDOf c0 p = pid) (c_pool c0) of
             (Some f, p) \<Rightarrow>
               (case lane_front pf a pid host f True (c0\<lparr>c_pool := p\<rparr>) of
                  (v, c1, evs) \<Rightarrow> (v, cands, Some f, c1, LPick f True # evs))
           | (None, p) \<Rightarrow>
               (let c1 = c0\<lparr>c_pool := p\<rparr>
                in case dropWhile (\<lambda>f. f \<in> tried) (lane_candidates a pid cands c1) of
                     [] \<Rightarrow> (LBreak, Some [], None, c1, [])
                   | f # rest \<Rightarrow>
                      (case lane_front pf a pid host f False c1 of
                         (v, c2, evs) \<Rightarrow> (v, Some rest, Some f, c2, LPick f False # evs))))"

definition lane_end :: "string \<Rightarrow> goerr option \<Rightarrow> laneResult" where
  "lane_end pid lastErr =
     (case lastErr of
        None \<Rightarrow> Inl (ErrText (''provider '' @ pid @ '': no fronts''))
      | Some e \<Rightarrow> Inl (ErrWrap (''provider '' @ pid) e))"

fun lane_loop ::
  "platform \<Rightarrow> (nat \<Rightarrow> lane_env) \<Rightarrow> string \<Rightarrow> string \<Rightarrow> nat \<Rightarrow> nat \<Rightarrow> fref list option \<Rightarrow> fref set \<Rightarrow> goerr option \<Rightarrow>
     client \<Rightarrow> laneResult \<times> client \<times> lane_event list list" where
  "lane_loop pf world pid host 0 i cands tried lastErr c = (lane_end pid lastErr, c, [])"
| "lane_loop pf world pid host (Suc n) i cands tried lastErr c =
     (case lane_once pf (world i) pid host cands tried c of
        (v, cands', picked, c', evs) \<Rightarrow>
          (case v of
             LReturn r \<Rightarrow> (r, c', [evs])
           | LBreak \<Rightarrow> (lane_end pid lastErr, c', [evs])
           | LContinue e \<Rightarrow>
              (case lane_loop pf world pid host n (Suc i) cands' (tried \<union> set_option picked) (Some e) c' of
                 (r, c'', tr) \<Rightarrow> (r, c'', evs # tr))))"

definition connectVia ::
  "platform \<Rightarrow> (nat \<Rightarrow> lane_env) \<Rightarrow> string \<Rightarrow> string \<Rightarrow> client \<Rightarrow> laneResult \<times> client \<times> lane_event list list" where
  "connectVia pf world pid host c = lane_loop pf world pid host (nat (maxRetries c)) 0 None {} None c"

subsection \<open>What the trace of a lane shows\<close>

definition picks :: "lane_event list \<Rightarrow> (fref \<times> bool) list" where
  "picks evs = concat (map (\<lambda>e. case e of LPick f b \<Rightarrow> [(f, b)] | _ \<Rightarrow> []) evs)"

definition backs :: "lane_event list \<Rightarrow> (fref \<times> outcome) list" where
  "backs evs = concat (map (\<lambda>e. case e of LBack f how \<Rightarrow> [(f, how)] | _ \<Rightarrow> []) evs)"

lemma lane_trace_simps [simp]:
  "picks [] = []" "picks (LPick f b # evs) = (f, b) # picks evs" "picks (LNet x # evs) = picks evs"
  "picks (LVetted f # evs) = picks evs" "picks (LBack f how # evs) = picks evs" "picks (LFailed f # evs) = picks evs"
  "picks (xs @ ys) = picks xs @ picks ys"
  "backs [] = []" "backs (LPick f b # evs) = backs evs" "backs (LNet x # evs) = backs evs"
  "backs (LVetted f # evs) = backs evs" "backs (LBack f how # evs) = (f, how) # backs evs"
  "backs (LFailed f # evs) = backs evs" "backs (xs @ ys) = backs xs @ backs ys"
  by (simp_all add: picks_def backs_def)

lemma lane_net_simps [simp]: "picks (map LNet nevs) = []" "backs (map LNet nevs) = []"
  "LNet e \<in> LNet ` X \<longleftrightarrow> e \<in> X" "LVetted f \<notin> LNet ` X" "LFailed f \<notin> LNet ` X" "LBack f how \<notin> LNet ` X"
  by (induction nevs) auto

lemma back_event_simps [simp]:
  "picks (back_event b f) = []" "backs (back_event b f) = (if b then [(f, Requeued)] else [])"
  "LNet e \<notin> set (back_event b f)" "LVetted g \<notin> set (back_event b f)" "LFailed g \<notin> set (back_event b f)"
  by (simp_all add: back_event_def)

text \<open>Every connection dialed is closed, except possibly \<open>keep\<close>.\<close>

definition closed_but :: "conn set \<Rightarrow> lane_event list \<Rightarrow> bool" where
  "closed_but keep evs \<longleftrightarrow>
     {r. \<exists>a. LNet (Dialed a r) \<in> set evs} \<subseteq> keep \<union> {r. LNet (CloseRaw r) \<in> set evs}"

lemma closed_butI:
  "(\<And>a r. LNet (Dialed a r) \<in> set evs \<Longrightarrow> r \<in> keep \<or> LNet (CloseRaw r) \<in> set evs) \<Longrightarrow> closed_but keep evs"
  by (auto simp: closed_but_def)

lemma closed_butD: "closed_but keep evs \<Longrightarrow> LNet (Dialed a r) \<in> set evs \<Longrightarrow> r \<in> keep \<or> LNet (CloseRaw r) \<in> set evs"
  by (auto simp: closed_but_def)

lemma closed_but_append: "closed_but keep xs \<Longrightarrow> closed_but keep ys \<Longrightarrow> closed_but keep (xs @ ys)"
  by (auto simp: closed_but_def)

lemma closed_but_Cons [simp]:
  "closed_but keep (LPick f b # evs) = closed_but keep evs" "closed_but keep (LVetted f # evs) = closed_but keep evs"
  "closed_but keep (evs @ back_event b f) = closed_but keep evs"
  "closed_but keep (evs @ [LBack f how]) = closed_but keep evs" "closed_but keep (evs @ [LFailed f]) = closed_but keep evs"
  "closed_but keep (back_event b f)" "closed_but keep []"
  by (auto simp: closed_but_def)

lemma closed_but_mono: "closed_but {} evs \<Longrightarrow> closed_but keep evs"
  by (auto simp: closed_but_def)

lemma dialFront_closed_but:
  assumes "dialFront env f rootCAs hid = (res, nevs)"
  shows "closed_but (case dr_conn res of None \<Rightarrow> {} | Some conn \<Rightarrow> {conn_raw conn}) (map LNet nevs)"
proof (rule closed_butI)
  fix a r assume "LNet (Dialed a r) \<in> set (map LNet nevs)"
  then have d: "Dialed a r \<in> set nevs" by auto
  have "CloseRaw r \<in> set nevs" if "last nevs = CloseRaw r"
    using that d by (metis last_in_set empty_iff list.set(1))
  then show "r \<in> (case dr_conn res of None \<Rightarrow> {} | Some conn \<Rightarrow> {conn_raw conn}) \<or> LNet (CloseRaw r) \<in> set (map LNet nevs)"
    using dialFront_events [OF assms d] by (auto split: option.splits)
qed

lemma dialUnvetted_spec:
  assumes "dialUnvetted pf a f provider c = (result, c', evs)"
  shows "(dr_conn result = None) = (dr_err result \<noteq> None)" "picks evs = []" "backs evs = []" "LFailed g \<notin> set evs"
    "closed_but (case dr_conn result of None \<Rightarrow> {} | Some conn \<Rightarrow> {conn_raw conn}) evs"
    "c' = c \<or> c' = on_pool (markSucceeded (l_now a) f) c"
proof -
  obtain r1 nevs where d1: "dialFront (l_env a) (mem (c_pool c) f) (certPool pf c) (clientHelloID c) = (r1, nevs)"
    by fastforce
  note res1 = dialFront_result [OF d1] and cl1 = dialFront_closed_but [OF d1]
  let ?goal = "(dr_conn result = None) = (dr_err result \<noteq> None) \<and> picks evs = [] \<and> backs evs = [] \<and> LFailed g \<notin> set evs \<and>
    closed_but (case dr_conn result of None \<Rightarrow> {} | Some conn \<Rightarrow> {conn_raw conn}) evs \<and>
    (c' = c \<or> c' = on_pool (markSucceeded (l_now a) f) c)"
  have ?goal
  proof (cases "dr_conn r1")
    case None
    with assms d1 res1 cl1 show ?thesis by (auto simp: dialUnvetted_def)
  next
    case (Some conn)
    let ?evs = "map LNet nevs @ [LNet (CloseRaw (conn_raw conn))]"
    have cl: "closed_but keep ?evs" for keep
      using cl1 Some by (auto simp: closed_but_def)
    let ?ok = "verifyWithPost pf (l_edge a) True conn (TestURL provider) = Some True"
    show ?thesis
    proof (cases "l_vet_ctx a = None \<and> ?ok")
      case False
      with assms d1 Some cl show ?thesis
        by (auto simp: dialUnvetted_def Let_def dial_failed_def split: option.splits if_splits)
    next
      case True
      let ?c1 = "on_pool (markSucceeded (l_now a) f) c"
      obtain r2 nevs2 where d2: "dialFront (l_env2 a) (mem (c_pool ?c1) f) (certPool pf ?c1) (clientHelloID ?c1) = (r2, nevs2)"
        by fastforce
      with assms d1 Some True have eq: "result = r2" "c' = ?c1" "evs = ?evs @ [LVetted f] @ map LNet nevs2"
        by (auto simp: dialUnvetted_def Let_def)
      have "closed_but keep (?evs @ [LVetted f] @ map LNet nevs2)" if "closed_but keep (map LNet nevs2)" for keep
        using closed_but_append [OF cl [of keep]] that by simp
      then show ?thesis
        unfolding eq using dialFront_result [OF d2] dialFront_closed_but [OF d2] by auto
    qed
  qed
  then show "(dr_conn result = None) = (dr_err result \<noteq> None)" "picks evs = []" "backs evs = []" "LFailed g \<notin> set evs"
    "closed_but (case dr_conn result of None \<Rightarrow> {} | Some conn \<Rightarrow> {conn_raw conn}) evs"
    "c' = c \<or> c' = on_pool (markSucceeded (l_now a) f) c"
    by blast+
qed

lemma lane_dial_spec:
  assumes "lane_dial pf a f is_ready provider c = (result, c', evs)"
  shows "(dr_conn result = None) = (dr_err result \<noteq> None)" "picks evs = []" "backs evs = []" "LFailed g \<notin> set evs"
    "closed_but (case dr_conn result of None \<Rightarrow> {} | Some conn \<Rightarrow> {conn_raw conn}) evs"
    "c' = c \<or> c' = on_pool (markSucceeded (l_now a) f) c"
proof -
  have "(dr_conn result = None) = (dr_err result \<noteq> None) \<and> picks evs = [] \<and> backs evs = [] \<and> LFailed g \<notin> set evs \<and>
    closed_but (case dr_conn result of None \<Rightarrow> {} | Some conn \<Rightarrow> {conn_raw conn}) evs \<and>
    (c' = c \<or> c' = on_pool (markSucceeded (l_now a) f) c)"
  proof (cases is_ready)
    case True
    with assms obtain nevs where d: "dialFront (l_env a) (mem (c_pool c) f) (certPool pf c) (clientHelloID c) = (result, nevs)"
      "evs = map LNet nevs" "c' = c"
      by (auto simp: lane_dial_def Let_def split: prod.splits)
    with True dialFront_result [OF d(1)] dialFront_closed_but [OF d(1)] show ?thesis
      by auto
  next
    case False
    with assms have "dialUnvetted pf a f provider c = (result, c', evs)"
      by (simp add: lane_dial_def)
    from dialUnvetted_spec [OF this] show ?thesis by blast
  qed
  then show "(dr_conn result = None) = (dr_err result \<noteq> None)" "picks evs = []" "backs evs = []" "LFailed g \<notin> set evs"
    "closed_but (case dr_conn result of None \<Rightarrow> {} | Some conn \<Rightarrow> {conn_raw conn}) evs"
    "c' = c \<or> c' = on_pool (markSucceeded (l_now a) f) c"
    by blast+
qed

lemma lane_front_dials:
  assumes "providerFor c (mem (c_pool c) f) = Some provider"
    and "\<not> (host \<noteq> '''' \<and> Lookup (ulower pf) provider host = '''')" and "\<not> (\<not> is_ready \<and> TestURL provider = '''')"
    and "lane_dial pf a f is_ready provider c = (result, c1, evs1)"
  shows "lane_front pf a pid host f is_ready c =
   (case dr_err result of
      Some e \<Rightarrow>
        (case l_ctx a of
           Some ce \<Rightarrow> (LReturn (Inl (ErrWrap (''provider '' @ pid) ce)), give_back is_ready f (others_lane a c1),
                       evs1 @ back_event is_ready f)
         | None \<Rightarrow>
            (let lastErr = ErrWrap (''dial front '' @ Domain (mem (c_pool c) f)) e
             in if is_ready then
                  (LContinue lastErr, returnAfterDialFailure f (others_lane a c1),
                   evs1 @ [LBack f (if isPaused (c_gate (others_lane a c1)) then Requeued else Failed)])
                else if \<not> isPaused (c_gate (others_lane a c1)) then
                  (LContinue lastErr, notifyCacheDirty (on_pool (markFailed f) (others_lane a c1)), evs1 @ [LFailed f])
                else (LContinue lastErr, others_lane a c1, evs1)))
    | None \<Rightarrow> (LReturn (Inr \<lparr>crt_front = f, crt_provider = provider, crt_conn = the (dr_conn result)\<rparr>),
               others_lane a c1, evs1))"
  unfolding lane_front_def Let_def assms(1) using assms(2,3)
  by (simp only: option.case if_False assms(4) prod.case)

text \<open>The ways in which an iteration that picked \<open>f\<close> ends.\<close>

lemma lane_front_cases:
  assumes "lane_front pf a pid host f is_ready c = (v, c', evs)"
  obtains (no_provider) e where "providerFor c (mem (c_pool c) f) = None" "v = LContinue e"
      "c' = give_back is_ready f c" "evs = back_event is_ready f"
  | (unmapped) e where "v = LReturn (Inl e)" "c' = give_back is_ready f c" "evs = back_event is_ready f"
  | (untestable) e where "v = LReturn (Inl e)" "c' = c" "evs = []" "\<not> is_ready"
  | (failed) provider result c1 evs1 e where "providerFor c (mem (c_pool c) f) = Some provider"
      "lane_dial pf a f is_ready provider c = (result, c1, evs1)" "dr_err result = Some e" "l_ctx a = None"
      "v = LContinue (ErrWrap (''dial front '' @ Domain (mem (c_pool c) f)) e)"
      "c' = (if is_ready then returnAfterDialFailure f (others_lane a c1)
             else if \<not> isPaused (c_gate (others_lane a c1)) then
               notifyCacheDirty (on_pool (markFailed f) (others_lane a c1)) else others_lane a c1)"
      "evs = evs1 @ (if is_ready then [LBack f (if isPaused (c_gate (others_lane a c1)) then Requeued else Failed)]
             else if \<not> isPaused (c_gate (others_lane a c1)) then [LFailed f] else [])"
  | (cancelled) provider result c1 evs1 e ce where "providerFor c (mem (c_pool c) f) = Some provider"
      "lane_dial pf a f is_ready provider c = (result, c1, evs1)" "dr_err result = Some e" "l_ctx a = Some ce"
      "v = LReturn (Inl (ErrWrap (''provider '' @ pid) ce))" "c' = give_back is_ready f (others_lane a c1)"
      "evs = evs1 @ back_event is_ready f"
  | (connected) provider result c1 conn where "providerFor c (mem (c_pool c) f) = Some provider"
      "host = '''' \<or> Lookup (ulower pf) provider host \<noteq> ''''"
      "lane_dial pf a f is_ready provider c = (result, c1, evs)" "dr_err result = None" "dr_conn result = Some conn"
      "v = LReturn (Inr \<lparr>crt_front = f, crt_provider = provider, crt_conn = conn\<rparr>)" "c' = others_lane a c1"
proof (cases "providerFor c (mem (c_pool c) f)")
  case None
  with assms show ?thesis
    by (intro no_provider) (auto simp: lane_front_def Let_def)
next
  case (Some provider)
  consider (u) "host \<noteq> '''' \<and> Lookup (ulower pf) provider host = ''''"
    | (t) "\<not> (host \<noteq> '''' \<and> Lookup (ulower pf) provider host = '''')" "\<not> is_ready \<and> TestURL provider = ''''"
    | (d) "\<not> (host \<noteq> '''' \<and> Lookup (ulower pf) provider host = '''')" "\<not> (\<not> is_ready \<and> TestURL provider = '''')"
    by blast
  then show ?thesis
  proof cases
    case u
    with Some assms show ?thesis
      by (intro unmapped) (auto simp: lane_front_def Let_def)
  next
    case t
    with Some assms show ?thesis
      by (intro untestable) (auto simp: lane_front_def Let_def)
  next
    case d
    obtain result c1 evs1 where dial: "lane_dial pf a f is_ready provider c = (result, c1, evs1)"
      by (metis prod_cases3)
    note eq = lane_front_dials [OF Some d dial]
    show ?thesis
    proof (cases "dr_err result")
      case None
      with lane_dial_spec(1) [OF dial] obtain conn where conn: "dr_conn result = Some conn" by auto
      then show ?thesis
        using assms d(1) dial None Some unfolding eq by (intro connected) auto
    next
      case err: (Some e)
      show ?thesis
      proof (cases "l_ctx a")
        case None
        then show ?thesis
          using assms dial err Some unfolding eq by (intro failed) (auto simp: Let_def split: if_splits)
      next
        case (Some ce)
        then show ?thesis
          using assms dial err \<open>providerFor c _ = Some provider\<close> unfolding eq by (intro cancelled) auto
      qed
    qed
  qed
qed

text \<open>What an iteration with front \<open>f\<close> leaves behind.\<close>

definition lane_front_ok ::
  "platform \<Rightarrow> string \<Rightarrow> fref \<Rightarrow> bool \<Rightarrow> lane_verdict \<Rightarrow> lane_event list \<Rightarrow> bool" where
  "lane_front_ok pf host f is_ready v evs \<longleftrightarrow>
     (case v of
        LBreak \<Rightarrow> False
      | LContinue e \<Rightarrow> closed_but {} evs \<and>
          (if is_ready then \<exists>how. backs evs = [(f, how)] \<and> how \<noteq> Succeeded else backs evs = [])
      | LReturn (Inl e) \<Rightarrow> closed_but {} evs \<and> backs evs = (if is_ready then [(f, Requeued)] else []) \<and>
          (\<forall>g. LFailed g \<notin> set evs)
      | LReturn (Inr rt) \<Rightarrow> crt_front rt = f \<and> closed_but {conn_raw (crt_conn rt)} evs \<and> backs evs = [] \<and>
          (\<forall>g. LFailed g \<notin> set evs) \<and> (host = '''' \<or> Lookup (ulower pf) (crt_provider rt) host \<noteq> ''''))"

lemma lane_front_trace:
  assumes "lane_front pf a pid host f is_ready c = (v, c', evs)"
  shows "picks evs = [] \<and> lane_front_ok pf host f is_ready v evs"
  using assms
proof (cases rule: lane_front_cases)
  case (failed provider result c1 evs1 e)
  note s = lane_dial_spec [OF failed(2)]
  have "closed_but {} evs1"
    using s(1,5) failed(3) by (auto split: option.splits)
  with s(2-4) failed(5,7) show ?thesis
    by (auto simp: lane_front_ok_def)
next
  case (cancelled provider result c1 evs1 e ce)
  note s = lane_dial_spec [OF cancelled(2)]
  have "closed_but {} evs1"
    using s(1,5) cancelled(3) by (auto split: option.splits)
  with s(2-4) cancelled(5,7) show ?thesis
    by (auto simp: lane_front_ok_def)
next
  case (connected provider result c1 conn)
  with lane_dial_spec [OF connected(3)] show ?thesis
    by (auto simp: lane_front_ok_def)
qed (auto simp: lane_front_ok_def)

lemma lane_front_ok_pick: "lane_front_ok pf host f b v (LPick g b' # evs) = lane_front_ok pf host f b v evs"
  by (auto simp: lane_front_ok_def split: lane_verdict.split sum.split)

lemma scan_queue_found:
  "scan_queue deq accept n acc s = (Some x, skipped, s') \<Longrightarrow> \<exists>t. accept t x"
  by (induction n arbitrary: acc s) (auto split: prod.splits option.splits if_splits)

text \<open>The ways in which an iteration goes.\<close>

lemma lane_once_cases:
  assumes "lane_once pf a pid host cands tried c = (v, cands', picked, c', evs)"
  obtains (closed) "pool_closed (c_pool (others_pick a c))" "v = LReturn (Inl (ErrWrap (''provider '' @ pid) ErrCanceled))"
      "cands' = cands" "picked = None" "c' = others_pick a c" "evs = []"
  | (from_queue) f p evs' where
      "tryTakeFrom (\<lambda>f p. f \<notin> tried \<and> providerIDOf (others_pick a c) p = pid) (c_pool (others_pick a c)) = (Some f, p)"
      "lane_front pf a pid host f True ((others_pick a c)\<lparr>c_pool := p\<rparr>) = (v, c', evs')"
      "cands' = cands" "picked = Some f" "evs = LPick f True # evs'"
  | (exhausted) p where
      "tryTakeFrom (\<lambda>f p. f \<notin> tried \<and> providerIDOf (others_pick a c) p = pid) (c_pool (others_pick a c)) = (None, p)"
      "v = LBreak" "cands' = Some []" "picked = None" "c' = (others_pick a c)\<lparr>c_pool := p\<rparr>" "evs = []"
  | (from_candidates) p f rest evs' where
      "tryTakeFrom (\<lambda>f p. f \<notin> tried \<and> providerIDOf (others_pick a c) p = pid) (c_pool (others_pick a c)) = (None, p)"
      "dropWhile (\<lambda>f. f \<in> tried) (lane_candidates a pid cands ((others_pick a c)\<lparr>c_pool := p\<rparr>)) = f # rest"
      "lane_front pf a pid host f False ((others_pick a c)\<lparr>c_pool := p\<rparr>) = (v, c', evs')"
      "cands' = Some rest" "picked = Some f" "evs = LPick f False # evs'"
proof (cases "isClosed (c_pool (others_pick a c))")
  case True
  with assms show ?thesis
    by (intro closed) (simp_all add: lane_once_def isClosed_def)
next
  case False
  obtain found p where t: "tryTakeFrom (\<lambda>f p. f \<notin> tried \<and> providerIDOf (others_pick a c) p = pid)
      (c_pool (others_pick a c)) = (found, p)"
    by fastforce
  show ?thesis
  proof (cases found)
    case (Some f)
    obtain v1 c1 evs1 where "lane_front pf a pid host f True ((others_pick a c)\<lparr>c_pool := p\<rparr>) = (v1, c1, evs1)"
      by (metis prod_cases3)
    with False t assms Some show ?thesis
      by (intro from_queue [of f p evs1]) (simp_all add: lane_once_def Let_def)
  next
    case None
    show ?thesis
    proof (cases "dropWhile (\<lambda>f. f \<in> tried) (lane_candidates a pid cands ((others_pick a c)\<lparr>c_pool := p\<rparr>))")
      case Nil
      with False t assms None show ?thesis
        by (intro exhausted [of p]) (simp_all add: lane_once_def Let_def)
    next
      case (Cons f rest)
      obtain v1 c1 evs1 where "lane_front pf a pid host f False ((others_pick a c)\<lparr>c_pool := p\<rparr>) = (v1, c1, evs1)"
        by (metis prod_cases3)
      with False t assms None Cons show ?thesis
        by (intro from_candidates [of p f rest evs1]) (simp_all add: lane_once_def Let_def)
    qed
  qed
qed

lemma lane_once_trace:
  assumes "lane_once pf a pid host cands tried c = (v, cands', picked, c', evs)"
  shows "case picked of
      None \<Rightarrow> evs = [] \<and> (\<forall>e. v \<noteq> LContinue e) \<and> (\<forall>rt. v \<noteq> LReturn (Inr rt))
    | Some f \<Rightarrow> \<exists>is_ready. f \<notin> tried \<and> picks evs = [(f, is_ready)] \<and> lane_front_ok pf host f is_ready v evs"
  using assms
proof (cases rule: lane_once_cases)
  case (from_queue f p evs')
  from from_queue(1) obtain skipped p1 where
    "scan_queue tryTakeReady (\<lambda>q f. f \<notin> tried \<and> providerIDOf (others_pick a c) (ProviderID (mem q f)) = pid)
       (readyCount (c_pool (others_pick a c))) [] (c_pool (others_pick a c)) = (Some f, skipped, p1)"
    by (auto simp: tryTakeFrom_def split: prod.splits)
  from scan_queue_found [OF this] lane_front_trace [OF from_queue(2)] show ?thesis
    by (auto simp: from_queue(4,5) lane_front_ok_pick)
next
  case (from_candidates p f rest evs')
  have "f \<notin> tried"
    using hd_dropWhile [of "\<lambda>f. f \<in> tried" "lane_candidates a pid cands ((others_pick a c)\<lparr>c_pool := p\<rparr>)"]
    by (simp add: from_candidates(2))
  with lane_front_trace [OF from_candidates(3)] show ?thesis
    by (auto simp: from_candidates(5,6) lane_front_ok_pick)
qed auto

text \<open>
  The connection that an iteration returns. \<open>vet_passed\<close>: the connection that was dialed to \<open>f\<close>, and no
  other, carried the POST to the test URL, and it was answered with status 202.
\<close>

definition vet_passed :: "platform \<Rightarrow> lane_env \<Rightarrow> fref \<Rightarrow> provider \<Rightarrow> client \<Rightarrow> bool" where
  "vet_passed pf a f provider c \<longleftrightarrow> (\<exists>vc u resp.
     dr_conn (fst (dialFront (l_env a) (mem (c_pool c) f) (certPool pf c) (clientHelloID c))) = Some vc \<and>
     url_Parse pf (TestURL provider) = Inr u \<and> \<not> silent (l_edge a) \<and>
     sendOverConn (e_tr (l_edge a)) vc (vet_request u) True = Inr resp \<and> StatusCode resp = 202)"

definition lane_conn :: "platform \<Rightarrow> lane_env \<Rightarrow> fref \<Rightarrow> bool \<Rightarrow> provider \<Rightarrow> client \<Rightarrow> tls_conn \<Rightarrow> bool" where
  "lane_conn pf a f is_ready provider c conn \<longleftrightarrow>
     (if is_ready then dr_conn (fst (dialFront (l_env a) (mem (c_pool c) f) (certPool pf c) (clientHelloID c))) = Some conn
      else vet_passed pf a f provider c \<and>
        (let c1 = on_pool (markSucceeded (l_now a) f) c
         in dr_conn (fst (dialFront (l_env2 a) (mem (c_pool c1) f) (certPool pf c1) (clientHelloID c1))) = Some conn))"

lemma dialUnvetted_conn:
  "dialUnvetted pf a f provider c = (result, c', evs) \<Longrightarrow> dr_err result = None \<Longrightarrow> dr_conn result = Some conn \<Longrightarrow>
     lane_conn pf a f False provider c conn"
  by (auto simp: dialUnvetted_def lane_conn_def vet_passed_def verifyWithPost_def dial_failed_def Let_def
      split: prod.splits option.splits if_splits sum.splits)

lemma lane_dial_conn:
  "lane_dial pf a f is_ready provider c = (result, c', evs) \<Longrightarrow> dr_err result = None \<Longrightarrow> dr_conn result = Some conn \<Longrightarrow>
     lane_conn pf a f is_ready provider c conn"
  using dialUnvetted_conn [of pf a f provider c result c' evs conn]
  by (auto simp: lane_dial_def lane_conn_def split: if_splits prod.splits)

lemma lane_front_winner:
  assumes "lane_front pf a pid host f is_ready c = (LReturn (Inr rt), c', evs)"
  shows "crt_front rt = f \<and> providerFor c (mem (c_pool c) f) = Some (crt_provider rt) \<and>
    (host = '''' \<or> Lookup (ulower pf) (crt_provider rt) host \<noteq> '''') \<and>
    lane_conn pf a f is_ready (crt_provider rt) c (crt_conn rt)"
  using assms
proof (cases rule: lane_front_cases)
  case (connected provider result c1 conn)
  with lane_dial_conn [OF connected(3-5)] show ?thesis by simp
qed auto

text \<open>An iteration that returns a round tripper: \<open>f\<close> came out of the ready queue, or it was a candidate.\<close>

definition lane_won ::
  "platform \<Rightarrow> lane_env \<Rightarrow> string \<Rightarrow> string \<Rightarrow> fref set \<Rightarrow> client \<Rightarrow> connectedRoundTripper \<Rightarrow> bool \<Rightarrow> bool" where
  "lane_won pf a pid host tried d rt is_ready \<longleftrightarrow>
     (let c0 = others_pick a d;
          (found, p) = tryTakeFrom (\<lambda>f p. f \<notin> tried \<and> providerIDOf c0 p = pid) (c_pool c0);
          c = c0\<lparr>c_pool := p\<rparr>;
          f = crt_front rt
      in found = (if is_ready then Some f else None) \<and>
         providerFor c (mem p f) = Some (crt_provider rt) \<and>
         (host = '''' \<or> Lookup (ulower pf) (crt_provider rt) host \<noteq> '''') \<and>
         lane_conn pf a f is_ready (crt_provider rt) c (crt_conn rt))"

lemma lane_won_maps:
  "lane_won pf a pid host tried d rt is_ready \<Longrightarrow> host = '''' \<or> Lookup (ulower pf) (crt_provider rt) host \<noteq> ''''"
  by (simp add: lane_won_def Let_def split: prod.splits)

lemma lane_once_winner:
  assumes "lane_once pf a pid host cands tried d = (LReturn (Inr rt), cands', picked, c', evs)"
  shows "picked = Some (crt_front rt) \<and>
    (\<exists>is_ready. picks evs = [(crt_front rt, is_ready)] \<and> lane_won pf a pid host tried d rt is_ready)"
  using assms
proof (cases rule: lane_once_cases)
  case (from_queue f p evs')
  with lane_front_winner [OF from_queue(2)] lane_front_trace [OF from_queue(2)] show ?thesis
    by (auto simp: lane_won_def)
next
  case (from_candidates p f rest evs')
  with lane_front_winner [OF from_candidates(3)] lane_front_trace [OF from_candidates(3)] show ?thesis
    by (auto simp: lane_won_def)
qed auto

text \<open>Iteration with trace \<open>evs\<close> of a loop with result \<open>r\<close>; \<open>goes_on\<close> says whether another iteration follows.\<close>

definition lane_attempt :: "platform \<Rightarrow> lane_env \<Rightarrow> string \<Rightarrow> string \<Rightarrow> bool \<Rightarrow> laneResult \<Rightarrow> lane_event list \<Rightarrow> bool" where
  "lane_attempt pf a pid host goes_on r evs \<longleftrightarrow> (\<exists>cands tried d v cands' picked d'.
     lane_once pf a pid host cands tried d = (v, cands', picked, d', evs) \<and>
     (if goes_on then \<exists>e. v = LContinue e else case v of LReturn r' \<Rightarrow> r' = r | _ \<Rightarrow> \<exists>e. r = Inl e))"

lemma lane_attemptI:
  "lane_once pf a pid host cands tried d = (v, cands', picked, d', evs) \<Longrightarrow>
     if goes_on then \<exists>e. v = LContinue e else case v of LReturn r' \<Rightarrow> r' = r | _ \<Rightarrow> \<exists>e. r = Inl e \<Longrightarrow>
     lane_attempt pf a pid host goes_on r evs"
  unfolding lane_attempt_def by blast

text \<open>The first iteration of the loop and the rest of it, if there is one.\<close>

lemma lane_loop_first:
  assumes "lane_loop pf world pid host (Suc n) i cands tried lastErr c = (r, c', tr)"
  obtains (last) v cands' picked d evs where "lane_once pf (world i) pid host cands tried c = (v, cands', picked, d, evs)"
      "tr = [evs]" "case v of LReturn r' \<Rightarrow> r' = r | _ \<Rightarrow> \<exists>e. r = Inl e"
  | (more) e cands' picked d evs tr' where
      "lane_once pf (world i) pid host cands tried c = (LContinue e, cands', picked, d, evs)"
      "lane_loop pf world pid host n (Suc i) cands' (tried \<union> set_option picked) (Some e) d = (r, c', tr')" "tr = evs # tr'"
proof -
  obtain v cands' picked d evs where at: "lane_once pf (world i) pid host cands tried c = (v, cands', picked, d, evs)"
    by (metis prod_cases5)
  show thesis
  proof (cases "\<exists>e. v = LContinue e")
    case False
    with assms at show thesis
      by (intro last [OF at]) (auto simp: lane_end_def split: lane_verdict.splits option.splits)
  next
    case True
    with assms at show thesis
      by (cases v) (auto split: prod.splits intro: more)
  qed
qed

lemma lane_loop_empty: "lane_loop pf world pid host n i cands tried lastErr c = (r, c', []) \<Longrightarrow> \<exists>e. r = Inl e"
  by (cases n) (auto simp: lane_end_def split: option.splits prod.splits lane_verdict.splits)

lemma lane_loop_attempts:
  "lane_loop pf world pid host n i cands tried lastErr c = (r, c', tr) \<Longrightarrow>
     \<forall>k<length tr. lane_attempt pf (world (i + k)) pid host (Suc k < length tr) r (tr ! k)"
proof (induction n arbitrary: i cands tried lastErr c tr)
  case (Suc n)
  from Suc.prems show ?case
  proof (cases rule: lane_loop_first)
    case (last v cands' picked d evs)
    then show ?thesis by (auto intro: lane_attemptI)
  next
    case (more e cands' picked d evs tr')
    have "lane_attempt pf (world i) pid host (tr' \<noteq> []) r evs"
      using more(2) lane_loop_empty by (intro lane_attemptI [OF more(1)]) auto
    with Suc.IH [OF more(2)] show ?thesis
      by (simp add: more(3) All_less_Suc2)
  qed
qed simp

lemma lane_loop_picks:
  "lane_loop pf world pid host n i cands tried lastErr c = (r, c', tr) \<Longrightarrow>
     length tr \<le> n \<and> distinct (map fst (concat (map picks tr))) \<and>
     set (map fst (concat (map picks tr))) \<inter> tried = {} \<and> (\<forall>rt. r = Inr rt \<longrightarrow> tr \<noteq> [])"
proof (induction n arbitrary: i cands tried lastErr c tr)
  case 0
  then show ?case by (auto simp: lane_end_def split: option.splits)
next
  case (Suc n)
  from Suc.prems show ?case
  proof (cases rule: lane_loop_first)
    case (last v cands' picked d evs)
    with lane_once_trace [OF last(1)] show ?thesis by (auto split: option.splits)
  next
    case (more e cands' picked d evs tr')
    have pe: "set (map fst (picks evs)) = set_option picked" "distinct (map fst (picks evs))"
      "set_option picked \<inter> tried = {}"
      using lane_once_trace [OF more(1)] by (auto split: option.splits)
    note ih = Suc.IH [OF more(2)]
    have "distinct (map fst (concat (map picks tr)))"
      using ih pe(1,2) unfolding more(3) list.map(2) concat.simps(2) map_append distinct_append by blast
    moreover have "set (map fst (concat (map picks tr))) \<inter> tried = {}"
      using ih pe(1,3) unfolding more(3) list.map(2) concat.simps(2) map_append set_append by blast
    ultimately show ?thesis
      using ih more(3) by simp
  qed
qed

lemma lane_loop_steps:
  assumes "lane_loop pf world pid host n i cands tried lastErr c = (r, c', tr)"
  shows "length tr \<le> n \<and> distinct (map fst (concat (map picks tr))) \<and>
    set (map fst (concat (map picks tr))) \<inter> tried = {} \<and>
    (\<forall>k<length tr. \<exists>cands tried d v cands' picked d'.
       lane_once pf (world (i + k)) pid host cands tried d = (v, cands', picked, d', tr ! k) \<and>
       (if Suc k < length tr then \<exists>e. v = LContinue e
        else case v of LReturn r' \<Rightarrow> r' = r | _ \<Rightarrow> \<exists>e. r = Inl e)) \<and>
    (\<forall>rt. r = Inr rt \<longrightarrow> tr \<noteq> [])"
  using lane_loop_attempts [OF assms] lane_loop_picks [OF assms] unfolding lane_attempt_def by blast

subsection \<open>The race\<close>

definition connected_of :: "laneResult list \<Rightarrow> connectedRoundTripper list" where
  "connected_of rs = concat (map (\<lambda>r. case r of Inl _ \<Rightarrow> [] | Inr rt \<Rightarrow> [rt]) rs)"

text \<open>
  The collector takes the lanes' results in the order of their arrival; \<open>dn i\<close> says that in its \<open>i\<close>-th
  select it takes the case of the caller's context being done, with error \<open>ctxErr\<close>. \<open>ctx_end\<close> is
  \<open>ctx.Err ()\<close> after the last result. The second result are the round trippers that \<open>release\<close> closes.
\<close>

fun race ::
  "(nat \<Rightarrow> bool) \<Rightarrow> goerr \<Rightarrow> goerr option \<Rightarrow> nat \<Rightarrow> laneResult list \<Rightarrow> goerr list \<Rightarrow>
     laneResult \<times> connectedRoundTripper list" where
  "race dn ctxErr ctx_end i [] errs =
     (case ctx_end of
        Some e \<Rightarrow> (Inl (ErrWrap ''ctx done before any front connected'' (ErrJoin (errs @ [e]))), [])
      | None \<Rightarrow> (Inl (ErrWrap ''could not connect to any front'' (ErrJoin errs)), []))"
| "race dn ctxErr ctx_end i (r # rs) errs =
     (if dn i then
        (Inl (ErrWrap ''ctx done before any front connected'' (ErrJoin (errs @ [ctxErr]))), connected_of (r # rs))
      else case r of
             Inl e \<Rightarrow> race dn ctxErr ctx_end (Suc i) rs (errs @ [e])
           | Inr rt \<Rightarrow> (Inr rt, connected_of rs))"

text \<open>
  Each lane runs in a goroutine; what the lanes do to the client meanwhile is among the \<open>others\<close> of one
  another. \<open>order\<close> is the order in which they finish.
\<close>

definition NewConnectedRoundTripper ::
  "platform \<Rightarrow> (string \<Rightarrow> nat \<Rightarrow> lane_env) \<Rightarrow> (string list \<Rightarrow> string list) \<Rightarrow> (nat \<Rightarrow> bool) \<Rightarrow> goerr \<Rightarrow> goerr option \<Rightarrow>
     client \<Rightarrow> string \<Rightarrow> laneResult \<times> connectedRoundTripper list" where
  "NewConnectedRoundTripper pf worlds order dn ctxErr ctx_end c addr =
     (let host = hostOf addr; pids = providersMapping pf c host
      in if length pids = 0 then
           (Inl (ErrText (''no domain fronting mapping for '' @ quoted host @ '' on any provider'')), [])
         else race dn ctxErr ctx_end 0 (map (\<lambda>pid. fst (connectVia pf (worlds pid) pid host c)) (order pids)) [])"

subsection \<open>The single-use round tripper\<close>

record crt_sys =
  crt_used :: bool
  crt_client :: client
  crt_log :: "rt_event list"

definition crt_finish :: "crt_sys \<Rightarrow> client \<Rightarrow> rt_event list \<Rightarrow> crt_sys" where
  "crt_finish s c evs = s\<lparr>crt_client := c, crt_log := crt_log s @ evs\<rparr>"

definition crt_RoundTrip ::
  "platform \<Rightarrow> connectedRoundTripper \<Rightarrow> attempt \<Rightarrow> request \<Rightarrow> crt_sys \<Rightarrow> rt_result \<times> crt_sys" where
  "crt_RoundTrip pf rt a req s =
     (if crt_used s then (RtErr ErrRoundTripperUsed, s)
      else
        let s0 = s\<lparr>crt_used := True\<rparr>;
            c = others_take a (crt_client s);
            f = crt_front rt;
            pid = ProviderID (mem (c_pool c) f);
            close = EvNet (CloseRaw (conn_raw (crt_conn rt)));
            give_up = (\<lambda>e. (RtErr e, crt_finish s0 (on_pool (pool_Return f True) c) [EvBack f Requeued, close]));
            originHost = url_Hostname (u_Host (URL req));
            frontedHost = Lookup (ulower pf) (crt_provider rt) originHost
        in if frontedHost = '''' then give_up (no_mapping originHost pid)
           else
             case getBodyFactory req of
               Inl e \<Rightarrow> give_up (ErrWrap ''buffer body'' e)
             | Inr bodyFactory \<Rightarrow>
                (case bodyFactory 0 of
                   Inl e \<Rightarrow> give_up (ErrWrap ''get body'' e)
                 | Inr body \<Rightarrow>
                    (let c1 = others_send a c
                     in case doRequest (a_tr a) (valid_field_value pf) (retryableResponse c) req (crt_conn rt) frontedHost
                               pid body of
                          Inl e \<Rightarrow> (RtErr e, crt_finish s0 (notifyCacheDirty (on_pool (pool_Return f False) c1))
                                    [EvSent f frontedHost, EvBack f Failed, close])
                        | Inr resp \<Rightarrow> (Response resp, crt_finish s0 (notifyCacheDirty (on_pool (ReturnSuccess (a_now a) f) c1))
                                    [EvSent f frontedHost, EvBack f Succeeded]))))"

text \<open>\<open>closeErr\<close> is what closing the connection returns.\<close>

definition crt_Close ::
  "connectedRoundTripper \<Rightarrow> (client \<Rightarrow> client) \<Rightarrow> goerr option \<Rightarrow> crt_sys \<Rightarrow> goerr option \<times> crt_sys" where
  "crt_Close rt others closeErr s =
     (if crt_used s then (None, s)
      else (closeErr, crt_finish (s\<lparr>crt_used := True\<rparr>) (on_pool (pool_Return (crt_front rt) True) (others (crt_client s)))
              [EvBack (crt_front rt) Requeued, EvNet (CloseRaw (conn_raw (crt_conn rt)))]))"

datatype crt_call = CallRoundTrip attempt request | CallClose "client \<Rightarrow> client" "goerr option"

fun crt_do :: "platform \<Rightarrow> connectedRoundTripper \<Rightarrow> crt_call \<Rightarrow> crt_sys \<Rightarrow> crt_sys" where
  "crt_do pf rt (CallRoundTrip a req) s = snd (crt_RoundTrip pf rt a req s)"
| "crt_do pf rt (CallClose others e) s = snd (crt_Close rt others e s)"

subsection \<open>Facts about the race and the round tripper\<close>

lemma connected_of_simps [simp]:
  "connected_of [] = []" "connected_of (Inl e # rs) = connected_of rs" "connected_of (Inr rt # rs) = rt # connected_of rs"
  by (simp_all add: connected_of_def)

lemma connected_of_iff: "rt \<in> set (connected_of rs) \<longleftrightarrow> Inr rt \<in> set rs"
  by (force simp: connected_of_def split: sum.splits)

lemma mset_connected_of: "mset rs = mset rs' \<Longrightarrow> mset (connected_of rs) = mset (connected_of rs')"
proof -
  have eq: "mset (connected_of rs) =
      \<Sum>\<^sub># (image_mset (\<lambda>r. case r of Inl _ \<Rightarrow> {#} | Inr rt \<Rightarrow> {#rt#}) (mset rs))" for rs
    by (induction rs) (auto simp: connected_of_def split: sum.splits)
  show "mset rs = mset rs' \<Longrightarrow> mset (connected_of rs) = mset (connected_of rs')"
    by (simp add: eq)
qed

lemma race_conserves:
  "race dn ctxErr ctx_end i rs errs = (res, released) \<Longrightarrow>
     mset (connected_of rs) = mset released + (case res of Inl _ \<Rightarrow> {#} | Inr rt \<Rightarrow> {#rt#})"
  by (induction dn ctxErr ctx_end i rs errs rule: race.induct)
    (auto split: if_splits sum.splits option.splits)

lemma race_fails:
  "race dn ctxErr ctx_end i rs errs = (res, released) \<Longrightarrow> \<forall>j. \<not> dn j \<Longrightarrow>
     (\<exists>e. res = Inl e) \<longleftrightarrow> connected_of rs = []"
  by (induction dn ctxErr ctx_end i rs errs rule: race.induct)
    (auto split: if_splits sum.splits option.splits)

definition sent :: "rt_event list \<Rightarrow> (fref \<times> string) list" where
  "sent evs = concat (map (\<lambda>e. case e of EvSent f h \<Rightarrow> [(f, h)] | _ \<Rightarrow> []) evs)"

lemma sent_simps [simp]:
  "sent [] = []" "sent (EvSent f h # evs) = (f, h) # sent evs" "sent (EvTook f # evs) = sent evs"
  "sent (EvNet x # evs) = sent evs" "sent (EvBack f how # evs) = sent evs"
  by (simp_all add: sent_def)

lemma crt_do_first:
  "\<not> crt_used s \<Longrightarrow> crt_log s = [] \<Longrightarrow> crt_used (crt_do pf rt x s) \<and>
     (\<exists>how. given_back (crt_log (crt_do pf rt x s)) = [(crt_front rt, how)] \<and>
       (if how = Requeued then sent (crt_log (crt_do pf rt x s)) = []
        else \<exists>h. h \<noteq> '''' \<and> sent (crt_log (crt_do pf rt x s)) = [(crt_front rt, h)]) \<and>
       (how = Succeeded \<or> EvNet (CloseRaw (conn_raw (crt_conn rt))) \<in> set (crt_log (crt_do pf rt x s))))"
  by (cases x)
    (auto simp: crt_RoundTrip_def crt_Close_def crt_finish_def Let_def split: sum.split)

lemma crt_do_uses: "crt_used (crt_do pf rt x s)"
  by (cases x) (auto simp: crt_RoundTrip_def crt_Close_def crt_finish_def Let_def split: sum.split)

lemma crt_do_again: "crt_used s \<Longrightarrow> crt_do pf rt x s = s"
  by (cases x) (simp_all add: crt_RoundTrip_def crt_Close_def)

interpretation crt_once: once_only "crt_do pf rt" crt_used for pf rt
  by unfold_locales (simp_all add: crt_do_uses crt_do_again)

text \<open>The last iteration of a lane that returns a round tripper.\<close>

lemma connectVia_result:
  assumes "connectVia pf world pid host c = (Inr rt, c', tr)"
  obtains cands tried d cands' picked d' where "tr \<noteq> []"
    "lane_once pf (world (length tr - 1)) pid host cands tried d = (LReturn (Inr rt), cands', picked, d', last tr)"
proof -
  note st = lane_loop_steps [OF assms [unfolded connectVia_def]]
  then have ne: "tr \<noteq> []" by blast
  let ?k = "length tr - 1"
  have k: "?k < length tr" "\<not> Suc ?k < length tr" using ne by auto
  with st obtain cands tried d v cands' picked d' where
    at: "lane_once pf (world ?k) pid host cands tried d = (v, cands', picked, d', tr ! ?k)" and
    v: "case v of LReturn r' \<Rightarrow> r' = Inr rt | _ \<Rightarrow> \<exists>e. (Inr rt :: laneResult) = Inl e"
    by (metis (no_types, lifting) add_0)
  then have "v = LReturn (Inr rt)"
    by (auto split: lane_verdict.splits)
  with at show thesis
    using ne by (intro that) (auto simp: last_conv_nth)
qed

subsection \<open>Properties\<close>

text \<open>
  One provider's lane dials at most \<open>maxRetries\<close> fronts and never the same front twice, whether it
  came from the ready queue or from the candidates, and whatever is requeued meanwhile.
\<close>

theorem connectVia_tries_each_front_once:
  assumes "connectVia pf world pid host c = (r, c', tr)"
  shows "length tr \<le> nat (maxRetries c) \<and> distinct (map fst (concat (map picks tr)))"
  using lane_loop_steps [OF assms [unfolded connectVia_def]] by blast

definition sample_lane :: lane_env where
  "sample_lane =
     \<lparr>others_pick = id, l_ties = id, l_draw = id, l_env = sample_dial_env\<lparr>cert_Verify := \<lambda>_ _. None\<rparr>,
      l_edge = sample_answers 202, l_vet_ctx = None, l_now = unix_epoch + 9,
      l_env2 = sample_dial_env\<lparr>cert_Verify := \<lambda>_ _. None\<rparr>, others_lane = id, l_ctx = None\<rparr>"

theorem connectVia_tries_each_front_once_witness:
  "length (snd (snd (connectVia sample_platform (\<lambda>_. sample_lane) ''a'' '''' sample_rt_client))) \<le> 6"
proof -
  obtain r c' tr where l: "connectVia sample_platform (\<lambda>_. sample_lane) ''a'' '''' sample_rt_client = (r, c', tr)"
    by (metis prod_cases3)
  have "maxRetries sample_rt_client = 6"
    by (simp add: sample_rt_client_def sample_crawl_client_def sample_client_def default_client_def)
  with connectVia_tries_each_front_once [OF l] l show ?thesis by simp
qed

lemma connectVia_iteration:
  assumes "connectVia pf world pid host c = (r, c', tr)" "evs \<in> set tr" "(f, is_ready) \<in> set (picks evs)"
  obtains v where "lane_front_ok pf host f is_ready v evs"
    "\<And>rt. v = LReturn (Inr rt) \<Longrightarrow> r = Inr rt"
proof -
  note st = lane_loop_steps [OF assms(1) [unfolded connectVia_def]]
  from assms(2) obtain k where k: "k < length tr" "evs = tr ! k"
    by (auto simp: in_set_conv_nth)
  with st obtain cands tried d v cands' picked d' where
    at: "lane_once pf (world k) pid host cands tried d = (v, cands', picked, d', evs)" and
    v: "if Suc k < length tr then \<exists>e. v = LContinue e
        else case v of LReturn r' \<Rightarrow> r' = r | _ \<Rightarrow> \<exists>e. r = Inl e"
    by (metis (no_types, lifting) add_0)
  from lane_once_trace [OF at] assms(3) have "lane_front_ok pf host f is_ready v evs"
    by (auto split: option.splits)
  with v show ?thesis
    by (intro that) (auto split: if_splits)
qed

text \<open>
  C25: a lane loses neither fronts nor connections: a front it took from the ready queue is given back
  exactly once, unless it is the front of the connection the lane returns, and every connection it
  opened is closed, unless it is that connection. A front from the candidates, which was never taken
  out of the ready queue, is not put into it.
\<close>

theorem connectVia_accounts_for_fronts:
  assumes "connectVia pf world pid host c = (r, c', tr)" and "evs \<in> set tr" and "(f, is_ready) \<in> set (picks evs)"
  shows "(if is_ready then (\<exists>how. backs evs = [(f, how)] \<and> how \<noteq> Succeeded) \<or> (\<exists>rt. r = Inr rt \<and> crt_front rt = f \<and> backs evs = [])
     else backs evs = []) \<and>
    (\<forall>a raw. LNet (Dialed a raw) \<in> set evs \<longrightarrow>
       LNet (CloseRaw raw) \<in> set evs \<or> (\<exists>rt. r = Inr rt \<and> raw = conn_raw (crt_conn rt)))"
proof -
  obtain v where ok: "lane_front_ok pf host f is_ready v evs"
    and v: "\<And>rt. v = LReturn (Inr rt) \<Longrightarrow> r = Inr rt"
    by (rule connectVia_iteration [OF assms]) blast
  show ?thesis
  proof (cases v)
    case (LReturn r')
    with ok v show ?thesis
      by (cases r') (auto simp: lane_front_ok_def dest: closed_butD)
  qed (use ok in \<open>auto simp: lane_front_ok_def dest: closed_butD\<close>)
qed

text \<open>
  C26: a connection that a lane returns can be used as it is. Its front came out of the ready queue in the
  lane's last iteration and the connection is the one dialed to it there; or the front was a candidate,
  the connection that was dialed to that front, and no other, carried a POST to the provider's test URL
  which was answered with status 202, and the connection returned is from a second dial of the same
  front. Its provider is the front's, and it maps the host the lane was asked for.
\<close>

theorem connectVia_winner_is_usable:
  assumes "connectVia pf world pid host c = (Inr rt, c', tr)"
  shows "\<exists>cands tried d cands' d' is_ready.
    lane_once pf (world (length tr - 1)) pid host cands tried d =
      (LReturn (Inr rt), cands', Some (crt_front rt), d', last tr) \<and>
    picks (last tr) = [(crt_front rt, is_ready)] \<and>
    lane_won pf (world (length tr - 1)) pid host tried d rt is_ready"
  using assms
proof (rule connectVia_result)
  fix cands tried d cands' picked d'
  assume at: "lane_once pf (world (length tr - 1)) pid host cands tried d =
    (LReturn (Inr rt), cands', picked, d', last tr)"
  from lane_once_winner [OF this] at show ?thesis by blast
qed

text \<open>
  A lane that is cancelled, because another provider won or the caller gave up, blames no front: in
  an iteration that finds the context done after its dial no front is given back as failed and none
  is marked as failed.
\<close>

theorem cancelled_lane_blames_no_front:
  assumes "lane_front pf a pid host f is_ready c = (v, c', evs)" and "l_ctx a = Some ce"
  shows "(\<forall>g. LFailed g \<notin> set evs \<and> (g, Failed) \<notin> set (backs evs))"
  using assms(1)
proof (cases rule: lane_front_cases)
  case (cancelled provider result c1 evs1 e ce')
  with lane_dial_spec [OF cancelled(2)] show ?thesis by auto
next
  case (connected provider result c1 conn)
  with lane_dial_spec [OF connected(3)] show ?thesis by auto
qed (use assms(2) in auto)

text \<open>
  C27: the race hands out at most one connection and closes all the others: the round trippers that the
  lanes connected are the one that is returned, if any, and those that are released, each exactly once,
  whenever the caller's context ends and in whatever order the lanes finish.
\<close>

theorem race_hands_out_one:
  assumes "mset (order (providersMapping pf c (hostOf addr))) = mset (providersMapping pf c (hostOf addr))"
    and "NewConnectedRoundTripper pf worlds order dn ctxErr ctx_end c addr = (res, released)"
  shows "mset (connected_of (map (\<lambda>pid. fst (connectVia pf (worlds pid) pid (hostOf addr) c)) (providersMapping pf c (hostOf addr))))
    = mset released + (case res of Inl _ \<Rightarrow> {#} | Inr rt \<Rightarrow> {#rt#})"
proof -
  let ?pids = "providersMapping pf c (hostOf addr)"
  let ?lane = "\<lambda>pid. fst (connectVia pf (worlds pid) pid (hostOf addr) c)"
  have m: "mset (connected_of (map ?lane (order ?pids))) = mset (connected_of (map ?lane ?pids))"
    by (rule mset_connected_of) (simp add: assms(1))
  show ?thesis
  proof (cases "?pids = []")
    case True
    with assms(2) show ?thesis
      by (auto simp: NewConnectedRoundTripper_def Let_def)
  next
    case False
    with assms(2) have "race dn ctxErr ctx_end 0 (map ?lane (order ?pids)) [] = (res, released)"
      by (simp add: NewConnectedRoundTripper_def Let_def)
    from race_conserves [OF this] m show ?thesis by simp
  qed
qed

text \<open>
  While the caller's context is alive the race fails only when every lane failed, and the round
  tripper it returns is of a provider that maps the host.
\<close>

theorem race_fails_only_if_all_fail:
  assumes "mset (order (providersMapping pf c (hostOf addr))) = mset (providersMapping pf c (hostOf addr))"
    and "NewConnectedRoundTripper pf worlds order dn ctxErr ctx_end c addr = (res, released)" and "\<forall>i. \<not> dn i"
  shows "case res of
      Inl e \<Rightarrow> (\<forall>pid\<in>set (providersMapping pf c (hostOf addr)).
         \<exists>e. fst (connectVia pf (worlds pid) pid (hostOf addr) c) = Inl e)
    | Inr rt \<Rightarrow> hostOf addr = '''' \<or> Lookup (ulower pf) (crt_provider rt) (hostOf addr) \<noteq> ''''"
proof -
  let ?pids = "providersMapping pf c (hostOf addr)"
  let ?lane = "\<lambda>pid. fst (connectVia pf (worlds pid) pid (hostOf addr) c)"
  have ps: "set (order ?pids) = set ?pids"
    using assms(1) by (metis set_mset_mset)
  show ?thesis
  proof (cases "?pids = []")
    case True
    with assms(2) show ?thesis
      by (auto simp: NewConnectedRoundTripper_def Let_def)
  next
    case False
    with assms(2) have r: "race dn ctxErr ctx_end 0 (map ?lane (order ?pids)) [] = (res, released)"
      by (simp add: NewConnectedRoundTripper_def Let_def)
    show ?thesis
    proof (cases res)
      case (Inl e)
      with race_fails [OF r assms(3)] have "connected_of (map ?lane (order ?pids)) = []" by simp
      then have "Inr rt \<notin> ?lane ` set ?pids" for rt
        using connected_of_iff [of rt "map ?lane (order ?pids)"] ps by auto
      then have "\<exists>e. ?lane pid = Inl e" if "pid \<in> set ?pids" for pid
        using that by (metis (no_types, lifting) image_eqI old.sum.exhaust)
      with Inl show ?thesis by simp
    next
      case (Inr rt)
      with race_conserves [OF r] have "rt \<in># mset (connected_of (map ?lane (order ?pids)))" by simp
      then obtain pid where "?lane pid = Inr rt"
        using connected_of_iff [of rt "map ?lane (order ?pids)"] by auto
      then obtain c' tr where "connectVia pf (worlds pid) pid (hostOf addr) c = (Inr rt, c', tr)"
        by (metis prod.collapse)
      then obtain cands tried d cands' picked d' evs where
        "lane_once pf (worlds pid (length tr - 1)) pid (hostOf addr) cands tried d = (LReturn (Inr rt), cands', picked, d', evs)"
        by (rule connectVia_result)
      from lane_once_winner [OF this] obtain is_ready where
        "lane_won pf (worlds pid (length tr - 1)) pid (hostOf addr) tried d rt is_ready"
        by blast
      from lane_won_maps [OF this] Inr show ?thesis by simp
    qed
  qed
qed

text \<open>
  C28: a connected round tripper is single-use: whatever sequence of \<open>RoundTrip\<close> and \<open>Close\<close> calls is made
  on it, in which at least one call is made, its own front, and no other, is given back, once, and at most
  one request is sent, through that front: none when the front is requeued, one when it failed or
  succeeded; unless it succeeded the pre-dialed connection is closed. Every further \<open>RoundTrip\<close> returns
  \<open>ErrRoundTripperUsed\<close>, every further \<open>Close\<close> returns no error, and neither changes anything.
\<close>

theorem connected_round_tripper_single_use:
  assumes "calls \<noteq> []" and "s = fold (crt_do pf rt) calls \<lparr>crt_used = False, crt_client = c, crt_log = []\<rparr>"
  shows "(\<exists>how. given_back (crt_log s) = [(crt_front rt, how)] \<and>
      (if how = Requeued then sent (crt_log s) = [] else \<exists>h. h \<noteq> '''' \<and> sent (crt_log s) = [(crt_front rt, h)]) \<and>
      (how = Succeeded \<or> EvNet (CloseRaw (conn_raw (crt_conn rt))) \<in> set (crt_log s))) \<and>
    crt_RoundTrip pf rt a req s = (RtErr ErrRoundTripperUsed, s) \<and> crt_Close rt others closeErr s = (None, s)"
proof -
  obtain x xs where x: "calls = x # xs"
    using assms(1) by (cases calls) auto
  have s: "s = crt_do pf rt x \<lparr>crt_used = False, crt_client = c, crt_log = []\<rparr>"
    unfolding assms(2) x by (rule crt_once.acts_once) simp
  have "crt_used s"
    unfolding s by (rule crt_do_uses)
  moreover have "\<exists>how. given_back (crt_log s) = [(crt_front rt, how)] \<and>
      (if how = Requeued then sent (crt_log s) = [] else \<exists>h. h \<noteq> '''' \<and> sent (crt_log s) = [(crt_front rt, h)]) \<and>
      (how = Succeeded \<or> EvNet (CloseRaw (conn_raw (crt_conn rt))) \<in> set (crt_log s))"
    unfolding s using crt_do_first [of "\<lparr>crt_used = False, crt_client = c, crt_log = []\<rparr>" pf rt x] by auto
  ultimately show ?thesis
    by (simp add: crt_RoundTrip_def crt_Close_def)
qed

text \<open>
  The first \<open>RoundTrip\<close> of a connected round tripper returns a response that the retry predicate
  accepts and records the success, or returns an error and closes the connection, and its front is
  failed only if the request was sent; every later call returns \<open>ErrRoundTripperUsed\<close> and does nothing.
\<close>

theorem connected_RoundTrip_outcome:
  assumes "settings (others_take a (crt_client s)) = settings (crt_client s)" and "crt_log s = []"
    and "crt_RoundTrip pf rt a req s = (r, s')"
  shows "if crt_used s then r = RtErr ErrRoundTripperUsed \<and> s' = s
    else crt_used s' \<and>
      (case r of
         Response resp \<Rightarrow> accepted (crt_client s) resp \<and> given_back (crt_log s') = [(crt_front rt, Succeeded)]
       | RtErr e \<Rightarrow> EvNet (CloseRaw (conn_raw (crt_conn rt))) \<in> set (crt_log s') \<and>
           (given_back (crt_log s') = [(crt_front rt, Requeued)] \<or>
            given_back (crt_log s') = [(crt_front rt, Failed)] \<and> (\<exists>h. EvSent (crt_front rt) h \<in> set (crt_log s')))
       | RtBlocked \<Rightarrow> False)"
proof -
  have "accepted (crt_client s) resp"
    if "doRequest (a_tr a) (valid_field_value pf) (retryableResponse (others_take a (crt_client s))) req conn h pid body = Inr resp"
    for conn h pid body resp
    using doRequest_Inr [OF that] assms(1) by (simp add: accepted_def settings_def)
  then show ?thesis
    using assms(2,3)
    by (auto simp: crt_RoundTrip_def crt_finish_def Let_def split: if_splits sum.splits)
qed

subsection \<open>A sample lane, used by the witnesses\<close>

lemma sample_lane_take:
  "tryTakeFrom (\<lambda>f p. f \<notin> {} \<and> providerIDOf sample_rt_client p = ''a'') sample_pool = (Some 0, sample_pool_taken)"
  by (simp add: tryTakeFrom_def readyCount_def sample_pool_fields tryTakeReady_def providerIDOf_def sample_pool_taken_def)
    (simp add: set_queued_def upd_front_def sample_pool_def newFront_def)

lemma sample_lane_once:
  "\<exists>cfg. lane_once sample_platform sample_lane ''a'' '''' None {} sample_rt_client =
     (LReturn (Inr \<lparr>crt_front = 0, crt_provider = sample_expanded, crt_conn = \<lparr>conn_raw = 7, conn_proto = ''h2''\<rparr>\<rparr>),
      None, Some 0, sample_rt_client\<lparr>c_pool := sample_pool_taken\<rparr>,
      [LPick 0 True, LNet (Dialed ''13.224.0.1:443'' 7), LNet (HandshakeSent cfg)])"
proof -
  have env: "l_env sample_lane = a_env good_attempt"
    by (simp add: sample_lane_def good_attempt_def)
  obtain cfg where d: "dialFront (l_env sample_lane) (mem sample_pool_taken 0)
      (certPool sample_platform (sample_rt_client\<lparr>c_pool := sample_pool_taken\<rparr>))
      (clientHelloID (sample_rt_client\<lparr>c_pool := sample_pool_taken\<rparr>)) =
     (\<lparr>dr_conn = Some \<lparr>conn_raw = 7, conn_proto = ''h2''\<rparr>, retriable = False, dr_err = None\<rparr>,
      [Dialed ''13.224.0.1:443'' 7, HandshakeSent cfg])"
    using sample_good_dial unfolding env by blast
  have "ProviderID (mem sample_pool_taken 0) = ''a''"
    using ident_provider [of sample_pool_taken 0 sample_pool 0]
    by (simp add: sample_pool_taken_def pool_simps sample_pool_fields)
  then have p: "providerFor (sample_rt_client\<lparr>c_pool := sample_pool_taken\<rparr>) (mem sample_pool_taken 0) = Some sample_expanded"
    by (simp add: providerFor_def sample_rt_client_fields)
  have o: "others_pick sample_lane = id" "others_lane sample_lane = id"
    by (simp_all add: sample_lane_def)
  have "\<not> isClosed sample_pool"
    by (simp add: isClosed_def sample_pool_fields)
  with sample_lane_take show ?thesis
    by (simp add: lane_once_def o sample_rt_client_fields lane_front_def p lane_dial_def d [simplified] Let_def)
qed

lemma sample_connectVia:
  "\<exists>cfg. connectVia sample_platform (\<lambda>_. sample_lane) ''a'' '''' sample_rt_client =
     (Inr \<lparr>crt_front = 0, crt_provider = sample_expanded, crt_conn = \<lparr>conn_raw = 7, conn_proto = ''h2''\<rparr>\<rparr>,
      sample_rt_client\<lparr>c_pool := sample_pool_taken\<rparr>,
      [[LPick 0 True, LNet (Dialed ''13.224.0.1:443'' 7), LNet (HandshakeSent cfg)]])"
proof -
  have 6: "nat (maxRetries sample_rt_client) = Suc 5"
    by (simp add: sample_rt_client_def sample_crawl_client_def sample_client_def default_client_def)
  show ?thesis
    using sample_lane_once unfolding connectVia_def 6 lane_loop.simps(2) by auto
qed

theorem connectVia_accounts_for_fronts_witness:
  "\<exists>cfg evs. snd (snd (connectVia sample_platform (\<lambda>_. sample_lane) ''a'' '''' sample_rt_client)) = [evs] \<and>
     evs = [LPick 0 True, LNet (Dialed ''13.224.0.1:443'' 7), LNet (HandshakeSent cfg)] \<and> backs evs = []"
proof -
  obtain cfg where c: "connectVia sample_platform (\<lambda>_. sample_lane) ''a'' '''' sample_rt_client =
     (Inr \<lparr>crt_front = 0, crt_provider = sample_expanded, crt_conn = \<lparr>conn_raw = 7, conn_proto = ''h2''\<rparr>\<rparr>,
      sample_rt_client\<lparr>c_pool := sample_pool_taken\<rparr>,
      [[LPick 0 True, LNet (Dialed ''13.224.0.1:443'' 7), LNet (HandshakeSent cfg)]])"
    using sample_connectVia by blast
  from connectVia_accounts_for_fronts [OF c, of "[LPick 0 True, LNet (Dialed ''13.224.0.1:443'' 7), LNet (HandshakeSent cfg)]" 0 True]
  show ?thesis by (simp add: c)
qed

theorem connectVia_winner_is_usable_witness:
  "\<exists>rt c' tr tried d. connectVia sample_platform (\<lambda>_. sample_lane) ''a'' '''' sample_rt_client = (Inr rt, c', tr) \<and>
     picks (last tr) = [(0, True)] \<and> lane_won sample_platform sample_lane ''a'' '''' tried d rt True"
proof -
  obtain cfg where c: "connectVia sample_platform (\<lambda>_. sample_lane) ''a'' '''' sample_rt_client =
     (Inr \<lparr>crt_front = 0, crt_provider = sample_expanded, crt_conn = \<lparr>conn_raw = 7, conn_proto = ''h2''\<rparr>\<rparr>,
      sample_rt_client\<lparr>c_pool := sample_pool_taken\<rparr>,
      [[LPick 0 True, LNet (Dialed ''13.224.0.1:443'' 7), LNet (HandshakeSent cfg)]])"
    using sample_connectVia by blast
  from connectVia_winner_is_usable [OF c] obtain tried d where
    "lane_won sample_platform sample_lane ''a'' '''' tried d
       \<lparr>crt_front = 0, crt_provider = sample_expanded, crt_conn = \<lparr>conn_raw = 7, conn_proto = ''h2''\<rparr>\<rparr> True"
    by auto
  with c show ?thesis by fastforce
qed

theorem cancelled_lane_blames_no_front_witness:
  "\<exists>v c' evs. lane_front sample_platform (sample_lane\<lparr>l_env := refusing_env, l_ctx := Some ErrCanceled\<rparr>) ''a'' '''' 0 True
     sample_rt_client = (v, c', evs) \<and> (0, Failed) \<notin> set (backs evs)"
proof -
  obtain v c' evs where l: "lane_front sample_platform (sample_lane\<lparr>l_env := refusing_env, l_ctx := Some ErrCanceled\<rparr>) ''a'' ''''
     0 True sample_rt_client = (v, c', evs)"
    by (metis prod_cases3)
  from cancelled_lane_blames_no_front [OF l, of ErrCanceled] l show ?thesis by simp
qed

lemma sample_mapping: "set (providersMapping sample_platform sample_rt_client (hostOf '''')) = {''a'', ''b''}" "hostOf '''' = ''''"
proof -
  show h: "hostOf '''' = ''''"
    by (simp add: hostOf_def SplitHostPort_no_colon)
  show "set (providersMapping sample_platform sample_rt_client (hostOf '''')) = {''a'', ''b''}"
    by (simp add: providersMapping_def sample_rt_client_fields h)
qed

theorem race_hands_out_one_witness:
  "\<exists>res released. NewConnectedRoundTripper sample_platform (\<lambda>_ _. sample_lane) id (\<lambda>_. True) ErrCanceled None sample_rt_client ''''
     = (res, released) \<and>
   mset (connected_of (map (\<lambda>pid. fst (connectVia sample_platform (\<lambda>_. sample_lane) pid (hostOf '''') sample_rt_client))
     (providersMapping sample_platform sample_rt_client (hostOf ''''))))
    = mset released + (case res of Inl _ \<Rightarrow> {#} | Inr rt \<Rightarrow> {#rt#})"
proof -
  obtain res released where r: "NewConnectedRoundTripper sample_platform (\<lambda>_ _. sample_lane) id (\<lambda>_. True) ErrCanceled None
      sample_rt_client '''' = (res, released)"
    by fastforce
  show ?thesis
    using race_hands_out_one [OF _ r] r by simp
qed

theorem race_fails_only_if_all_fail_witness:
  "\<exists>rt released. NewConnectedRoundTripper sample_platform (\<lambda>_ _. sample_lane) id (\<lambda>_. False) ErrCanceled None sample_rt_client ''''
     = (Inr rt, released)"
proof -
  obtain res released where r: "NewConnectedRoundTripper sample_platform (\<lambda>_ _. sample_lane) id (\<lambda>_. False) ErrCanceled None
      sample_rt_client '''' = (res, released)"
    by fastforce
  obtain rt where "fst (connectVia sample_platform (\<lambda>_. sample_lane) ''a'' '''' sample_rt_client) = Inr rt"
    using sample_connectVia by force
  with race_fails_only_if_all_fail [OF _ r] r sample_mapping show ?thesis
    by (cases res) auto
qed

definition sample_crt :: connectedRoundTripper where
  "sample_crt = \<lparr>crt_front = 0, crt_provider = sample_expanded, crt_conn = \<lparr>conn_raw = 7, conn_proto = ''h2''\<rparr>\<rparr>"

theorem connected_round_tripper_single_use_witness:
  "\<exists>s how. s = fold (crt_do sample_platform sample_crt)
     [CallClose id None, CallRoundTrip good_attempt sample_request, CallClose id None]
     \<lparr>crt_used = False, crt_client = sample_rt_client, crt_log = []\<rparr> \<and> given_back (crt_log s) = [(0, how)] \<and>
   crt_RoundTrip sample_platform sample_crt good_attempt sample_request s = (RtErr ErrRoundTripperUsed, s)"
proof -
  have "crt_front sample_crt = 0"
    by (simp add: sample_crt_def)
  with connected_round_tripper_single_use [OF _ refl, of "[CallClose id None, CallRoundTrip good_attempt sample_request,
      CallClose id None]" sample_platform sample_crt sample_rt_client good_attempt sample_request id None]
  show ?thesis by auto
qed

theorem connected_RoundTrip_outcome_witness:
  "fst (crt_RoundTrip sample_platform sample_crt good_attempt sample_request
     \<lparr>crt_used = True, crt_client = sample_rt_client, crt_log = []\<rparr>) = RtErr ErrRoundTripperUsed"
proof -
  let ?s = "\<lparr>crt_used = True, crt_client = sample_rt_client, crt_log = []\<rparr>"
  have "settings (others_take good_attempt (crt_client ?s)) = settings (crt_client ?s)"
    by (simp add: good_attempt_alone)
  from connected_RoundTrip_outcome [OF this _ surjective_pairing] show ?thesis by simp
qed

end
