(* ===== verification/ConfigFetch.thy ===== *)
theory ConfigFetch
  imports Client
begin

text \<open>
  Config updates (\<open>config_fetch.go\<close>) and the persisted config file (\<open>domainfront.go\<close>): the conditional
  GET of one source, the collector that applies the first changed config, the HTTP validators and
  their file, which is bound to the hash of the config it belongs to.
  Parameters: the HTTP client (\<open>http_Do\<close>), \<open>http.ParseTime\<close> (whether a date parses), and
  \<open>encoding/json\<close> for the metadata file.
\<close>

subsection \<open>One source\<close>

record configMetadata =
  cm_SHA256 :: string
  cm_Validators :: "(string \<times> configValidator) list option"

record configResponse =
  cr_url :: string
  cr_data :: string
  cr_validator :: configValidator
  cr_unchanged :: bool

record fetch_request =
  fq_URL :: url
  fq_Header :: header

record fetch_response =
  fp_StatusCode :: int
  fp_Header :: header
  fp_Body :: reader

definition configDigest :: "string \<Rightarrow> string" where
  "configDigest data = hex_bytes (sha256_Sum256 data)"

definition conditional_header :: "configValidator \<Rightarrow> header" where
  "conditional_header validator =
     (if ETag validator \<noteq> '''' then header_Set [] ''If-None-Match'' (ETag validator)
      else if LastModified validator \<noteq> '''' then header_Set [] ''If-Modified-Since'' (LastModified validator)
      else [])"

definition fetchConfigFrom ::
  "platform \<Rightarrow> (string \<Rightarrow> bool) \<Rightarrow> (fetch_request \<Rightarrow> goerr + fetch_response) \<Rightarrow> string \<Rightarrow> configValidator \<Rightarrow>
     configResponse option" where
  "fetchConfigFrom pf http_ParseTime http_Do url validator =
     (case url_Parse pf url of
        Inl e \<Rightarrow> None
      | Inr u \<Rightarrow>
         (case http_Do \<lparr>fq_URL = u, fq_Header = conditional_header validator\<rparr> of
            Inl e \<Rightarrow> None
          | Inr resp \<Rightarrow>
             (let lm = header_Get (fp_Header resp) ''Last-Modified'';
                  updated = \<lparr>ETag = header_Get (fp_Header resp) ''ETag'',
                             LastModified = (if http_ParseTime lm then lm else '''')\<rparr>
              in if fp_StatusCode resp = 304 then
                   (if validator = no_validator then None
                    else Some \<lparr>cr_url = url, cr_data = '''',
                      cr_validator = \<lparr>ETag = (if ETag updated = '''' then ETag validator else ETag updated),
                        LastModified = (if LastModified updated = '''' then LastModified validator else LastModified updated)\<rparr>,
                      cr_unchanged = True\<rparr>)
                 else if fp_StatusCode resp \<noteq> 200 then None
                 else
                   case limited_ReadAll (maxConfigSize + 1) (fp_Body resp) of
                     Inl e \<Rightarrow> None
                   | Inr data \<Rightarrow>
                      (if length data > maxConfigSize then None
                       else Some \<lparr>cr_url = url, cr_data = data, cr_validator = updated, cr_unchanged = False\<rparr>))))"

subsection \<open>Validators\<close>

definition validator_map :: "client \<Rightarrow> (string \<times> configValidator) list" where
  "validator_map c = (case configValidators c of None \<Rightarrow> [] | Some m \<Rightarrow> m)"

definition lookup_validator :: "(string \<times> configValidator) list \<Rightarrow> string \<Rightarrow> configValidator" where
  "lookup_validator m url = (case map_of m url of None \<Rightarrow> no_validator | Some v \<Rightarrow> v)"

definition rememberConfigValidator :: "string \<Rightarrow> configValidator \<Rightarrow> client \<Rightarrow> bool \<times> client" where
  "rememberConfigValidator url validator c =
     (if lookup_validator (validator_map c) url = validator then (False, c)
      else (True, c\<lparr>configValidators := Some
        (if validator = no_validator then AList.delete url (validator_map c)
         else AList.update url validator (validator_map c))\<rparr>))"

definition loadConfigValidators ::
  "(string \<Rightarrow> bool) \<Rightarrow> (string \<Rightarrow> goerr + configMetadata) \<Rightarrow> goerr option \<Rightarrow> client \<Rightarrow> disk \<Rightarrow> client" where
  "loadConfigValidators http_ParseTime json_Unmarshal read_err c d =
     (if configCachePath c = '''' \<or> configHash c = '''' then c
      else case d (configCachePath c @ ''.http.json'') of
             None \<Rightarrow> c
           | Some content \<Rightarrow>
              (case limited_ReadAll (push_bit 10 64 + 1) (content, read_err) of
                 Inl e \<Rightarrow> c
               | Inr data \<Rightarrow>
                  (if length data > push_bit 10 64 then c
                   else case json_Unmarshal data of
                          Inl e \<Rightarrow> c
                        | Inr metadata \<Rightarrow>
                           (let m = (case cm_Validators metadata of None \<Rightarrow> [] | Some m \<Rightarrow> m)
                            in if cm_SHA256 metadata \<noteq> configHash c then c
                               else if list_ex (\<lambda>url. LastModified (lookup_validator m url) \<noteq> '''' \<and>
                                         \<not> http_ParseTime (LastModified (lookup_validator m url))) (configURLs c) then c
                               else fold (\<lambda>url c. snd (rememberConfigValidator url (lookup_validator m url) c))
                                      (configURLs c) c))))"

definition persistConfigValidators ::
  "(configMetadata \<Rightarrow> goerr + string) \<Rightarrow> write_outcome \<Rightarrow> client \<Rightarrow> disk \<Rightarrow> disk" where
  "persistConfigValidators json_Marshal out c d =
     (if configCachePath c = '''' \<or> configHash c = '''' then d
      else case json_Marshal \<lparr>cm_SHA256 = configHash c, cm_Validators = configValidators c\<rparr> of
             Inl e \<Rightarrow> d
           | Inr data \<Rightarrow> snd (writeFile out (configCachePath c @ ''.http.json'') data d))"

subsection \<open>The persisted config\<close>

definition readPersistedConfig ::
  "platform \<Rightarrow> goerr option \<Rightarrow> goerr option \<Rightarrow> client \<Rightarrow> disk \<Rightarrow> (string \<times> config) option" where
  "readPersistedConfig pf open_err read_err c d =
     (if configCachePath c = '''' then None
      else if open_err \<noteq> None then None
      else case d (configCachePath c) of
             None \<Rightarrow> None
           | Some content \<Rightarrow>
              (case limited_ReadAll (maxConfigSize + 1) (content, read_err) of
                 Inl e \<Rightarrow> None
               | Inr data \<Rightarrow>
                  (if length data > maxConfigSize then None
                   else case ParseConfig (codecs_of pf) data of Inl e \<Rightarrow> None | Inr cfg \<Rightarrow> Some (data, cfg))))"

definition loadPersistedConfig ::
  "platform \<Rightarrow> goerr option \<Rightarrow> goerr option \<Rightarrow> client \<Rightarrow> disk \<Rightarrow> config option" where
  "loadPersistedConfig pf open_err read_err c d =
     (case readPersistedConfig pf open_err read_err c d of None \<Rightarrow> None | Some (_, cfg) \<Rightarrow> Some cfg)"

definition persistConfig :: "write_outcome \<Rightarrow> string \<Rightarrow> client \<Rightarrow> disk \<Rightarrow> disk" where
  "persistConfig out data c d =
     (if configCachePath c = '''' then d else snd (writeFile out (configCachePath c) data d))"

subsection \<open>The collector\<close>

datatype recv = Got "configResponse option" | Ended | Blocks

text \<open>
  \<open>queue\<close> holds the responses that are there when the select runs, \<open>deadline\<close> says whether the fetch
  context is done by then; with both, \<open>pick\<close> is Go's choice between the two cases.
\<close>

definition receiveConfigResponse ::
  "bool \<Rightarrow> bool \<Rightarrow> configResponse option list \<Rightarrow> recv \<times> configResponse option list" where
  "receiveConfigResponse pick deadline queue =
     (if queue \<noteq> [] \<and> (\<not> deadline \<or> pick) then (Got (hd queue), tl queue)
      else if deadline then
        (case queue of r # rs \<Rightarrow> (Got r, rs) | [] \<Rightarrow> (Ended, []))
      else (Blocks, queue))"

record fetch_env =
  fe_others :: "client \<Rightarrow> client"
  fe_arrivals :: "nat list"  \<comment> \<open>which sources' responses arrive before the select of this iteration\<close>
  fe_deadline :: bool
  fe_pick :: bool
  fe_waited :: bool          \<comment> \<open>what \<open>gate.wait\<close> returns\<close>
  fe_others_wait :: "client \<Rightarrow> client"
  fe_draw :: "nat \<Rightarrow> nat"
  fe_out :: write_outcome

record fetch_state =
  fs_client :: client
  fs_disk :: disk
  fs_queue :: "configResponse option list"
  fs_unchanged :: bool
  fs_validatorsChanged :: bool

datatype fetch_step = FNext fetch_state | FEnd fetch_state | FBlocked fetch_state | FPanic

text \<open>What the collector does with a response that is not nil.\<close>

definition handle_response :: "platform \<Rightarrow> fetch_env \<Rightarrow> configResponse \<Rightarrow> fetch_state \<Rightarrow> fetch_step" where
  "handle_response pf a r s =
     (let c = fs_client s;
          digest = (if \<not> cr_unchanged r then configDigest (cr_data r) else '''')
      in if cr_unchanged r \<or> (configHash c \<noteq> '''' \<and> digest = configHash c) then
           (let (changed, c') = rememberConfigValidator (cr_url r) (cr_validator r) c
            in FNext (s\<lparr>fs_client := c', fs_unchanged := True,
                        fs_validatorsChanged := changed \<or> fs_validatorsChanged s\<rparr>))
         else
           case ParseConfig (codecs_of pf) (cr_data r) of
             Inl e \<Rightarrow> FNext s
           | Inr cfg \<Rightarrow>
              (let c1 = fe_others_wait a c
               in if \<not> fe_waited a then FEnd (s\<lparr>fs_client := c1\<rparr>)
                  else
                    case applyConfig pf (fe_draw a) cfg c1 of
                      (Some Panicked, c2) \<Rightarrow> FPanic
                    | (Some (Returned e), c2) \<Rightarrow> FNext (s\<lparr>fs_client := c2\<rparr>)
                    | (None, c2) \<Rightarrow>
                       (let c3 = snd (rememberConfigValidator (cr_url r) (cr_validator r)
                              (c2\<lparr>configHash := digest, configValidators := Some []\<rparr>))
                        in FEnd (s\<lparr>fs_client := c3, fs_disk := persistConfig (fe_out a) (cr_data r) c3 (fs_disk s),
                                   fs_validatorsChanged := True\<rparr>))))"

definition collect_once ::
  "platform \<Rightarrow> configResponse option list \<Rightarrow> fetch_env \<Rightarrow> fetch_state \<Rightarrow> fetch_step" where
  "collect_once pf responses a s =
     (let s0 = s\<lparr>fs_client := fe_others a (fs_client s),
                 fs_queue := fs_queue s @ map (\<lambda>i. responses ! i) (fe_arrivals a)\<rparr>
      in if ctx_err (fs_client s0) \<noteq> None then FEnd s0
         else
           case receiveConfigResponse (fe_pick a) (fe_deadline a) (fs_queue s0) of
             (Blocks, q) \<Rightarrow> FBlocked s0
           | (Ended, q) \<Rightarrow> FEnd (s0\<lparr>fs_queue := q\<rparr>)
           | (Got None, q) \<Rightarrow> FNext (s0\<lparr>fs_queue := q\<rparr>)
           | (Got (Some r), q) \<Rightarrow> handle_response pf a r (s0\<lparr>fs_queue := q\<rparr>))"

fun collect ::
  "platform \<Rightarrow> configResponse option list \<Rightarrow> (nat \<Rightarrow> fetch_env) \<Rightarrow> nat \<Rightarrow> nat \<Rightarrow> fetch_state \<Rightarrow> fetch_step" where
  "collect pf responses world 0 i s = FEnd s"
| "collect pf responses world (Suc n) i s =
     (case collect_once pf responses (world i) s of
        FNext s' \<Rightarrow> collect pf responses world n (Suc i) s'
      | r \<Rightarrow> r)"

text \<open>The deferred write of the validators.\<close>

definition finish_fetch ::
  "(configMetadata \<Rightarrow> goerr + string) \<Rightarrow> write_outcome \<Rightarrow> fetch_state \<Rightarrow> fetch_state" where
  "finish_fetch json_Marshal out s =
     (if fs_validatorsChanged s
      then s\<lparr>fs_disk := persistConfigValidators json_Marshal out (fs_client s) (fs_disk s)\<rparr> else s)"

definition source_responses ::
  "platform \<Rightarrow> (string \<Rightarrow> bool) \<Rightarrow> (string \<Rightarrow> fetch_request \<Rightarrow> goerr + fetch_response) \<Rightarrow> client \<Rightarrow>
     configResponse option list" where
  "source_responses pf http_ParseTime http_Do c =
     map (\<lambda>url. fetchConfigFrom pf http_ParseTime (http_Do url) url (lookup_validator (validator_map c) url))
       (configURLs c)"

definition fetchAndApplyConfig ::
  "platform \<Rightarrow> (string \<Rightarrow> bool) \<Rightarrow> (configMetadata \<Rightarrow> goerr + string) \<Rightarrow>
     (string \<Rightarrow> fetch_request \<Rightarrow> goerr + fetch_response) \<Rightarrow> (nat \<Rightarrow> fetch_env) \<Rightarrow> write_outcome \<Rightarrow> client \<Rightarrow> disk \<Rightarrow> fetch_step" where
  "fetchAndApplyConfig pf http_ParseTime json_Marshal http_Do world out c d =
     (let s = \<lparr>fs_client = c, fs_disk = d, fs_queue = [], fs_unchanged = False, fs_validatorsChanged = False\<rparr>
      in if length (configURLs c) = 0 then FEnd s
         else
           case collect pf (source_responses pf http_ParseTime http_Do c) world (length (configURLs c)) 0 s of
             FEnd s' \<Rightarrow> FEnd (finish_fetch json_Marshal out s')
           | FNext s' \<Rightarrow> FNext s'
           | FBlocked s' \<Rightarrow> FBlocked s'
           | FPanic \<Rightarrow> FPanic)"

subsection \<open>Facts about sources and validators\<close>

lemma configDigest_nonempty [simp]: "configDigest data \<noteq> ''''"
proof -
  have "length (hex_bytes bs) = 2 * length bs" for bs
    by (induction bs) (auto simp: hex_bytes_def)
  then have "length (configDigest data) = 64"
    by (simp add: configDigest_def)
  then show ?thesis by force
qed

lemma lookup_remember:
  "lookup_validator (validator_map (snd (rememberConfigValidator url v c))) u =
     (if u = url then v else lookup_validator (validator_map c) u)"
  by (auto simp: rememberConfigValidator_def lookup_validator_def validator_map_def map_of_update
      AList.delete_conv' split: option.splits)

lemma remember_changed:
  "fst (rememberConfigValidator url v c) \<longleftrightarrow> lookup_validator (validator_map c) url \<noteq> v"
  by (simp add: rememberConfigValidator_def)

text \<open>What a config update may change besides the validators; the rest of the client belongs to others.\<close>

definition config_view ::
  "client \<Rightarrow> string \<times> string list \<times> string \<times> string \<times> (string \<times> provider) list \<times> certpool option \<times> fref list" where
  "config_view c =
     (configHash c, configURLs c, configCachePath c, countryCode c, providers c, certPoolValue c, fronts (c_pool c))"

lemma remember_fields [simp]:
  "config_view (snd (rememberConfigValidator url v c)) = config_view c"
  "c_pool (snd (rememberConfigValidator url v c)) = c_pool c"
  "configHash (snd (rememberConfigValidator url v c)) = configHash c"
  "configURLs (snd (rememberConfigValidator url v c)) = configURLs c"
  "configCachePath (snd (rememberConfigValidator url v c)) = configCachePath c"
  "providers (snd (rememberConfigValidator url v c)) = providers c"
  "certPoolValue (snd (rememberConfigValidator url v c)) = certPoolValue c"
  by (simp_all add: rememberConfigValidator_def config_view_def)

lemma lookup_remember_all:
  "lookup_validator (validator_map (fold (\<lambda>url c. snd (rememberConfigValidator url (f url) c)) urls c)) u =
     (if u \<in> set urls then f u else lookup_validator (validator_map c) u)"
  by (induction urls arbitrary: c) (auto simp: lookup_remember)

lemma remember_all_fields:
  "config_view (fold (\<lambda>url c. snd (rememberConfigValidator url (f url) c)) urls c) = config_view c"
  by (induction urls arbitrary: c) simp_all

lemma applyConfig_config_fields:
  assumes "applyConfig pf draw cfg c = (None, c')"
  shows "configURLs c' = configURLs c" "configCachePath c' = configCachePath c" "configHash c' = configHash c"
    "configValidators c' = configValidators c"
  using assms by (auto elim!: applyConfig_ok)

subsection \<open>Facts about the collector\<close>

lemma receive_cases:
  assumes "receiveConfigResponse pick deadline queue = (r, q)"
  obtains x where "r = Got x" "queue = x # q"
  | "r = Ended" "queue = []" "deadline"
  | "r = Blocks" "queue = []" "\<not> deadline"
  using assms by (cases queue) (auto simp: receiveConfigResponse_def split: if_splits)

definition quiet :: "fetch_env \<Rightarrow> bool" where
  "quiet a \<longleftrightarrow> (\<forall>c. config_view (fe_others a c) = config_view c \<and> config_view (fe_others_wait a c) = config_view c \<and>
     configValidators (fe_others a c) = configValidators c \<and> configValidators (fe_others_wait a c) = configValidators c)"

text \<open>
  The state after an update: some response was new, parsed and could be applied; \<open>outs\<close> are the ways
  in which the write of the persisted config may end.
\<close>

definition applied_config ::
  "platform \<Rightarrow> configResponse option list \<Rightarrow> write_outcome set \<Rightarrow> client \<Rightarrow> disk \<Rightarrow> fetch_state \<Rightarrow> bool" where
  "applied_config pf responses outs c d s \<longleftrightarrow> (\<exists>r cfg c1 draw out c2. out \<in> outs \<and> Some r \<in> set responses \<and> \<not> cr_unchanged r \<and>
     configDigest (cr_data r) \<noteq> configHash c \<and> ParseConfig (codecs_of pf) (cr_data r) = Inr cfg \<and>
     config_view c1 = config_view c \<and> applyConfig pf draw cfg c1 = (None, c2) \<and>
     fs_client s = snd (rememberConfigValidator (cr_url r) (cr_validator r)
       (c2\<lparr>configHash := configDigest (cr_data r), configValidators := Some []\<rparr>)) \<and>
     fs_disk s = persistConfig out (cr_data r) (fs_client s) d \<and> fs_validatorsChanged s)"

lemma configHash_view: "config_view c = config_view d \<Longrightarrow> configHash c = configHash d"
  by (simp add: config_view_def)

lemma handle_response_step:
  assumes "quiet a" and "fe_out a \<in> outs" and "Some r \<in> set responses" and "config_view (fs_client s) = config_view c"
  shows "case handle_response pf a r s of
      FNext s' \<Rightarrow> config_view (fs_client s') = config_view c \<and> fs_disk s' = fs_disk s \<and> fs_queue s' = fs_queue s
    | FEnd s' \<Rightarrow> config_view (fs_client s') = config_view c \<and> fs_disk s' = fs_disk s \<or>
        applied_config pf responses outs c (fs_disk s) s'
    | FBlocked s' \<Rightarrow> False | FPanic \<Rightarrow> True"
proof -
  let ?c = "fs_client s"
  have h: "configHash ?c = configHash c"
    using assms(4) by (rule configHash_view)
  consider (u) "cr_unchanged r \<or> configHash ?c \<noteq> '''' \<and> configDigest (cr_data r) = configHash ?c"
    | (n) "\<not> cr_unchanged r" "configDigest (cr_data r) \<noteq> configHash ?c"
    using configDigest_nonempty [of "cr_data r"] by metis
  then show ?thesis
  proof cases
    case u
    then have eq: "cr_unchanged r \<or> configHash ?c \<noteq> '''' \<and>
        (if \<not> cr_unchanged r then configDigest (cr_data r) else '''') = configHash ?c"
      by auto
    obtain ch c' where rem: "rememberConfigValidator (cr_url r) (cr_validator r) ?c = (ch, c')"
      by fastforce
    then have "config_view c' = config_view c"
      using assms(4) remember_fields(1) [of "cr_url r" "cr_validator r" ?c] by simp
    with eq rem show ?thesis
      unfolding handle_response_def Let_def by simp
  next
    case n
    have w: "config_view (fe_others_wait a ?c) = config_view c"
      using assms(1,4) by (simp add: quiet_def)
    show ?thesis
    proof (cases "ParseConfig (codecs_of pf) (cr_data r)")
      case (Inl e)
      with n assms(4) show ?thesis by (auto simp: handle_response_def Let_def)
    next
      case cfg: (Inr cfg)
      show ?thesis
      proof (cases rule: applied_cases [of pf "fe_draw a" cfg "fe_others_wait a ?c"])
        case (refused f)
        with n w cfg show ?thesis
          by (cases f) (auto simp: handle_response_def Let_def)
      next
        case (applied c2)
        let ?c3 = "snd (rememberConfigValidator (cr_url r) (cr_validator r)
                 (c2\<lparr>configHash := configDigest (cr_data r), configValidators := Some []\<rparr>))"
        let ?s = "s\<lparr>fs_client := ?c3, fs_disk := persistConfig (fe_out a) (cr_data r) ?c3 (fs_disk s),
                    fs_validatorsChanged := True\<rparr>"
        have "applied_config pf responses outs c (fs_disk s) ?s"
          unfolding applied_config_def using n assms(2,3) cfg w applied h
          by (intro exI [of _ r] exI [of _ cfg] exI [of _ "fe_others_wait a ?c"] exI [of _ "fe_draw a"]
              exI [of _ "fe_out a"] exI [of _ c2]) simp
        with n w cfg applied show ?thesis
          by (auto simp: handle_response_def Let_def)
      qed
    qed
  qed
qed

definition arrivals_ok :: "nat \<Rightarrow> (nat \<Rightarrow> fetch_env) \<Rightarrow> bool" where
  "arrivals_ok n world \<longleftrightarrow> (\<forall>i. \<forall>j\<in>set (fe_arrivals (world i)). j < n)"

lemma collect_once_step:
  assumes "quiet a" and "fe_out a \<in> outs" and "\<forall>j\<in>set (fe_arrivals a). j < length responses"
    and "config_view (fs_client s) = config_view c" and "set (fs_queue s) \<subseteq> set responses"
  shows "case collect_once pf responses a s of
      FNext s' \<Rightarrow> config_view (fs_client s') = config_view c \<and> fs_disk s' = fs_disk s \<and> set (fs_queue s') \<subseteq> set responses
    | FEnd s' \<Rightarrow> config_view (fs_client s') = config_view c \<and> fs_disk s' = fs_disk s \<or>
        applied_config pf responses outs c (fs_disk s) s'
    | FBlocked s' \<Rightarrow> fs_queue s' = [] \<and> \<not> fe_deadline a | FPanic \<Rightarrow> True"
proof -
  define q where "q = fs_queue s @ map (\<lambda>i. responses ! i) (fe_arrivals a)"
  define s0 where "s0 = s\<lparr>fs_client := fe_others a (fs_client s), fs_queue := q\<rparr>"
  have q: "set q \<subseteq> set responses"
    using assms(3,5) by (auto simp: q_def)
  have v: "config_view (fs_client s0) = config_view c"
    using assms(1,4) by (simp add: s0_def quiet_def)
  have eq: "collect_once pf responses a s =
     (if ctx_err (fs_client s0) \<noteq> None then FEnd s0
      else case receiveConfigResponse (fe_pick a) (fe_deadline a) q of
             (Blocks, q') \<Rightarrow> FBlocked s0
           | (Ended, q') \<Rightarrow> FEnd (s0\<lparr>fs_queue := q'\<rparr>)
           | (Got None, q') \<Rightarrow> FNext (s0\<lparr>fs_queue := q'\<rparr>)
           | (Got (Some r), q') \<Rightarrow> handle_response pf a r (s0\<lparr>fs_queue := q'\<rparr>))"
    unfolding collect_once_def Let_def s0_def q_def by simp
  show ?thesis
  proof (cases "ctx_err (fs_client s0)")
    case (Some e)
    with eq v show ?thesis by (simp add: s0_def)
  next
    case None
    obtain m q' where rc: "receiveConfigResponse (fe_pick a) (fe_deadline a) q = (m, q')"
      by fastforce
    from rc show ?thesis
    proof (cases rule: receive_cases)
      case (1 x)
      show ?thesis
      proof (cases x)
        case None
        with \<open>ctx_err _ = None\<close> eq rc 1 v q show ?thesis by (auto simp: s0_def)
      next
        case (Some r)
        with 1 q have "Some r \<in> set responses" by auto
        from handle_response_step [OF assms(1,2) this, of "s0\<lparr>fs_queue := q'\<rparr>" c pf] v None eq rc 1 Some q show ?thesis
          by (auto simp: s0_def split: fetch_step.splits)
      qed
    next
      case 2
      with None eq rc v show ?thesis by (simp add: s0_def)
    next
      case 3
      with None eq rc show ?thesis by (simp add: s0_def)
    qed
  qed
qed

lemma collect_steps:
  assumes "\<forall>i. quiet (world i)" and "\<forall>i. fe_out (world i) \<in> outs" and "arrivals_ok (length responses) world"
    and "config_view (fs_client s) = config_view c" and "set (fs_queue s) \<subseteq> set responses"
  shows "case collect pf responses world n i s of
      FNext s' \<Rightarrow> False
    | FEnd s' \<Rightarrow> config_view (fs_client s') = config_view c \<and> fs_disk s' = fs_disk s \<or>
        applied_config pf responses outs c (fs_disk s) s'
    | FBlocked s' \<Rightarrow> \<exists>j. \<not> fe_deadline (world j) | FPanic \<Rightarrow> True"
  using assms(4,5)
proof (induction n arbitrary: i s)
  case (Suc n)
  have "quiet (world i)" "fe_out (world i) \<in> outs" "\<forall>j\<in>set (fe_arrivals (world i)). j < length responses"
    using assms(1,2,3) by (auto simp: arrivals_ok_def)
  note st = collect_once_step [OF this Suc.prems, of pf]
  show ?case
  proof (cases "collect_once pf responses (world i) s")
    case (FNext s')
    with st Suc.IH [of s' "Suc i"] show ?thesis by (auto split: fetch_step.splits)
  qed (use st in auto)
qed simp

lemma length_source_responses [simp]: "length (source_responses pf pt do c) = length (configURLs c)"
  by (simp add: source_responses_def)

lemma disk_update_other: "path \<noteq> q \<Longrightarrow> snd (writeFile out q data d) path = d path"
  by (cases out) (simp_all add: writeFile_def)

lemma finish_fetch_fields:
  "fs_client (finish_fetch json_Marshal out s) = fs_client s"
  "fs_disk (finish_fetch json_Marshal out s) (configCachePath (fs_client s)) = fs_disk s (configCachePath (fs_client s))"
  by (auto simp: finish_fetch_def persistConfigValidators_def disk_update_other split: sum.split)

lemma persistConfig_disk:
  "persistConfig WriteOk data c d = (if configCachePath c = '''' then d else d(configCachePath c \<mapsto> data))"
  by (simp add: persistConfig_def writeFile_def)

text \<open>An update in terms of the client it leaves.\<close>

lemma applied_config_client:
  assumes "applied_config pf responses outs c d s"
  obtains r cfg c1 draw c2 out where "out \<in> outs" "Some r \<in> set responses" "\<not> cr_unchanged r" "configDigest (cr_data r) \<noteq> configHash c"
    "ParseConfig (codecs_of pf) (cr_data r) = Inr cfg" "config_view c1 = config_view c"
    "applyConfig pf draw cfg c1 = (None, c2)" "providers (fs_client s) = providers c2"
    "certPoolValue (fs_client s) = certPoolValue c2" "c_pool (fs_client s) = c_pool c2"
    "configHash (fs_client s) = configDigest (cr_data r)" "configCachePath (fs_client s) = configCachePath c"
    "\<And>url. lookup_validator (validator_map (fs_client s)) url = (if url = cr_url r then cr_validator r else no_validator)"
    "fs_disk s = persistConfig out (cr_data r) (fs_client s) d"
proof -
  from assms obtain r cfg c1 draw out c2 where a: "out \<in> outs" "Some r \<in> set responses" "\<not> cr_unchanged r"
    "configDigest (cr_data r) \<noteq> configHash c" "ParseConfig (codecs_of pf) (cr_data r) = Inr cfg"
    "config_view c1 = config_view c" "applyConfig pf draw cfg c1 = (None, c2)" and
    cl: "fs_client s = snd (rememberConfigValidator (cr_url r) (cr_validator r)
       (c2\<lparr>configHash := configDigest (cr_data r), configValidators := Some []\<rparr>))" and
    dk: "fs_disk s = persistConfig out (cr_data r) (fs_client s) d"
    unfolding applied_config_def by blast
  have "configCachePath c1 = configCachePath c"
    using a(6) by (simp add: config_view_def)
  then have "configCachePath (fs_client s) = configCachePath c"
    using applyConfig_config_fields(2) [OF a(7)] by (simp add: cl)
  then show ?thesis
    by (intro that [OF a _ _ _ _ _ _ dk])
      (simp_all add: cl lookup_remember, simp_all add: validator_map_def lookup_validator_def)
qed

lemma fetchConfigFrom_data:
  assumes "fetchConfigFrom pf http_ParseTime http_Do url validator = Some r" and "\<not> cr_unchanged r"
  shows "length (cr_data r) \<le> maxConfigSize"
  using assms by (auto simp: fetchConfigFrom_def Let_def split: sum.splits if_splits)

lemma source_responses_data:
  "Some r \<in> set (source_responses pf pt http_Do c) \<Longrightarrow> \<not> cr_unchanged r \<Longrightarrow> length (cr_data r) \<le> maxConfigSize"
  by (auto simp: source_responses_def dest: fetchConfigFrom_data [OF sym])

text \<open>How a whole refresh ends.\<close>

lemma fetch_result:
  assumes "\<forall>i. quiet (world i)" and "\<forall>i. fe_out (world i) \<in> outs" and "arrivals_ok (length (configURLs c)) world"
    and "fetchAndApplyConfig pf pt json_Marshal http_Do world out c d = FEnd s"
  obtains (same) "config_view (fs_client s) = config_view c" "fs_disk s (configCachePath c) = d (configCachePath c)"
  | (new) s' where "applied_config pf (source_responses pf pt http_Do c) outs c d s'" "s = finish_fetch json_Marshal out s'"
proof -
  let ?rs = "source_responses pf pt http_Do c"
  let ?s = "\<lparr>fs_client = c, fs_disk = d, fs_queue = [], fs_unchanged = False, fs_validatorsChanged = False\<rparr>"
  show thesis
  proof (cases "configURLs c = []")
    case True
    with assms(4) have "s = ?s" by (simp add: fetchAndApplyConfig_def)
    then show thesis by (intro same) simp_all
  next
    case False
    with assms(4) obtain s' where s': "collect pf ?rs world (length (configURLs c)) 0 ?s = FEnd s'"
      "s = finish_fetch json_Marshal out s'"
      by (auto simp: fetchAndApplyConfig_def Let_def split: fetch_step.splits)
    have "arrivals_ok (length ?rs) world"
      using assms(3) by (simp add: arrivals_ok_def)
    from collect_steps [OF assms(1,2) this, of ?s c pf "length (configURLs c)" 0] s'(1)
    consider "config_view (fs_client s') = config_view c" "fs_disk s' = d" | "applied_config pf ?rs outs c d s'"
      by auto
    then show thesis
    proof cases
      case 1
      then have "configCachePath (fs_client s') = configCachePath c"
        by (simp add: config_view_def)
      with 1 finish_fetch_fields [of json_Marshal out s'] show thesis
        by (intro same) (simp_all add: s'(2))
    qed (rule new [OF _ s'(2)])
  qed
qed

subsection \<open>Properties\<close>

text \<open>
  C29: a config refresh ends in one of two ways. Either no source had anything new that works: the hash,
  the providers, the roots, the set of fronts and the persisted config are what they were. Or one
  source sent bytes with another digest that parse and can be applied: the client is what
  \<open>applyConfig\<close> makes of them, its hash is their digest, and of the validators only the one that came
  with them is left, so a validator of an earlier config can never make a server confirm this one.
\<close>

theorem fetch_applies_new_config_or_nothing:
  assumes "\<forall>i. quiet (world i)" and "arrivals_ok (length (configURLs c)) world"
    and "fetchAndApplyConfig pf pt json_Marshal http_Do world out c d = FEnd s"
  shows "if configHash (fs_client s) = configHash c then
      config_view (fs_client s) = config_view c \<and> fs_disk s (configCachePath c) = d (configCachePath c)
    else \<exists>r cfg c1 draw c2. Some r \<in> set (source_responses pf pt http_Do c) \<and> \<not> cr_unchanged r \<and>
      ParseConfig (codecs_of pf) (cr_data r) = Inr cfg \<and> config_view c1 = config_view c \<and>
      applyConfig pf draw cfg c1 = (None, c2) \<and> providers (fs_client s) = providers c2 \<and>
      certPoolValue (fs_client s) = certPoolValue c2 \<and> c_pool (fs_client s) = c_pool c2 \<and>
      configHash (fs_client s) = configDigest (cr_data r) \<and>
      (\<forall>url. lookup_validator (validator_map (fs_client s)) url =
        (if url = cr_url r then cr_validator r else no_validator))"
proof -
  have "\<forall>i. fe_out (world i) \<in> UNIV" by simp
  with assms(1) show ?thesis
    using assms(2,3)
  proof (cases rule: fetch_result)
    case same
    then show ?thesis by (simp add: config_view_def)
  next
    case (new s')
    from new(1) show ?thesis
      by (rule applied_config_client) (simp add: new(2) finish_fetch_fields, blast)
  qed
qed

text \<open>
  A refresh in which every source that answers says 304 or sends the bytes the client already has
  rebuilds nothing: providers, roots, hash and the set of fronts stay as they are.
\<close>

theorem unchanged_sources_rebuild_nothing:
  assumes "\<forall>i. quiet (world i)" and "arrivals_ok (length (configURLs c)) world"
    and "fetchAndApplyConfig pf pt json_Marshal http_Do world out c d = FEnd s"
    and "\<forall>r. Some r \<in> set (source_responses pf pt http_Do c) \<longrightarrow> cr_unchanged r \<or> configDigest (cr_data r) = configHash c"
  shows "configHash (fs_client s) = configHash c \<and> providers (fs_client s) = providers c \<and>
    certPoolValue (fs_client s) = certPoolValue c \<and> fronts (c_pool (fs_client s)) = fronts (c_pool c)"
proof -
  have "\<forall>i. fe_out (world i) \<in> UNIV" by simp
  with assms(1) have "config_view (fs_client s) = config_view c"
    using assms(2,3)
  proof (cases rule: fetch_result)
    case (new s')
    with assms(4) show ?thesis by (auto simp: applied_config_def)
  qed
  then show ?thesis by (simp add: config_view_def)
qed

text \<open>
  A refresh never waits past its deadline: when the fetch context is done at every receive, the
  collector returns (or an applied config panics); and a response that is already queued is processed,
  whatever case of the select Go picks.
\<close>

theorem fetch_ends_by_deadline:
  assumes "\<forall>i. quiet (world i) \<and> fe_deadline (world i)" and "arrivals_ok (length (configURLs c)) world"
  shows "(\<forall>s. fetchAndApplyConfig pf pt json_Marshal http_Do world out c d \<noteq> FBlocked s \<and>
      fetchAndApplyConfig pf pt json_Marshal http_Do world out c d \<noteq> FNext s) \<and>
    (\<forall>pick r q. receiveConfigResponse pick True (r # q) = (Got r, q))"
proof -
  let ?rs = "source_responses pf pt http_Do c"
  let ?s = "\<lparr>fs_client = c, fs_disk = d, fs_queue = [], fs_unchanged = False, fs_validatorsChanged = False\<rparr>"
  have "\<forall>i. quiet (world i)" "arrivals_ok (length ?rs) world"
    using assms by (auto simp: arrivals_ok_def)
  from collect_steps [where outs = UNIV, OF this(1) _ this(2), of ?s c pf "length (configURLs c)" 0] assms(1)
  have "\<forall>s. collect pf ?rs world (length (configURLs c)) 0 ?s \<noteq> FBlocked s \<and>
      collect pf ?rs world (length (configURLs c)) 0 ?s \<noteq> FNext s"
    by auto
  then show ?thesis
    by (auto simp: fetchAndApplyConfig_def Let_def receiveConfigResponse_def split: fetch_step.splits)
qed

text \<open>
  One source's answer is used only when it can be trusted: a 304 counts only if the request carried a
  validator, and then keeps the parts of it that the answer does not renew; a 200 counts only if its
  body could be read to the end and is within the size cap; and no date is remembered that does not
  parse, apart from one that was sent.
\<close>

theorem fetchConfigFrom_contract:
  assumes "fetchConfigFrom pf http_ParseTime http_Do url validator = Some r"
  shows "cr_url r = url \<and> (\<exists>req resp. http_Do req = Inr resp \<and>
    (if cr_unchanged r then fp_StatusCode resp = 304 \<and> validator \<noteq> no_validator \<and>
       (ETag (cr_validator r) = ETag validator \<or> ETag (cr_validator r) = header_Get (fp_Header resp) ''ETag'') \<and>
       (LastModified (cr_validator r) = LastModified validator \<or> http_ParseTime (LastModified (cr_validator r)))
     else fp_StatusCode resp = 200 \<and> fp_Body resp = (cr_data r, None) \<and> length (cr_data r) \<le> maxConfigSize \<and>
       (LastModified (cr_validator r) = '''' \<or> http_ParseTime (LastModified (cr_validator r)))))"
proof -
  from assms obtain u resp where u: "url_Parse pf url = Inr u"
    and resp: "http_Do \<lparr>fq_URL = u, fq_Header = conditional_header validator\<rparr> = Inr resp"
    by (auto simp: fetchConfigFrom_def split: sum.splits)
  have body: "b = (data, None)" if "limited_ReadAll (Suc maxConfigSize) b = Inr data" "\<not> maxConfigSize < length data" for b data
    using that by (cases b) (auto simp: limited_ReadAll_def split: if_splits option.splits)
  show ?thesis
    using assms resp
    by (intro conjI exI [of _ "\<lparr>fq_URL = u, fq_Header = conditional_header validator\<rparr>"] exI [of _ resp])
      (auto simp: fetchConfigFrom_def u Let_def dest: body split: sum.splits if_splits)
qed

text \<open>
  The validator file is used as a whole or not at all: either it changes nothing, or it is bound to the
  digest of the config in use, all dates in it for the configured URLs parse, and then exactly the
  configured URLs have the validators of the file. Nothing else of the client changes.
\<close>

theorem loadConfigValidators_all_or_nothing:
  "(loadConfigValidators http_ParseTime json_Unmarshal read_err c d = c \<or>
    (\<exists>data metadata m. json_Unmarshal data = Inr metadata \<and> cm_SHA256 metadata = configHash c \<and> configHash c \<noteq> '''' \<and>
       m = (case cm_Validators metadata of None \<Rightarrow> [] | Some m \<Rightarrow> m) \<and>
       list_all (\<lambda>url. LastModified (lookup_validator m url) = '''' \<or> http_ParseTime (LastModified (lookup_validator m url)))
         (configURLs c) \<and>
       (\<forall>url. lookup_validator (validator_map (loadConfigValidators http_ParseTime json_Unmarshal read_err c d)) url =
         (if url \<in> set (configURLs c) then lookup_validator m url else lookup_validator (validator_map c) url)))) \<and>
   config_view (loadConfigValidators http_ParseTime json_Unmarshal read_err c d) = config_view c"
proof -
  define c' where "c' = loadConfigValidators http_ParseTime json_Unmarshal read_err c d"
  consider (same) "c' = c" | (loaded) data metadata where "json_Unmarshal data = Inr metadata"
      "cm_SHA256 metadata = configHash c" "configHash c \<noteq> ''''"
      "\<not> list_ex (\<lambda>url. LastModified (lookup_validator (case cm_Validators metadata of None \<Rightarrow> [] | Some m \<Rightarrow> m) url) \<noteq> '''' \<and>
         \<not> http_ParseTime (LastModified (lookup_validator (case cm_Validators metadata of None \<Rightarrow> [] | Some m \<Rightarrow> m) url)))
         (configURLs c)"
      "c' = fold (\<lambda>url c. snd (rememberConfigValidator url
         (lookup_validator (case cm_Validators metadata of None \<Rightarrow> [] | Some m \<Rightarrow> m) url) c)) (configURLs c) c"
    unfolding c'_def loadConfigValidators_def Let_def
    by (fastforce split: if_splits option.splits sum.splits)
  then have "(c' = c \<or>
    (\<exists>data metadata m. json_Unmarshal data = Inr metadata \<and> cm_SHA256 metadata = configHash c \<and> configHash c \<noteq> '''' \<and>
       m = (case cm_Validators metadata of None \<Rightarrow> [] | Some m \<Rightarrow> m) \<and>
       list_all (\<lambda>url. LastModified (lookup_validator m url) = '''' \<or> http_ParseTime (LastModified (lookup_validator m url)))
         (configURLs c) \<and>
       (\<forall>url. lookup_validator (validator_map c') url =
         (if url \<in> set (configURLs c) then lookup_validator m url else lookup_validator (validator_map c) url)))) \<and>
   config_view c' = config_view c"
  proof cases
    case loaded
    let ?m = "case cm_Validators metadata of None \<Rightarrow> [] | Some m \<Rightarrow> m"
    have "list_all (\<lambda>url. LastModified (lookup_validator ?m url) = '''' \<or> http_ParseTime (LastModified (lookup_validator ?m url)))
         (configURLs c)"
      using loaded(4) by (auto simp: list_all_iff list_ex_iff)
    with loaded(1-3) show ?thesis
      unfolding loaded(5) by (auto simp: lookup_remember_all remember_all_fields)
  qed simp
  then show ?thesis unfolding c'_def .
qed

text \<open>
  C30: validators survive a restart only together with their config: what one process wrote, another reads
  back for every configured URL when it runs with the same config bytes (the same digest), and when the
  config on disk is another one it starts with no validators at all. The hypothesis on
  \<open>encoding/json\<close> is the round trip of the metadata written.
\<close>

theorem validators_survive_with_their_config:
  assumes "configCachePath c \<noteq> ''''" and "configHash c \<noteq> ''''" and "configHash c' \<noteq> ''''"
    and "json_Marshal \<lparr>cm_SHA256 = configHash c, cm_Validators = configValidators c\<rparr> = Inr data"
    and "json_Unmarshal data = Inr \<lparr>cm_SHA256 = configHash c, cm_Validators = configValidators c\<rparr>"
    and "length data \<le> push_bit 10 64"
    and "\<forall>url\<in>set (configURLs c). LastModified (lookup_validator (validator_map c) url) = '''' \<or>
      http_ParseTime (LastModified (lookup_validator (validator_map c) url))"
    and "configCachePath c' = configCachePath c" and "configURLs c' = configURLs c" and "configValidators c' = None"
  shows "lookup_validator (validator_map (loadConfigValidators http_ParseTime json_Unmarshal None c'
      (persistConfigValidators json_Marshal WriteOk c d))) url =
    (if configHash c' = configHash c \<and> url \<in> set (configURLs c) then lookup_validator (validator_map c) url
     else no_validator)"
proof -
  let ?d = "persistConfigValidators json_Marshal WriteOk c d"
  have content: "?d (configCachePath c' @ ''.http.json'') = Some data"
    using assms by (simp add: persistConfigValidators_def writeFile_def)
  have rd: "limited_ReadAll (Suc (push_bit 10 64)) (data, None) = Inr data"
    using assms(6) by (simp add: limited_ReadAll_def)
  have m: "(case configValidators c of None \<Rightarrow> [] | Some m \<Rightarrow> m) = validator_map c"
    by (simp add: validator_map_def)
  have none: "lookup_validator (validator_map c') url = no_validator"
    using assms(10) by (simp add: validator_map_def lookup_validator_def)
  have dates: "\<not> list_ex (\<lambda>url. LastModified (lookup_validator (validator_map c) url) \<noteq> '''' \<and>
      \<not> http_ParseTime (LastModified (lookup_validator (validator_map c) url))) (configURLs c')"
    using assms(7,9) by (auto simp: list_ex_iff)
  have load: "loadConfigValidators http_ParseTime json_Unmarshal None c' ?d =
      (if configHash c' = configHash c then fold (\<lambda>url c'. snd (rememberConfigValidator url
         (lookup_validator (validator_map c) url) c')) (configURLs c') c' else c')"
    unfolding loadConfigValidators_def using assms(1,3,5,6,8) content rd dates by (simp add: m)
  show ?thesis
    by (simp add: load lookup_remember_all none assms(9))
qed

definition sample_fetch_env :: fetch_env where
  "sample_fetch_env =
     \<lparr>fe_others = id, fe_arrivals = [0], fe_deadline = True, fe_pick = True, fe_waited = True, fe_others_wait = id,
      fe_draw = id, fe_out = WriteOk\<rparr>"

definition sample_fetch_client :: client where
  "sample_fetch_client = sample_client\<lparr>configURLs := [''https://config.example.com/c.gz''], configCachePath := ''c.gz'',
     configHash := ''h'', configValidators := Some [(''https://config.example.com/c.gz'', \<lparr>ETag = ''v1'', LastModified = ''''\<rparr>)]\<rparr>"

lemma sample_fetch_world:
  "\<forall>i::nat. quiet sample_fetch_env" "arrivals_ok (length (configURLs sample_fetch_client)) (\<lambda>_. sample_fetch_env)"
  "\<forall>i::nat. quiet sample_fetch_env \<and> fe_deadline sample_fetch_env"
  by (simp_all add: quiet_def sample_fetch_env_def arrivals_ok_def sample_fetch_client_def)

definition not_modified :: "string \<Rightarrow> fetch_request \<Rightarrow> goerr + fetch_response" where
  "not_modified url req = Inr \<lparr>fp_StatusCode = 304, fp_Header = [], fp_Body = ('''', None)\<rparr>"

lemma sample_fetch_from:
  "fetchConfigFrom sample_platform (\<lambda>_. False) (not_modified u) u \<lparr>ETag = ''v1'', LastModified = ''''\<rparr> =
     Some \<lparr>cr_url = u, cr_data = '''', cr_validator = \<lparr>ETag = ''v1'', LastModified = ''''\<rparr>, cr_unchanged = True\<rparr>"
  by (simp add: fetchConfigFrom_def sample_platform_def not_modified_def no_validator_def header_Get_def header_Values_def)

lemma sample_responses:
  "source_responses sample_platform (\<lambda>_. False) not_modified sample_fetch_client =
     [Some \<lparr>cr_url = ''https://config.example.com/c.gz'', cr_data = '''', cr_validator = \<lparr>ETag = ''v1'', LastModified = ''''\<rparr>,
       cr_unchanged = True\<rparr>]"
proof -
  have "configURLs sample_fetch_client = [''https://config.example.com/c.gz'']"
    "lookup_validator (validator_map sample_fetch_client) ''https://config.example.com/c.gz'' = \<lparr>ETag = ''v1'', LastModified = ''''\<rparr>"
    by (simp_all add: sample_fetch_client_def validator_map_def lookup_validator_def)
  then show ?thesis
    by (simp add: source_responses_def sample_fetch_from)
qed

lemma sample_fetch:
  "\<exists>s. fetchAndApplyConfig sample_platform (\<lambda>_. False) (\<lambda>_. Inr ''m'') not_modified (\<lambda>_. sample_fetch_env) WriteOk
     sample_fetch_client d = FEnd s \<and> fs_client s = sample_fetch_client"
proof -
  have 1: "length (configURLs sample_fetch_client) = Suc 0" "ctx_err sample_fetch_client = None"
    by (simp_all add: sample_fetch_client_def sample_client_def default_client_def)
  have 2: "rememberConfigValidator ''https://config.example.com/c.gz'' \<lparr>ETag = ''v1'', LastModified = ''''\<rparr> sample_fetch_client =
      (False, sample_fetch_client)"
    by (simp add: rememberConfigValidator_def sample_fetch_client_def validator_map_def lookup_validator_def)
  show ?thesis
    by (simp add: fetchAndApplyConfig_def 1 sample_responses collect_once_def sample_fetch_env_def
        receiveConfigResponse_def handle_response_def 2 finish_fetch_def Let_def)
qed

theorem fetch_applies_new_config_or_nothing_witness:
  "\<exists>s. fetchAndApplyConfig sample_platform (\<lambda>_. False) (\<lambda>_. Inr ''m'') not_modified (\<lambda>_. sample_fetch_env) WriteOk
     sample_fetch_client [''c.gz'' \<mapsto> ''x''] = FEnd s \<and> fs_disk s ''c.gz'' = Some ''x''"
proof -
  obtain s where s: "fetchAndApplyConfig sample_platform (\<lambda>_. False) (\<lambda>_. Inr ''m'') not_modified (\<lambda>_. sample_fetch_env) WriteOk
     sample_fetch_client [''c.gz'' \<mapsto> ''x''] = FEnd s" "fs_client s = sample_fetch_client"
    using sample_fetch by blast
  from fetch_applies_new_config_or_nothing [OF sample_fetch_world(1,2) s(1)] s show ?thesis
    by (simp add: sample_fetch_client_def)
qed

theorem unchanged_sources_rebuild_nothing_witness:
  "\<exists>s. fetchAndApplyConfig sample_platform (\<lambda>_. False) (\<lambda>_. Inr ''m'') not_modified (\<lambda>_. sample_fetch_env) WriteOk
     sample_fetch_client Map.empty = FEnd s \<and> providers (fs_client s) = providers sample_fetch_client"
proof -
  have r: "\<forall>r. Some r \<in> set (source_responses sample_platform (\<lambda>_. False) not_modified sample_fetch_client) \<longrightarrow>
      cr_unchanged r \<or> configDigest (cr_data r) = configHash sample_fetch_client"
    by (simp add: sample_responses)
  obtain s where s: "fetchAndApplyConfig sample_platform (\<lambda>_. False) (\<lambda>_. Inr ''m'') not_modified (\<lambda>_. sample_fetch_env) WriteOk
     sample_fetch_client Map.empty = FEnd s"
    using sample_fetch by blast
  from unchanged_sources_rebuild_nothing [OF sample_fetch_world(1,2) s r] s show ?thesis by blast
qed

theorem fetch_ends_by_deadline_witness:
  "\<nexists>s. fetchAndApplyConfig sample_platform (\<lambda>_. False) (\<lambda>_. Inr ''m'') not_modified (\<lambda>_. sample_fetch_env) WriteOk
     sample_fetch_client Map.empty = FBlocked s"
  using fetch_ends_by_deadline [OF sample_fetch_world(3,2)] by blast

theorem fetchConfigFrom_contract_witness:
  "\<exists>r. fetchConfigFrom sample_platform (\<lambda>_. False) (not_modified ''u'') ''u'' \<lparr>ETag = ''v1'', LastModified = ''''\<rparr> = Some r \<and>
     cr_unchanged r \<and> cr_url r = ''u''"
proof -
  obtain r where r: "fetchConfigFrom sample_platform (\<lambda>_. False) (not_modified ''u'') ''u'' \<lparr>ETag = ''v1'', LastModified = ''''\<rparr> = Some r"
    "cr_unchanged r"
    by (simp add: sample_fetch_from)
  from fetchConfigFrom_contract [OF r(1)] r show ?thesis by blast
qed

theorem validators_survive_with_their_config_witness:
  "lookup_validator (validator_map (loadConfigValidators (\<lambda>_. False)
      (\<lambda>_. Inr \<lparr>cm_SHA256 = ''h'', cm_Validators = configValidators sample_fetch_client\<rparr>) None
      (sample_fetch_client\<lparr>configValidators := None\<rparr>)
      (persistConfigValidators (\<lambda>_. Inr ''m'') WriteOk sample_fetch_client Map.empty))) ''https://config.example.com/c.gz''
    = \<lparr>ETag = ''v1'', LastModified = ''''\<rparr>"
proof -
  have "lookup_validator (validator_map sample_fetch_client) ''https://config.example.com/c.gz'' = \<lparr>ETag = ''v1'', LastModified = ''''\<rparr>"
    by (simp add: sample_fetch_client_def validator_map_def lookup_validator_def)
  moreover have "length ''m'' \<le> push_bit 10 64"
    by (simp add: push_bit_eq_mult)
  ultimately show ?thesis
    by (subst validators_survive_with_their_config [where c = sample_fetch_client and data = "''m''"])
      (simp_all add: sample_fetch_client_def)
qed

end
