(* ===== verification/Startup.thy ===== *)
theory Startup
  imports ConfigFetch
begin

text \<open>
  Start-up of a client (\<open>New\<close> in \<open>domainfront.go\<close>): the options, the choice between the persisted config
  and the seed, and the restoration of the front cache; and what survives from one process to the next.
  The three goroutines that \<open>New\<close> starts are the operations of \<open>Client\<close> and \<open>ConfigFetch\<close>.
\<close>

subsection \<open>New\<close>

record boot_env =
  b_ctx :: "goerr option"
  b_chrome :: hello_id
  b_disk :: disk
  b_open_err :: "goerr option"   \<comment> \<open>opening and reading the persisted config\<close>
  b_read_err :: "goerr option"
  b_meta_err :: "goerr option"   \<comment> \<open>reading the validator file\<close>
  b_cache_err :: "goerr option"  \<comment> \<open>reading the cache file\<close>
  b_draw :: "nat \<Rightarrow> nat"
  b_ties :: "nat \<Rightarrow> nat"
  b_draw_cands :: "nat \<Rightarrow> nat"
  b_now :: gotime

record boot_codecs =
  bc_ParseTime :: "string \<Rightarrow> bool"
  bc_metadata :: "string \<Rightarrow> goerr + configMetadata"
  bc_cached :: "string \<Rightarrow> goerr + cachedFront option list"

definition configured_client :: "boot_env \<Rightarrow> client_option list \<Rightarrow> client" where
  "configured_client b options =
     (let c = fold apply_option options (default_client (b_ctx b) (b_chrome b));
          c1 = (if crawlerConcurrency c < 1 then c\<lparr>crawlerConcurrency := 1\<rparr> else c)
      in c1\<lparr>c_pool := newFrontPool (readyQueueSize c1)\<rparr>)"

text \<open>The persisted config, when there is one: whether it was applied, and the client after the try.\<close>

definition boot_persisted :: "platform \<Rightarrow> boot_codecs \<Rightarrow> boot_env \<Rightarrow> client \<Rightarrow> (bool \<times> client) res" where
  "boot_persisted pf bc b c =
     (case readPersistedConfig pf (b_open_err b) (b_read_err b) c (b_disk b) of
        None \<Rightarrow> Inr (False, c)
      | Some (data, persisted) \<Rightarrow>
         (case applyConfig pf (b_draw b) persisted c of
            (Some Panicked, c1) \<Rightarrow> Inl Panicked
          | (Some (Returned e), c1) \<Rightarrow> Inr (False, c1)
          | (None, c1) \<Rightarrow> Inr (True, loadConfigValidators (bc_ParseTime bc) (bc_metadata bc) (b_meta_err b)
                        (c1\<lparr>configHash := configDigest data\<rparr>) (b_disk b))))"

definition boot_config :: "platform \<Rightarrow> boot_codecs \<Rightarrow> boot_env \<Rightarrow> config \<Rightarrow> client \<Rightarrow> client res" where
  "boot_config pf bc b seed c =
     (case boot_persisted pf bc b c of
        Inl e \<Rightarrow> Inl e
      | Inr (applied, c1) \<Rightarrow>
         (if \<not> applied then
            case applyConfig pf (b_draw b) seed c1 of
              (Some Panicked, c2) \<Rightarrow> Inl Panicked
            | (Some (Returned e), c2) \<Rightarrow> Inl (Returned (ErrWrap ''invalid config'' e))
            | (None, c2) \<Rightarrow> Inr c2
          else Inr c1))"

definition boot_cache :: "boot_codecs \<Rightarrow> boot_env \<Rightarrow> client \<Rightarrow> client res" where
  "boot_cache bc b c =
     (case cache_Load (bc_cached bc) (b_cache_err b) (c_cache c) (b_disk b) of
        Inl e \<Rightarrow> Inr c
      | Inr cached \<Rightarrow>
         (if length cached > 0 then
            (case applyCachedState (b_now b) (candidates (b_ties b) (b_draw_cands b) (c_pool c)) cached (maxCachedAge c)
                    (c_pool c) of
               Inl e \<Rightarrow> Inl e
             | Inr p \<Rightarrow> Inr (c\<lparr>c_pool := p\<rparr>))
          else Inr c))"

definition New :: "platform \<Rightarrow> boot_codecs \<Rightarrow> boot_env \<Rightarrow> config option \<Rightarrow> client_option list \<Rightarrow> client res" where
  "New pf bc b seed options =
     (case seed of
        None \<Rightarrow> Inl (Returned (ErrText ''config must not be nil''))
      | Some cfg \<Rightarrow>
         (case boot_config pf bc b cfg (configured_client b options) of
            Inl e \<Rightarrow> Inl e
          | Inr c \<Rightarrow> boot_cache bc b c))"

subsection \<open>Facts about start-up\<close>

lemma apply_option_gate: "c_gate (apply_option opt c) = c_gate c"
  by (cases opt) simp_all

lemma apply_options_gate: "c_gate (fold apply_option opts c) = c_gate c"
  by (induction opts arbitrary: c) (simp_all add: apply_option_gate)

lemma configured_client_wf: "client_wf (configured_client b options)"
  by (simp add: configured_client_def Let_def client_wf_def newFrontPool_wf newFrontPool_fields apply_options_gate
      newPauseGate_wf default_client_def)

lemma configured_client_concurrency: "1 \<le> crawlerConcurrency (configured_client b options)"
  by (simp add: configured_client_def Let_def)

lemma apply_options_hash: "configHash (fold apply_option opts c) = configHash c"
proof (induction opts arbitrary: c)
  case (Cons opt opts)
  have "configHash (apply_option opt c) = configHash c" by (cases opt) simp_all
  with Cons show ?case by simp
qed simp

lemma configured_client_gate: "c_gate (configured_client b options) = newPauseGate"
  by (simp add: configured_client_def Let_def apply_options_gate default_client_def)

lemma configured_client_hash: "configHash (configured_client b options) = ''''"
  by (simp add: configured_client_def Let_def apply_options_hash default_client_def)

text \<open>What applying a config leaves alone.\<close>

lemma applyConfig_keeps:
  assumes "applyConfig pf draw cfg c = (None, c')"
  shows "crawlerConcurrency c' = crawlerConcurrency c" "c_cache c' = c_cache c" "maxCachedAge c' = maxCachedAge c"
    "c_gate c' = c_gate c" "certPoolValue c' \<noteq> None" "providers c' \<noteq> []"
    "map fst (providers c') = map fst (provider_map cfg)"
proof -
  from assms obtain certs es fs p1 where ne: "provider_map cfg \<noteq> []" and
    es: "expand_all pf (countryCode c) (provider_map cfg) = Inr es" and
    c': "c' = c\<lparr>providers := es, certPoolValue := Some certs, c_pool := Replace (rand_Shuffle draw fs) p1\<rparr>"
    by (rule applyConfig_ok)
  show "crawlerConcurrency c' = crawlerConcurrency c" "c_cache c' = c_cache c" "maxCachedAge c' = maxCachedAge c"
    "c_gate c' = c_gate c" "certPoolValue c' \<noteq> None"
    by (simp_all add: c')
  show k: "map fst (providers c') = map fst (provider_map cfg)"
    using expand_all_keys [OF es] by (simp add: c')
  show "providers c' \<noteq> []"
    using k ne by auto
qed

lemma loadConfigValidators_keeps:
  "c_pool (loadConfigValidators pt js e c d) = c_pool c \<and> c_gate (loadConfigValidators pt js e c d) = c_gate c \<and>
   providers (loadConfigValidators pt js e c d) = providers c \<and>
   certPoolValue (loadConfigValidators pt js e c d) = certPoolValue c \<and>
   crawlerConcurrency (loadConfigValidators pt js e c d) = crawlerConcurrency c \<and>
   c_cache (loadConfigValidators pt js e c d) = c_cache c \<and> maxCachedAge (loadConfigValidators pt js e c d) = maxCachedAge c \<and>
   configHash (loadConfigValidators pt js e c d) = configHash c"
proof -
  have "c_pool (fold (\<lambda>url c. snd (rememberConfigValidator url (f url) c)) urls c) = c_pool c \<and>
      c_gate (fold (\<lambda>url c. snd (rememberConfigValidator url (f url) c)) urls c) = c_gate c \<and>
      providers (fold (\<lambda>url c. snd (rememberConfigValidator url (f url) c)) urls c) = providers c \<and>
      certPoolValue (fold (\<lambda>url c. snd (rememberConfigValidator url (f url) c)) urls c) = certPoolValue c \<and>
      crawlerConcurrency (fold (\<lambda>url c. snd (rememberConfigValidator url (f url) c)) urls c) = crawlerConcurrency c \<and>
      c_cache (fold (\<lambda>url c. snd (rememberConfigValidator url (f url) c)) urls c) = c_cache c \<and>
      maxCachedAge (fold (\<lambda>url c. snd (rememberConfigValidator url (f url) c)) urls c) = maxCachedAge c \<and>
      configHash (fold (\<lambda>url c. snd (rememberConfigValidator url (f url) c)) urls c) = configHash c" for f urls
    by (induction urls arbitrary: c) (auto simp: rememberConfigValidator_def)
  then show ?thesis
    unfolding loadConfigValidators_def Let_def by (auto split: option.split sum.split)
qed

lemma client_Close_disk:
  "snd (client_Close json_Marshal out ties draw c d) =
     snd (cache_Save json_Marshal out (c_cache c)
       (frontsToCache (candidates ties draw (c_pool c)) (maxCacheSize c) (c_pool c)) d)"
proof -
  have "frontsToCache_from n (pool_Close p) fs cached = frontsToCache_from n p fs cached" for n p fs cached
    by (simp add: frontsToCache_from_eq pool_Close_def isSucceeding_def cache_entry_def lastSucceededTime_def)
  moreover have "candidates ties draw (pool_Close p) = candidates ties draw p" for p
    by (simp add: candidates_def item_ts_def pool_Close_def lastSucceededTime_def)
  ultimately show ?thesis
    by (simp add: client_Close_def saveCache_def on_pool_def frontsToCache_def Let_def)
qed

text \<open>A client whose config was applied: from the persisted config or from the seed.\<close>

lemma boot_config_Inr:
  assumes "boot_config pf bc b seed c = Inr c'"
  obtains (persisted) data cfg c1 where
      "readPersistedConfig pf (b_open_err b) (b_read_err b) c (b_disk b) = Some (data, cfg)"
      "applyConfig pf (b_draw b) cfg c = (None, c1)"
      "c' = loadConfigValidators (bc_ParseTime bc) (bc_metadata bc) (b_meta_err b)
              (c1\<lparr>configHash := configDigest data\<rparr>) (b_disk b)"
  | (seed) "applyConfig pf (b_draw b) seed c = (None, c')"
      "case readPersistedConfig pf (b_open_err b) (b_read_err b) c (b_disk b) of
         None \<Rightarrow> True | Some (data, cfg) \<Rightarrow> \<exists>e. applyConfig pf (b_draw b) cfg c = (Some (Returned e), c)"
  using assms
  by (auto simp: boot_config_def boot_persisted_def dest: applyConfig_fault
      split: sum.splits fault.splits option.splits prod.splits if_splits)

lemma boot_config_facts:
  assumes "boot_config pf bc b seed c = Inr c'" "client_wf c"
  shows "client_wf c'" "crawlerConcurrency c' = crawlerConcurrency c" "c_cache c' = c_cache c"
    "maxCachedAge c' = maxCachedAge c" "certPoolValue c' \<noteq> None" "providers c' \<noteq> []"
proof -
  have "client_wf c' \<and> crawlerConcurrency c' = crawlerConcurrency c \<and> c_cache c' = c_cache c \<and>
    maxCachedAge c' = maxCachedAge c \<and> certPoolValue c' \<noteq> None \<and> providers c' \<noteq> []"
    using assms(1)
  proof (cases rule: boot_config_Inr)
    case (persisted data cfg c1)
    note k = applyConfig_keeps [OF persisted(2)] and wf = applyConfig_wf [OF persisted(2) assms(2)]
    have "client_wf c'"
      using wf loadConfigValidators_keeps [where c = "c1\<lparr>configHash := configDigest data\<rparr>"]
      by (simp add: persisted(3) client_wf_def)
    then show ?thesis
      using k loadConfigValidators_keeps [where c = "c1\<lparr>configHash := configDigest data\<rparr>"]
      by (simp add: persisted(3))
  next
    case seed
    with applyConfig_keeps [OF seed(1)] applyConfig_wf [OF seed(1) assms(2)] show ?thesis by simp
  qed
  then show "client_wf c'" "crawlerConcurrency c' = crawlerConcurrency c" "c_cache c' = c_cache c"
    "maxCachedAge c' = maxCachedAge c" "certPoolValue c' \<noteq> None" "providers c' \<noteq> []" by auto
qed

lemma boot_config_pool:
  assumes "boot_config pf bc b seed c = Inr c'" "client_wf c"
  shows "c_gate c' = c_gate c \<and> ready (c_pool c') = [] \<and>
    image_mset (ident (c_pool c')) (mset (fronts (c_pool c'))) = mset (masquerades_of (providers c'))"
  using assms(1)
proof (cases rule: boot_config_Inr)
  case (persisted data cfg c1)
  with applyConfig_keeps(4) [OF persisted(2)] applyConfig_pool(1,2) [OF persisted(2) assms(2)]
    loadConfigValidators_keeps [where c = "c1\<lparr>configHash := configDigest data\<rparr>"] show ?thesis
    by simp
next
  case seed
  with applyConfig_keeps(4) [OF seed(1)] applyConfig_pool(1,2) [OF seed(1) assms(2)] show ?thesis
    by simp
qed

lemma boot_cache_facts:
  assumes "boot_cache bc b c = Inr c'" "client_wf c"
  shows "client_wf c'" "\<exists>p. c' = c\<lparr>c_pool := p\<rparr> \<and> fronts p = fronts (c_pool c) \<and> ident p = ident (c_pool c) \<and>
    ready p = ready (c_pool c)"
proof -
  have "client_wf c' \<and> (\<exists>p. c' = c\<lparr>c_pool := p\<rparr> \<and> fronts p = fronts (c_pool c) \<and> ident p = ident (c_pool c) \<and>
    ready p = ready (c_pool c))"
  proof (cases "c' = c")
    case True
    then show ?thesis using assms(2) by (auto intro!: exI [of _ "c_pool c"])
  next
    case False
    with assms(1) obtain cached p where
      p: "applyCachedState (b_now b) (candidates (b_ties b) (b_draw_cands b) (c_pool c)) cached (maxCachedAge c) (c_pool c) = Inr p"
      "c' = c\<lparr>c_pool := p\<rparr>"
      by (auto simp: boot_cache_def split: sum.splits if_splits)
    with assms(2) applyCachedState_Inr [OF p(1)] applyCachedState_ok [OF p(1)] show ?thesis
      by (auto simp: client_wf_def pool_wf_def)
  qed
  then show "client_wf c'" "\<exists>p. c' = c\<lparr>c_pool := p\<rparr> \<and> fronts p = fronts (c_pool c) \<and> ident p = ident (c_pool c) \<and>
    ready p = ready (c_pool c)" by auto
qed

lemma boot_cache_refs: "boot_cache bc b c = Inr c' \<Longrightarrow> next_ref (c_pool c') = next_ref (c_pool c)"
  by (auto simp: boot_cache_def applyCachedState_Inr split: sum.splits if_splits)

text \<open>The pool after start-up is the one that some config made, but for the times in the cache.\<close>

lemma boot_config_applied:
  assumes "boot_config pf bc b seed c = Inr c'"
  obtains cfg c1 where "applyConfig pf (b_draw b) cfg c = (None, c1)" "c_pool c' = c_pool c1"
  using assms
proof (cases rule: boot_config_Inr)
  case (persisted data cfg c1)
  then show ?thesis
    using loadConfigValidators_keeps [where c = "c1\<lparr>configHash := configDigest data\<rparr>"] by (intro that) simp_all
next
  case seed
  then show ?thesis by (intro that) simp_all
qed

subsection \<open>Facts about a restart\<close>

text \<open>Whether a config applies does not depend on the client.\<close>

lemma applyConfig_again:
  assumes "applyConfig pf draw cfg c1 = (None, c2)"
  obtains c4 where "applyConfig pf draw' cfg other = (None, c4)" "countryCode other = countryCode c1 \<Longrightarrow> providers c4 = providers c2"
proof -
  from assms obtain certs es where h: "provider_map cfg \<noteq> []" "CertPool (pem_ok pf) cfg = Inr certs"
    "expand_all pf (countryCode c1) (provider_map cfg) = Inr es" "providers c2 = es"
    by (rule applyConfig_ok) simp
  obtain es' where es': "expand_all pf (countryCode other) (provider_map cfg) = Inr es'"
    using expand_all_cases [of "provider_map cfg" pf "countryCode c1"]
      expand_all_cases [of "provider_map cfg" pf "countryCode other"] h(3) by (auto split: if_splits)
  obtain c4 where "applyConfig pf draw' cfg other = (None, c4)" "providers c4 = es'"
    using h(1,2) es' by (cases "new_fronts (masquerades_of es') (c_pool other)") (simp add: applyConfig_def Let_def)
  then show thesis
    using h(3,4) es' by (intro that [of c4]) simp_all
qed

lemma readPersistedConfig_Some:
  "configCachePath c \<noteq> '''' \<Longrightarrow> d (configCachePath c) = Some data \<Longrightarrow> length data \<le> maxConfigSize \<Longrightarrow>
     ParseConfig (codecs_of pf) data = Inr cfg \<Longrightarrow> readPersistedConfig pf None None c d = Some (data, cfg)"
  by (simp add: readPersistedConfig_def limited_ReadAll_def)

lemma New_Inr:
  assumes "New pf bc b seed options = Inr c"
  obtains cfg c1 where "seed = Some cfg" "boot_config pf bc b cfg (configured_client b options) = Inr c1"
    "boot_cache bc b c1 = Inr c"
  using assms by (auto simp: New_def split: option.splits sum.splits)

lemma New_persisted:
  assumes "New pf bc b (Some seed) options = Inr c"
    and "readPersistedConfig pf (b_open_err b) (b_read_err b) (configured_client b options) (b_disk b) = Some (data, cfg)"
    and "applyConfig pf (b_draw b) cfg (configured_client b options) = (None, c1)"
  shows "configHash c = configDigest data" "providers c = providers c1"
proof -
  from assms(1) have "configHash c = configDigest data \<and> providers c = providers c1"
  proof (rule New_Inr)
    fix s c2
    assume b: "boot_config pf bc b s (configured_client b options) = Inr c2" "boot_cache bc b c2 = Inr c"
    have "providers c = providers c2 \<and> configHash c = configHash c2"
      using boot_cache_facts(2) [OF b(2) boot_config_facts(1) [OF b(1) configured_client_wf]] by auto
    with b(1) loadConfigValidators_keeps [where c = "c1\<lparr>configHash := configDigest data\<rparr>"] show ?thesis
      using assms(2,3) by (auto simp: boot_config_def boot_persisted_def)
  qed
  then show "configHash c = configDigest data" "providers c = providers c1" by simp_all
qed

text \<open>The cache file of a client that was closed, read by the next one.\<close>

lemma boot_cache_restores:
  assumes "boot_cache bc b c1 = Inr c'"
    and "c_cache c1 = FileCache path" and "b_cache_err b = None" and "b_disk b path = Some text" and "text \<noteq> ''''"
    and "bc_cached bc text = Inr (map Some (map (cache_entry p) ss))" and "distinct (map (\<lambda>f. key (mem p f)) ss)"
    and "g \<in> set ss" and "f \<in> set (fronts (c_pool c1))" and "key (mem (c_pool c1) f) = key (mem p g)"
    and "time_Sub (b_now b) (LastSucceeded (mem p g)) < maxCachedAge c1"
  shows "LastSucceeded (mem (c_pool c') f) = LastSucceeded (mem p g)"
proof -
  let ?cs = "map Some (map (cache_entry p) ss)"
  have load: "cache_Load (bc_cached bc) (b_cache_err b) (c_cache c1) (b_disk b) = Inr ?cs"
    using assms(2-6) by (simp add: cache_Load_def FileCache_Load_def readFile_def)
  from assms(8) have "length ?cs > 0" by auto
  with assms(1) load obtain q where q:
    "applyCachedState (b_now b) (candidates (b_ties b) (b_draw_cands b) (c_pool c1)) ?cs (maxCachedAge c1) (c_pool c1) = Inr q"
    "c' = c1\<lparr>c_pool := q\<rparr>"
    unfolding boot_cache_def by (auto split: sum.splits if_splits)
  have "f \<in> set (candidates (b_ties b) (b_draw_cands b) (c_pool c1))"
    using assms(9) mset_candidates by (metis mset_eq_setD)
  with applyCachedState_Inr(8) [OF q(1), of f, unfolded map_the_Some] cached_for_distinct [OF assms(7,8)] assms(10,11)
  show ?thesis
    by (simp add: q(2) restored_def cache_entry_time)
qed

lemma New_client:
  assumes "New pf bc b seed options = Inr c"
  shows "client_wf c \<and> \<not> isPaused (c_gate c) \<and> 1 \<le> crawlerConcurrency c \<and> providers c \<noteq> [] \<and>
    certPoolValue c \<noteq> None \<and> ready (c_pool c) = [] \<and>
    image_mset (ident (c_pool c)) (mset (fronts (c_pool c))) = mset (masquerades_of (providers c))"
  using assms
proof (rule New_Inr)
  fix cfg c1
  assume b1: "boot_config pf bc b cfg (configured_client b options) = Inr c1" and b2: "boot_cache bc b c1 = Inr c"
  note f1 = boot_config_facts [OF b1 configured_client_wf] and p1 = boot_config_pool [OF b1 configured_client_wf]
  from boot_cache_facts [OF b2 f1(1)] f1 p1 configured_client_concurrency [of b options] show ?thesis
    by (auto simp: configured_client_gate newPauseGate_wf)
qed

lemma New_concurrency:
  assumes "New pf bc b seed options = Inr c"
  shows "crawlerConcurrency c = max 1 (crawlerConcurrency (fold apply_option options (default_client (b_ctx b) (b_chrome b))))"
  using assms
proof (rule New_Inr)
  fix cfg c1
  assume b1: "boot_config pf bc b cfg (configured_client b options) = Inr c1" and b2: "boot_cache bc b c1 = Inr c"
  note f1 = boot_config_facts [OF b1 configured_client_wf]
  from boot_cache_facts(2) [OF b2 f1(1)] f1(2) have "crawlerConcurrency c = crawlerConcurrency (configured_client b options)"
    by auto
  then show ?thesis
    by (simp add: configured_client_def Let_def)
qed

subsection \<open>Properties\<close>

text \<open>
  C33: a client that \<open>New\<close> returns is ready to run: its pool and its gate satisfy their invariants, the gate
  is not paused, the crawler has a slot, there is a provider, the config's roots are installed (so the
  system's roots are not used), and the fronts are one for each masquerade of the providers, none of
  them in the ready queue.
\<close>

theorem New_establishes_client:
  assumes "New pf bc b seed options = Inr c"
  shows "client_wf c \<and> \<not> isPaused (c_gate c) \<and> 1 \<le> crawlerConcurrency c \<and> providers c \<noteq> [] \<and>
    certPoolValue c \<noteq> None \<and> ready (c_pool c) = [] \<and>
    image_mset (ident (c_pool c)) (mset (fronts (c_pool c))) = mset (masquerades_of (providers c))"
  using assms by (rule New_client)

text \<open>
  A config persisted by an earlier fetch is preferred to the seed: when there is one and it applies,
  the client has its providers and its digest, whatever the seed; otherwise the client has the seed's
  providers and no digest, so that the first fetch cannot take a source for unchanged.
\<close>

theorem New_prefers_persisted_config:
  assumes "New pf bc b (Some seed) options = Inr c"
  shows "case readPersistedConfig pf (b_open_err b) (b_read_err b) (configured_client b options) (b_disk b) of
      Some (data, cfg) \<Rightarrow>
        (case applyConfig pf (b_draw b) cfg (configured_client b options) of
           (None, c1) \<Rightarrow> configHash c = configDigest data \<and> providers c = providers c1
         | (Some e, c1) \<Rightarrow> configHash c = '''' \<and> map fst (providers c) = map fst (provider_map seed))
    | None \<Rightarrow> configHash c = '''' \<and> map fst (providers c) = map fst (provider_map seed)"
  using assms
proof (rule New_Inr)
  fix s c1
  assume s: "Some seed = Some s" "boot_config pf bc b s (configured_client b options) = Inr c1"
    and b2: "boot_cache bc b c1 = Inr c"
  have c: "providers c = providers c1" "configHash c = configHash c1"
    using boot_cache_facts(2) [OF b2 boot_config_facts(1) [OF s(2) configured_client_wf]] by auto
  from s(2) show ?thesis
  proof (cases rule: boot_config_Inr)
    case (persisted data cfg c2)
    with loadConfigValidators_keeps [where c = "c2\<lparr>configHash := configDigest data\<rparr>"] show ?thesis
      by (simp add: c)
  next
    case seed
    have "configHash c1 = ''''"
      using applyConfig_config_fields(3) [OF seed(1)] by (simp add: configured_client_hash)
    with seed applyConfig_keeps(7) [OF seed(1)] s(1) show ?thesis
      by (auto simp: c split: option.splits)
  qed
qed

text \<open>
  C32: how \<open>New\<close> fails. It returns an error only when no config was given, or when the seed cannot be
  applied and there is no persisted config or it is refused too: no file on disk that is missing, cannot
  be read or parsed, or holds a config that is refused makes it return one. It panics only when the seed
  or the persisted config holds a null where a provider, a masquerade or a CA belongs, or the loaded
  cache holds a null entry; and when the loaded cache holds a null entry, \<open>New\<close> returns no client, although a
  cache that cannot be loaded does not stop it.
\<close>

theorem New_fails_only_on_bad_seed:
  "(case New pf bc b seed options of
      Inr c \<Rightarrow> seed \<noteq> None
    | Inl (Returned e) \<Rightarrow>
        seed = None \<and> e = ErrText ''config must not be nil'' \<or>
        (\<exists>cfg e'. seed = Some cfg \<and> e = ErrWrap ''invalid config'' e' \<and>
           applyConfig pf (b_draw b) cfg (configured_client b options) = (Some (Returned e'), configured_client b options) \<and>
           (case readPersistedConfig pf (b_open_err b) (b_read_err b) (configured_client b options) (b_disk b) of
              None \<Rightarrow> True
            | Some (data, persisted) \<Rightarrow>
                \<exists>e''. fst (applyConfig pf (b_draw b) persisted (configured_client b options)) = Some (Returned e'')))
    | Inl Panicked \<Rightarrow>
        (\<exists>cfg. seed = Some cfg \<and> holds_null cfg) \<or>
        (\<exists>data persisted. readPersistedConfig pf (b_open_err b) (b_read_err b) (configured_client b options) (b_disk b) =
           Some (data, persisted) \<and> holds_null persisted) \<or>
        (\<exists>cached. cache_Load (bc_cached bc) (b_cache_err b) (c_cache (configured_client b options)) (b_disk b) = Inr cached \<and>
           None \<in> set cached)) \<and>
   (cache_Load (bc_cached bc) (b_cache_err b) (c_cache (configured_client b options)) (b_disk b) = Inr cached \<longrightarrow>
      None \<in> set cached \<longrightarrow> (\<forall>c. New pf bc b seed options \<noteq> Inr c))"
proof (cases seed)
  case None
  then show ?thesis by (simp add: New_def)
next
  case (Some cfg)
  let ?c0 = "configured_client b options"
  note facts = boot_config_facts(3) [OF _ configured_client_wf]
  have cache: "case cache_Load (bc_cached bc) (b_cache_err b) (c_cache ?c0) (b_disk b) of
      Inl e \<Rightarrow> boot_cache bc b c1 = Inr c1
    | Inr cached \<Rightarrow> if None \<in> set cached then boot_cache bc b c1 = Inl Panicked else \<exists>c2. boot_cache bc b c1 = Inr c2"
    if "boot_config pf bc b cfg ?c0 = Inr c1" for c1
    using facts [OF that] by (auto simp: boot_cache_def applyCachedState_eq split: sum.splits)
  have config: "case boot_config pf bc b cfg ?c0 of
      Inr c1 \<Rightarrow> True
    | Inl (Returned e) \<Rightarrow> \<exists>e'. e = ErrWrap ''invalid config'' e' \<and>
        applyConfig pf (b_draw b) cfg ?c0 = (Some (Returned e'), ?c0) \<and>
        (case readPersistedConfig pf (b_open_err b) (b_read_err b) ?c0 (b_disk b) of
           None \<Rightarrow> True
         | Some (data, persisted) \<Rightarrow> \<exists>e''. fst (applyConfig pf (b_draw b) persisted ?c0) = Some (Returned e''))
    | Inl Panicked \<Rightarrow> holds_null cfg \<or> (\<exists>data persisted.
        readPersistedConfig pf (b_open_err b) (b_read_err b) ?c0 (b_disk b) = Some (data, persisted) \<and> holds_null persisted)"
    by (auto simp: boot_config_def boot_persisted_def dest: applyConfig_fault applyConfig_panics
        split: sum.splits fault.splits option.splits prod.splits if_splits)
  show ?thesis
  proof (cases "boot_config pf bc b cfg ?c0")
    case (Inl e)
    with config Some show ?thesis
      by (cases e) (auto simp: New_def)
  next
    case (Inr c1)
    note b = cache [OF Inr]
    have "New pf bc b seed options = boot_cache bc b c1"
      by (simp add: New_def Some Inr)
    with b Some show ?thesis
      by (auto split: sum.splits fault.splits if_splits)
  qed
qed

text \<open>
  C6: a restart boots from the config that was fetched last: when a refresh replaced the config of one
  process and the file was written, the next process, whatever its seed, starts with that config's
  providers and digest; with the same country code the expanded providers are the same too.
\<close>

theorem restart_boots_fetched_config:
  assumes "\<forall>i. quiet (world i) \<and> fe_out (world i) = WriteOk" and "arrivals_ok (length (configURLs c)) world"
    and "fetchAndApplyConfig pf pt json_Marshal http_Do world out c d = FEnd s"
    and "configHash (fs_client s) \<noteq> configHash c" and "configCachePath c \<noteq> ''''"
    and "configCachePath (configured_client b options) = configCachePath c"
    and "b_disk b = fs_disk s" and "b_open_err b = None" and "b_read_err b = None"
    and "New pf bc b (Some seed) options = Inr c'"
  shows "configHash c' = configHash (fs_client s) \<and>
    map fst (providers c') = map fst (providers (fs_client s)) \<and>
    (countryCode (configured_client b options) = countryCode c \<longrightarrow> providers c' = providers (fs_client s))"
proof -
  from assms(1) have "\<forall>i. quiet (world i)" "\<forall>i. fe_out (world i) \<in> {WriteOk}" by simp_all
  then obtain s' where n: "applied_config pf (source_responses pf pt http_Do c) {WriteOk} c d s'"
    "s = finish_fetch json_Marshal out s'"
    using assms(2,3)
  proof (cases rule: fetch_result)
    case same
    with assms(4) show thesis by (simp add: config_view_def)
  qed
  from n(1) obtain r cfg c1 draw c2 where r: "Some r \<in> set (source_responses pf pt http_Do c)" "\<not> cr_unchanged r"
    "ParseConfig (codecs_of pf) (cr_data r) = Inr cfg" "config_view c1 = config_view c"
    "applyConfig pf draw cfg c1 = (None, c2)" "providers (fs_client s') = providers c2"
    "configHash (fs_client s') = configDigest (cr_data r)" "configCachePath (fs_client s') = configCachePath c"
    "fs_disk s' = persistConfig WriteOk (cr_data r) (fs_client s') d"
    by (rule applied_config_client) blast
  have disk: "b_disk b (configCachePath c) = Some (cr_data r)"
    using finish_fetch_fields(2) [of json_Marshal out s'] r(8,9) assms(5,7) by (simp add: n(2) persistConfig_disk)
  have rd: "readPersistedConfig pf (b_open_err b) (b_read_err b) (configured_client b options) (b_disk b) =
      Some (cr_data r, cfg)"
    unfolding assms(8,9) by (rule readPersistedConfig_Some) (use disk assms(5,6) r source_responses_data [OF r(1,2)] in simp_all)
  obtain c4 where c4: "applyConfig pf (b_draw b) cfg (configured_client b options) = (None, c4)"
    "countryCode (configured_client b options) = countryCode c1 \<Longrightarrow> providers c4 = providers c2"
    by (rule applyConfig_again [OF r(5), where draw' = "b_draw b" and other = "configured_client b options"]) blast
  have "configHash c' = configDigest (cr_data r)" "providers c' = providers c4"
    using New_persisted [OF assms(10) rd c4(1)] by simp_all
  moreover have "countryCode c1 = countryCode c"
    using r(4) by (simp add: config_view_def)
  ultimately show ?thesis
    using c4(2) applyConfig_keeps(7) [OF c4(1)] applyConfig_keeps(7) [OF r(5)]
    by (simp add: n(2) finish_fetch_fields r(6,7))
qed

text \<open>
  C31: what was learned about the fronts survives a restart: when one process closes, with its cache in a
  file that can be written, and the next one starts on the same file, every front of the new process
  with the provider, domain and address of a front that had worked starts with that front's time of
  success, if that is recent enough. The fronts have distinct keys and fit the cache; the hypotheses on
  \<open>encoding/json\<close> are the round trip of the entries written.
\<close>

theorem restart_keeps_success_times:
  assumes "client_Close json_Marshal WriteOk ties draw c d = (closed, d')"
    and "c_cache c = FileCache path" and "distinct (map (\<lambda>f. key (mem (c_pool c) f)) (fronts (c_pool c)))"
    and "length (fronts (c_pool c)) \<le> maxCacheSize c"
    and "json_Marshal (frontsToCache (candidates ties draw (c_pool c)) (maxCacheSize c) (c_pool c)) = Inr text" and "text \<noteq> ''''"
    and "bc_cached bc text = Inr (map Some (frontsToCache (candidates ties draw (c_pool c)) (maxCacheSize c) (c_pool c)))"
    and "New pf bc b (Some seed) options = Inr c'" and "c_cache (configured_client b options) = FileCache path"
    and "b_disk b = d'" and "b_cache_err b = None"
    and "g \<in> set (fronts (c_pool c))" and "isSucceeding g (c_pool c)"
    and "f \<in> set (fronts (c_pool c'))" and "key (mem (c_pool c') f) = key (mem (c_pool c) g)"
    and "time_Sub (b_now b) (LastSucceeded (mem (c_pool c) g)) < maxCachedAge c'"
  shows "LastSucceeded (mem (c_pool c') f) = LastSucceeded (mem (c_pool c) g)"
proof -
  define ss where "ss = filter (\<lambda>f. isSucceeding f (c_pool c)) (candidates ties draw (c_pool c))"
  have m: "mset (candidates ties draw (c_pool c)) = mset (fronts (c_pool c))"
    by (rule mset_candidates)
  have "length (candidates ties draw (c_pool c)) \<le> maxCacheSize c"
    using assms(4) mset_eq_length [OF m] by simp
  then have ss: "frontsToCache (candidates ties draw (c_pool c)) (maxCacheSize c) (c_pool c) = map (cache_entry (c_pool c)) ss"
    by (simp add: frontsToCache_eq ss_def order_trans [OF length_filter_le])
  have d': "d' path = Some text"
    using client_Close_disk [of json_Marshal WriteOk ties draw c d] assms(1,2,5)
    by (simp add: cache_Save_def FileCache_Save_def writeFile_def)
  have "distinct (map (\<lambda>f. key (mem (c_pool c) f)) (candidates ties draw (c_pool c)))"
    using assms(3) m by (metis mset_eq_imp_distinct_iff mset_map)
  then have ds: "distinct (map (\<lambda>f. key (mem (c_pool c) f)) ss)"
    by (simp add: ss_def distinct_map_filter)
  have g: "g \<in> set ss"
    using assms(12,13) mset_eq_setD [OF m] by (simp add: ss_def)
  from assms(8) obtain c1 where b1: "boot_config pf bc b seed (configured_client b options) = Inr c1"
    and b2: "boot_cache bc b c1 = Inr c'"
    by (rule New_Inr) simp
  note f1 = boot_config_facts [OF b1 configured_client_wf] and f2 = boot_cache_facts [OF b2 boot_config_facts(1) [OF b1 configured_client_wf]]
  from f2(2) have c': "maxCachedAge c' = maxCachedAge c1" "fronts (c_pool c') = fronts (c_pool c1)"
    "ident (c_pool c') = ident (c_pool c1)" by auto
  have k: "key (mem (c_pool c1) f) = key (mem (c_pool c) g)"
    using assms(15) ident_key [of "c_pool c'" f "c_pool c1" f] c'(3) by simp
  show ?thesis
    by (rule boot_cache_restores [OF b2 _ assms(11) _ assms(6) _ ds g _ k])
      (use assms(7,9,10,14,16) f1(3) c' d' ss in simp_all)
qed

subsection \<open>Examples\<close>

definition sample_boot :: boot_env where
  "sample_boot =
     \<lparr>b_ctx = None, b_chrome = \<lparr>hello_Client = ''Chrome'', hello_Version = ''131''\<rparr>, b_disk = Map.empty,
      b_open_err = None, b_read_err = None, b_meta_err = None, b_cache_err = None, b_draw = id, b_ties = id,
      b_draw_cands = id, b_now = unix_epoch + 10\<rparr>"

definition sample_boot_codecs :: "cachedFront list \<Rightarrow> boot_codecs" where
  "sample_boot_codecs cs =
     \<lparr>bc_ParseTime = (\<lambda>_. False), bc_metadata = (\<lambda>_. Inl (ErrText ''no metadata'')), bc_cached = (\<lambda>_. Inr (map Some cs))\<rparr>"

lemma sample_configured:
  "configured_client (sample_boot\<lparr>b_disk := d\<rparr>) [] = sample_client"
  "configured_client (sample_boot\<lparr>b_disk := d\<rparr>) [WithCacheFile path] = sample_client\<lparr>c_cache := FileCache path\<rparr>"
  "configured_client (sample_boot\<lparr>b_disk := d\<rparr>) [WithConfigCacheFile path] = sample_client\<lparr>configCachePath := path\<rparr>"
  by (simp_all add: configured_client_def sample_boot_def sample_client_def default_client_def Let_def)

lemma sample_boot_disk: "sample_boot\<lparr>b_disk := Map.empty\<rparr> = sample_boot"
  by (simp add: sample_boot_def)

text \<open>The pool of a client that applied the sample config: one front, at address 0.\<close>

definition sample_front_pool :: pool where
  "sample_front_pool = Replace [0] (snd (alloc_front sample_edge ''cloudfront'' (newFrontPool 0)))"

lemma sample_front_pool_fields:
  "fronts sample_front_pool = [0]" "ready sample_front_pool = []" "next_ref sample_front_pool = 1"
  by (simp_all add: sample_front_pool_def Replace_fields alloc_front_def newFrontPool_fields)

lemma sample_apply_to:
  "c_pool c = newFrontPool 0 \<Longrightarrow> countryCode c = '''' \<Longrightarrow>
     \<exists>c'. applyConfig sample_platform id sample_config c = (None, c') \<and> c_pool c' = sample_front_pool"
  using sample_apply unfolding sample_front_pool_def
  by (auto simp: applyConfig_def sample_client_def default_client_def Let_def split: if_splits sum.splits fault.splits prod.splits)

lemma sample_New:
  "\<exists>c. New sample_platform (sample_boot_codecs cs) sample_boot (Some sample_config) [] = Inr c \<and>
     c_pool c = sample_front_pool \<and> providers c = [(''cloudfront'', sample_expanded)] \<and> ctx_err c = None \<and>
     maxRetries c = 6 \<and> c_gate c = newPauseGate \<and> crawlerConcurrency c = 10"
proof -
  have "readPersistedConfig sample_platform e1 e2 sample_client d = None" for e1 e2 d
    by (simp add: readPersistedConfig_def sample_client_def default_client_def)
  moreover have "b_draw sample_boot = id" "configured_client sample_boot [] = sample_client"
    using sample_configured(1) [of Map.empty] by (simp_all add: sample_boot_disk) (simp add: sample_boot_def)
  moreover have "boot_cache bc b c = Inr c" if "c_cache c = NopCache" for bc b c
    using that by (simp add: boot_cache_def cache_Load_def)
  ultimately show ?thesis
    by (simp add: New_def boot_config_def boot_persisted_def sample_apply sample_front_pool_def)
      (simp add: sample_client_def default_client_def)
qed

theorem New_establishes_client_witness:
  "\<exists>c. New sample_platform (sample_boot_codecs []) sample_boot (Some sample_config) [] = Inr c \<and> client_wf c \<and>
     \<not> isPaused (c_gate c)"
proof -
  obtain c where c: "New sample_platform (sample_boot_codecs []) sample_boot (Some sample_config) [] = Inr c"
    using sample_New by blast
  from New_establishes_client [OF c] c show ?thesis by blast
qed

theorem New_prefers_persisted_config_witness:
  "\<exists>c. New sample_platform (sample_boot_codecs []) sample_boot (Some sample_config) [] = Inr c \<and> configHash c = ''''"
proof -
  obtain c where c: "New sample_platform (sample_boot_codecs []) sample_boot (Some sample_config) [] = Inr c"
    using sample_New by blast
  have "configured_client sample_boot [] = sample_client"
    using sample_configured(1) [of Map.empty] by (simp add: sample_boot_disk)
  then have "readPersistedConfig sample_platform (b_open_err sample_boot) (b_read_err sample_boot)
      (configured_client sample_boot []) (b_disk sample_boot) = None"
    by (simp add: readPersistedConfig_def sample_client_def default_client_def)
  with New_prefers_persisted_config [OF c] c show ?thesis by auto
qed

theorem New_fails_only_on_bad_seed_witness:
  "\<nexists>c. New sample_platform \<lparr>bc_ParseTime = (\<lambda>_. False), bc_metadata = (\<lambda>_. Inl (ErrText ''no metadata'')),
       bc_cached = (\<lambda>_. Inr [None])\<rparr> (sample_boot\<lparr>b_disk := [''f.json'' \<mapsto> ''[null]'']\<rparr>) (Some sample_config)
     [WithCacheFile ''f.json''] = Inr c"
proof -
  let ?bc = "\<lparr>bc_ParseTime = (\<lambda>_. False), bc_metadata = (\<lambda>_. Inl (ErrText ''no metadata'')), bc_cached = (\<lambda>_. Inr [None])\<rparr>"
  let ?b = "sample_boot\<lparr>b_disk := [''f.json'' \<mapsto> ''[null]'']\<rparr>" and ?o = "[WithCacheFile ''f.json'']"
  have "cache_Load (bc_cached ?bc) (b_cache_err ?b) (c_cache (configured_client ?b ?o)) (b_disk ?b) = Inr [None]"
    by (simp add: sample_configured cache_Load_def FileCache_Load_def readFile_def) (simp add: sample_boot_def)
  with New_fails_only_on_bad_seed [where pf = sample_platform and bc = ?bc and b = ?b and options = ?o and cached = "[None]"
      and seed = "Some sample_config"] show ?thesis
    by simp
qed

text \<open>A process that fetches the config \<open>zcdn\<close> (the sample codecs read it as one provider, \<open>cdn\<close>).\<close>

definition sample_updating_client :: client where
  "sample_updating_client = sample_client\<lparr>configURLs := [''config.example.com''], configCachePath := ''c.gz''\<rparr>"

definition sends_config :: "string \<Rightarrow> fetch_request \<Rightarrow> goerr + fetch_response" where
  "sends_config url req = Inr \<lparr>fp_StatusCode = 200, fp_Header = [], fp_Body = (''zcdn'', None)\<rparr>"

definition cdn_config :: config where
  "cdn_config = \<lparr>TrustedCAs = [], Providers = Some [(''cdn'', Some sample_provider)]\<rparr>"

lemma cdn_config_parses: "ParseConfig (codecs_of sample_platform) ''zcdn'' = Inr cdn_config"
  by (simp add: sample_platform_def ParseConfig_def ParseConfigYAML_def sample_codecs_def cdn_config_def)

lemma cdn_config_applies: "\<exists>c'. applyConfig sample_platform draw cdn_config c = (None, c')"
proof -
  obtain es where "expand_all sample_platform (countryCode c) (provider_map cdn_config) = Inr es"
    using expand_all_cases [of "provider_map cdn_config" sample_platform "countryCode c"]
    by (auto simp: cdn_config_def provider_map_def provider_ok_def sample_provider_def)
  then show ?thesis
    by (cases "new_fronts (masquerades_of es) (c_pool c)")
      (simp add: applyConfig_def CertPool_def Let_def, simp add: cdn_config_def provider_map_def)
qed

lemma sample_update:
  "\<exists>s. fetchAndApplyConfig sample_platform (\<lambda>_. False) (\<lambda>_. Inr ''m'') sends_config (\<lambda>_. sample_fetch_env) WriteOk
     sample_updating_client Map.empty = FEnd s \<and> configHash (fs_client s) = configDigest ''zcdn'' \<and>
     fs_disk s ''c.gz'' = Some ''zcdn''"
proof -
  have 1: "length (configURLs sample_updating_client) = Suc 0" "ctx_err sample_updating_client = None"
    "configHash sample_updating_client = ''''"
    by (simp_all add: sample_updating_client_def sample_client_def default_client_def)
  have 2: "source_responses sample_platform (\<lambda>_. False) sends_config sample_updating_client =
      [Some \<lparr>cr_url = ''config.example.com'', cr_data = ''zcdn'', cr_validator = no_validator, cr_unchanged = False\<rparr>]"
    by (simp add: source_responses_def fetchConfigFrom_def sends_config_def sample_updating_client_def sample_platform_def
        limited_ReadAll_def maxConfigSize_def push_bit_eq_mult header_Get_def header_Values_def no_validator_def Let_def)
  obtain c2 where 3: "applyConfig sample_platform id cdn_config sample_updating_client = (None, c2)"
    using cdn_config_applies by blast
  have 4: "configCachePath c2 = ''c.gz''"
    using applyConfig_config_fields(2) [OF 3] by (simp add: sample_updating_client_def)
  have 5: "fs_disk (finish_fetch json_Marshal out s) ''c.gz'' = fs_disk s ''c.gz''"
    if "configCachePath (fs_client s) = ''c.gz''" for json_Marshal out s
    using finish_fetch_fields(2) [of json_Marshal out s] that by simp
  show ?thesis
    by (simp add: 4 5 persistConfig_disk fetchAndApplyConfig_def 1 2 collect_once_def sample_fetch_env_def receiveConfigResponse_def
        handle_response_def cdn_config_parses 3 finish_fetch_fields Let_def)
qed

lemma sample_restart:
  assumes "d ''c.gz'' = Some ''zcdn''"
  shows "\<exists>c. New sample_platform (sample_boot_codecs []) (sample_boot\<lparr>b_disk := d\<rparr>) (Some sample_config)
      [WithConfigCacheFile ''c.gz''] = Inr c"
proof -
  let ?b = "sample_boot\<lparr>b_disk := d\<rparr>" and ?c = "sample_client\<lparr>configCachePath := ''c.gz''\<rparr>"
  have rd: "readPersistedConfig sample_platform None None ?c d = Some (''zcdn'', cdn_config)"
    by (rule readPersistedConfig_Some) (simp_all add: assms cdn_config_parses maxConfigSize_def push_bit_eq_mult)
  obtain c1 where c1: "applyConfig sample_platform (b_draw ?b) cdn_config ?c = (None, c1)"
    using cdn_config_applies by blast
  have "c_cache (loadConfigValidators pt js e (c1\<lparr>configHash := h\<rparr>) d) = NopCache" for pt js e h
    using loadConfigValidators_keeps [where c = "c1\<lparr>configHash := h\<rparr>"] applyConfig_keeps(2) [OF c1]
    by (simp add: sample_client_def default_client_def)
  moreover have "boot_cache bc b c = Inr c" if "c_cache c = NopCache" for bc b c
    using that by (simp add: boot_cache_def cache_Load_def)
  ultimately show ?thesis
    using rd c1 by (simp add: New_def boot_config_def boot_persisted_def sample_configured(3)) (simp add: sample_boot_def)
qed

theorem restart_boots_fetched_config_witness:
  "\<exists>s c. fetchAndApplyConfig sample_platform (\<lambda>_. False) (\<lambda>_. Inr ''m'') sends_config (\<lambda>_. sample_fetch_env) WriteOk
     sample_updating_client Map.empty = FEnd s \<and>
   New sample_platform (sample_boot_codecs []) (sample_boot\<lparr>b_disk := fs_disk s\<rparr>) (Some sample_config)
     [WithConfigCacheFile ''c.gz''] = Inr c \<and> configHash c = configDigest ''zcdn''"
proof -
  obtain s where s: "fetchAndApplyConfig sample_platform (\<lambda>_. False) (\<lambda>_. Inr ''m'') sends_config (\<lambda>_. sample_fetch_env) WriteOk
     sample_updating_client Map.empty = FEnd s" "configHash (fs_client s) = configDigest ''zcdn''"
    "fs_disk s ''c.gz'' = Some ''zcdn''"
    using sample_update by blast
  have w: "\<forall>i::nat. quiet sample_fetch_env \<and> fe_out sample_fetch_env = WriteOk"
    using sample_fetch_world(1) by (simp add: sample_fetch_env_def)
  have a: "arrivals_ok (length (configURLs sample_updating_client)) (\<lambda>_. sample_fetch_env)"
    by (simp add: arrivals_ok_def sample_updating_client_def sample_fetch_env_def)
  have h: "configHash (fs_client s) \<noteq> configHash sample_updating_client"
    by (simp add: s(2) sample_updating_client_def sample_client_def default_client_def)
  have p: "configCachePath sample_updating_client = ''c.gz''"
    by (simp add: sample_updating_client_def)
  obtain c where c: "New sample_platform (sample_boot_codecs []) (sample_boot\<lparr>b_disk := fs_disk s\<rparr>) (Some sample_config)
      [WithConfigCacheFile ''c.gz''] = Inr c"
    using sample_restart [where d = "fs_disk s", OF s(3)] by blast
  have "configHash c = configHash (fs_client s)"
    using restart_boots_fetched_config [OF w a s(1) h _ _ _ _ _ c] p
    by (simp add: sample_configured(3)) (simp add: sample_boot_def)
  with s c show ?thesis by auto
qed

text \<open>A process whose front had worked, closed with its cache in a file.\<close>

definition sample_worked_client :: client where
  "sample_worked_client =
     sample_client\<lparr>c_pool := setLastSucceeded 0 (unix_epoch + 3) sample_front_pool, c_cache := FileCache ''f.json''\<rparr>"

theorem restart_keeps_success_times_witness:
  "\<exists>c. New sample_platform (sample_boot_codecs [cache_entry (c_pool sample_worked_client) 0])
      (sample_boot\<lparr>b_disk := [''f.json'' \<mapsto> ''x'']\<rparr>) (Some sample_config) [WithCacheFile ''f.json''] = Inr c \<and>
     LastSucceeded (mem (c_pool c) 0) = unix_epoch + 3"
proof -
  let ?b = "sample_boot\<lparr>b_disk := [''f.json'' \<mapsto> ''x'']\<rparr>" and ?w = sample_worked_client
  let ?bc = "sample_boot_codecs [cache_entry (c_pool ?w) 0]" and ?o = "[WithCacheFile ''f.json'']"
  have w: "c_cache ?w = FileCache ''f.json''" "fronts (c_pool ?w) = [0]" "maxCacheSize ?w = 1000"
    "isSucceeding 0 (c_pool ?w)" "LastSucceeded (mem (c_pool ?w) 0) = unix_epoch + 3" "ident (c_pool ?w) = ident sample_front_pool"
    by (simp_all add: sample_worked_client_def sample_client_def default_client_def sample_front_pool_fields isSucceeding_def
        pool_simps unix_epoch_def)
  have "candidates id id (c_pool ?w) = [0]"
    using mset_candidates [of id id "c_pool ?w"] by (simp add: w)
  then have entries: "frontsToCache (candidates id id (c_pool ?w)) (maxCacheSize ?w) (c_pool ?w) = [cache_entry (c_pool ?w) 0]"
    by (simp add: frontsToCache_eq w)
  let ?c = "sample_client\<lparr>c_cache := FileCache ''f.json''\<rparr>"
  obtain c1 where c1: "applyConfig sample_platform id sample_config ?c = (None, c1)" "c_pool c1 = sample_front_pool"
    using sample_apply_to [of ?c] by (auto simp: sample_client_def default_client_def)
  have rd: "readPersistedConfig sample_platform e1 e2 ?c d = None" for e1 e2 d
    by (simp add: readPersistedConfig_def sample_client_def default_client_def)
  have cfg: "boot_config sample_platform ?bc ?b sample_config (configured_client ?b ?o) = Inr c1"
    unfolding sample_configured boot_config_def boot_persisted_def using rd c1(1) by (simp add: sample_boot_def)
  have "c_cache c1 = FileCache ''f.json''" "maxCachedAge c1 = 24 * 3600 * 1000000000"
    using applyConfig_keeps(2,3) [OF c1(1)] by (simp_all add: sample_client_def default_client_def)
  then obtain c where b2: "boot_cache ?bc ?b c1 = Inr c" "maxCachedAge c = 24 * 3600 * 1000000000"
    by (simp add: boot_cache_def cache_Load_def FileCache_Load_def readFile_def sample_boot_codecs_def sample_boot_def
        applyCachedState_eq)
  then have New: "New sample_platform ?bc ?b (Some sample_config) ?o = Inr c"
    using cfg by (simp add: New_def)
  have f: "fronts (c_pool c) = [0]" "ident (c_pool c) = ident sample_front_pool"
    using boot_cache_facts(2) [OF b2(1) boot_config_facts(1) [OF cfg configured_client_wf]] c1(2)
    by (auto simp: sample_front_pool_fields)
  obtain closed d' where cl: "client_Close (\<lambda>_. Inr ''x'') WriteOk id id ?w Map.empty = (closed, d')"
    by fastforce
  have d': "d' = [''f.json'' \<mapsto> ''x'']"
    using client_Close_disk [of "\<lambda>_. Inr ''x''" WriteOk id id ?w Map.empty] cl w(1)
    by (simp add: cache_Save_def FileCache_Save_def writeFile_def)
  have k: "key (mem (c_pool c) 0) = key (mem (c_pool ?w) 0)"
    by (rule ident_key) (simp add: f w)
  have "LastSucceeded (mem (c_pool c) 0) = LastSucceeded (mem (c_pool ?w) 0)"
    by (rule restart_keeps_success_times [OF cl w(1) _ _ _ _ _ New _ _ _ _ w(4) _ k])
      (simp_all add: w(2-5) f entries [unfolded w(3)] sample_configured d' b2(2) time_Sub_def, simp_all add: sample_boot_codecs_def sample_boot_def)
  with New w show ?thesis by auto
qed

end
