(* ===== verification/System.thy ===== *)
theory System
  imports Pool_Scan Connected Startup
begin

text \<open>
  The whole client: a step relation whose steps are the atomic operations of its goroutines on the
  shared state, in any order. \<open>RoundTrip\<close>, the lanes, the crawler, the cache saver, the config updater
  and \<open>Close\<close> are runs of it, so what its steps keep holds while all of them work at once.
\<close>

subsection \<open>The steps\<close>

inductive client_step :: "platform \<Rightarrow> client \<Rightarrow> client \<Rightarrow> bool" for pf :: platform where
  use_pool: "pool_step (c_pool c) p \<Longrightarrow> next_ref p = next_ref (c_pool c) \<Longrightarrow> client_step pf c (c\<lparr>c_pool := p\<rparr>)"
| new_front: "expand_all pf (countryCode c) ps = Inr expanded \<Longrightarrow> (m, pid) \<in> set (masquerades_of expanded) \<Longrightarrow>
    client_step pf c (c\<lparr>c_pool := snd (alloc_front m pid (c_pool c))\<rparr>)"
| notify: "client_step pf c (notifyCacheDirty c)"
| saving: "client_step pf c (c\<lparr>cacheDirty := False\<rparr>)"
| pausing: "client_step pf c (Pause c)"
| resuming: "Resume c = Inr c' \<Longrightarrow> client_step pf c c'"
| new_providers: "provider_map cfg \<noteq> [] \<Longrightarrow> expand_all pf (countryCode c) (provider_map cfg) = Inr expanded \<Longrightarrow>
    client_step pf c (c\<lparr>providers := expanded\<rparr>)"
| new_roots: "CertPool (pem_ok pf) cfg = Inr certs \<Longrightarrow> client_step pf c (c\<lparr>certPoolValue := Some certs\<rparr>)"
| remembering: "client_step pf c (snd (rememberConfigValidator url v c))"
| new_hash: "client_step pf c (c\<lparr>configHash := configDigest data, configValidators := Some []\<rparr>)"
| ending: "ctx_err c = None \<Longrightarrow> client_step pf c (c\<lparr>ctx_err := Some e\<rparr>)"

abbreviation client_runs :: "platform \<Rightarrow> client \<Rightarrow> client \<Rightarrow> bool" where
  "client_runs pf \<equiv> (client_step pf)\<^sup>*\<^sup>*"

inductive_cases client_stepE: "client_step pf c c'"

text \<open>What no step takes back: fronts stay what they are, a closed pool stays closed, an ended context stays ended.\<close>

definition evolves :: "client \<Rightarrow> client \<Rightarrow> bool" where
  "evolves c c' \<longleftrightarrow> next_ref (c_pool c) \<le> next_ref (c_pool c') \<and>
     (\<forall>f<next_ref (c_pool c). ident (c_pool c') f = ident (c_pool c) f) \<and>
     (pool_closed (c_pool c) \<longrightarrow> pool_closed (c_pool c')) \<and> (ctx_err c \<noteq> None \<longrightarrow> ctx_err c' = ctx_err c) \<and>
     crawlerConcurrency c' = crawlerConcurrency c \<and> maxRetries c' = maxRetries c \<and>
     configURLs c' = configURLs c \<and> configCachePath c' = configCachePath c"

definition system_inv :: "client \<Rightarrow> bool" where
  "system_inv c \<longleftrightarrow> client_wf c \<and> providers c \<noteq> [] \<and> certPoolValue c \<noteq> None \<and> 1 \<le> crawlerConcurrency c"

lemma evolves_refl: "evolves c c"
  by (simp add: evolves_def)

lemma evolves_trans: "evolves c d \<Longrightarrow> evolves d e \<Longrightarrow> evolves c e"
  by (auto simp: evolves_def)

subsection \<open>What every step keeps\<close>

lemma Resume_Inr: "Resume c = Inr c' \<Longrightarrow> \<exists>g. resume (c_gate c) = Inr g \<and> c' = c\<lparr>c_gate := g\<rparr>"
  by (auto simp: Resume_def split: sum.splits)

lemma client_step_wf: "client_step pf c c' \<Longrightarrow> client_wf c \<Longrightarrow> client_wf c' \<and> evolves c c'"
proof (induction rule: client_step.induct)
  case (use_pool c p)
  with pool_step_wf [OF use_pool(1)] pool_step_evolves [OF use_pool(1)] pool_step_fronts [OF use_pool(1)] show ?case
    by (simp add: client_wf_def evolves_def)
next
  case (new_front c ps expanded m pid)
  have "pool_step (c_pool c) (snd (alloc_front m pid (c_pool c)))" (is "pool_step _ ?p")
    by (rule pool_step.alloc)
  from pool_step_wf [OF this] pool_step_evolves [OF this] pool_step_fronts [OF this] new_front.prems show ?case
    by (simp add: client_wf_def evolves_def)
next
  case (resuming c c')
  with Resume_Inr [OF resuming(1)] resume_wf [of "c_gate c"] show ?case
    by (auto simp: client_wf_def evolves_def)
next
  case (remembering c url v)
  then show ?case
    by (auto simp: rememberConfigValidator_def client_wf_def evolves_def)
qed (auto simp: client_wf_def evolves_def notifyCacheDirty_def Pause_def pause_wf)

lemma client_step_config:
  "client_step pf c c' \<Longrightarrow> providers c \<noteq> [] \<Longrightarrow> certPoolValue c \<noteq> None \<Longrightarrow>
     providers c' \<noteq> [] \<and> certPoolValue c' \<noteq> None"
proof (induction rule: client_step.induct)
  case (resuming c c')
  with Resume_Inr [OF resuming(1)] show ?case by auto
next
  case (new_providers cfg c expanded)
  with expand_all_keys [OF new_providers(2)] show ?case by auto
qed (simp_all add: notifyCacheDirty_def Pause_def rememberConfigValidator_def)

lemma client_step_inv: "client_step pf c c' \<Longrightarrow> system_inv c \<Longrightarrow> system_inv c'"
  using client_step_wf [of pf c c'] client_step_config [of pf c c'] by (simp add: system_inv_def evolves_def)

definition started_client :: "platform \<Rightarrow> client \<Rightarrow> bool" where
  "started_client pf c \<longleftrightarrow> (\<exists>bc b seed options. New pf bc b seed options = Inr c)"

interpretation system_run: invariant "started_client pf" "client_step pf" system_inv for pf
proof unfold_locales
  fix c c'
  show "system_inv c" if start: "started_client pf c"
  proof -
    from start obtain bc b seed options where "New pf bc b seed options = Inr c"
      unfolding started_client_def by blast
    from New_client [OF this] show ?thesis by (simp add: system_inv_def)
  qed
  show "system_inv c'" if "client_step pf c c'" "system_inv c"
    using client_step_inv that by blast
qed

lemma run_wf: "client_runs pf c c' \<Longrightarrow> client_wf c \<Longrightarrow> client_wf c' \<and> evolves c c'"
proof (induction rule: rtranclp_induct)
  case (step d e)
  with client_step_wf [of pf d e] evolves_trans show ?case by blast
qed (simp add: evolves_refl)

subsection \<open>Runs\<close>

text \<open>\<open>c\<close> was reached from \<open>c0\<close> by a run, and the fronts below \<open>n\<close> exist in it.\<close>

definition run_to :: "platform \<Rightarrow> client \<Rightarrow> nat \<Rightarrow> client \<Rightarrow> bool" where
  "run_to pf c0 n c \<longleftrightarrow> client_runs pf c0 c \<and> client_wf c \<and> n \<le> next_ref (c_pool c)"

definition others_run :: "platform \<Rightarrow> (client \<Rightarrow> client) \<Rightarrow> bool" where
  "others_run pf g \<longleftrightarrow> (\<forall>c. client_runs pf c (g c))"

named_theorems run_intros \<open>how a run goes on\<close>

lemma run_start: "client_wf c \<Longrightarrow> run_to pf c 0 c"
  by (simp add: run_to_def)

lemma run_all: "run_to pf c0 n c \<Longrightarrow> run_to pf c0 (next_ref (c_pool c)) c"
  by (simp add: run_to_def)

lemma run_on: "client_runs pf c d \<Longrightarrow> run_to pf c0 n c \<Longrightarrow> run_to pf c0 n d"
  using run_wf [of pf c d] by (auto simp: run_to_def evolves_def)

lemma run_step: "client_step pf c d \<Longrightarrow> run_to pf c0 n c \<Longrightarrow> run_to pf c0 n d"
  using run_on by blast

lemma run_others [run_intros]: "others_run pf g \<Longrightarrow> run_to pf c0 n c \<Longrightarrow> run_to pf c0 n (g c)"
  by (rule run_on) (simp_all add: others_run_def)

text \<open>A run of the pool in which no front was allocated.\<close>

lemma pool_client_runs:
  "pool_runs (c_pool c) p \<Longrightarrow> next_ref p = next_ref (c_pool c) \<Longrightarrow> client_runs pf c (c\<lparr>c_pool := p\<rparr>)"
proof (induction rule: rtranclp_induct)
  case (step p q)
  have n: "next_ref p = next_ref (c_pool c)"
    using pool_runs_keep [OF step(1)] pool_step_evolves [OF step(2)] step.prems by auto
  then have "client_step pf (c\<lparr>c_pool := p\<rparr>) (c\<lparr>c_pool := p\<rparr>\<lparr>c_pool := q\<rparr>)"
    using step.hyps(2) step.prems by (intro client_step.use_pool) simp_all
  with step.IH [OF n] show ?case by (simp add: rtranclp.rtrancl_into_rtrancl)
qed simp

lemma run_pool:
  "pool_runs (c_pool c) p \<Longrightarrow> next_ref p = next_ref (c_pool c) \<Longrightarrow> run_to pf c0 n c \<Longrightarrow> run_to pf c0 n (c\<lparr>c_pool := p\<rparr>)"
  by (rule run_on [OF pool_client_runs])

lemma run_on_pool:
  "pool_runs (c_pool c) (g (c_pool c)) \<Longrightarrow> next_ref (g (c_pool c)) = next_ref (c_pool c) \<Longrightarrow> run_to pf c0 n c \<Longrightarrow>
     run_to pf c0 n (on_pool g c)"
  unfolding on_pool_def by (rule run_pool)

lemma run_notify [run_intros]: "run_to pf c0 n c \<Longrightarrow> run_to pf c0 n (notifyCacheDirty c)"
  by (rule run_step [OF client_step.notify])

lemma run_return [run_intros]:
  assumes "f < n" and "run_to pf c0 n c"
  shows "run_to pf c0 n (on_pool (pool_Return f b) c)" "run_to pf c0 n (on_pool (ReturnSuccess now f) c)"
    "run_to pf c0 n (on_pool (addReady f) c)"
proof -
  have f: "f < next_ref (c_pool c)"
    using assms by (simp add: run_to_def)
  from pool_Return_run [OF f] ReturnSuccess_run [OF f] pool_step.add [OF f] assms(2)
  show "run_to pf c0 n (on_pool (pool_Return f b) c)" "run_to pf c0 n (on_pool (ReturnSuccess now f) c)"
    "run_to pf c0 n (on_pool (addReady f) c)"
    by (auto intro!: run_on_pool simp: pool_Return_def ReturnSuccess_def markFailed_eq markSucceeded_eq pool_simps)
qed

lemma run_mark [run_intros]:
  "run_to pf c0 n c \<Longrightarrow> run_to pf c0 n (on_pool (markSucceeded now f) c)"
  "run_to pf c0 n c \<Longrightarrow> run_to pf c0 n (on_pool (markFailed f) c)"
  unfolding markSucceeded_eq markFailed_eq by (auto intro!: run_on_pool pool_step.mark simp: pool_simps)

lemma run_dial_failed [run_intros]: "f < n \<Longrightarrow> run_to pf c0 n c \<Longrightarrow> run_to pf c0 n (returnAfterDialFailure f c)"
  by (simp add: returnAfterDialFailure_def run_intros)

lemma run_pool_wf: "run_to pf c0 n c \<Longrightarrow> pool_wf (c_pool c)"
  by (simp add: run_to_def client_wf_def)

lemma run_take:
  "TakePreferringUntried pick ctx tried (c_pool c) = (r, p) \<Longrightarrow> run_to pf c0 n c \<Longrightarrow> run_to pf c0 n (c\<lparr>c_pool := p\<rparr>)"
  by (rule run_pool [OF TakePreferringUntried_run [OF run_pool_wf] TakePreferringUntried_fields(4)])

lemma run_take_from:
  "tryTakeFrom m (c_pool c) = (r, p) \<Longrightarrow> run_to pf c0 n c \<Longrightarrow> run_to pf c0 n (c\<lparr>c_pool := p\<rparr>)"
  by (rule run_pool [OF tryTakeFrom_run [OF run_pool_wf] tryTakeFrom_fields(4)])

subsection \<open>Applying a config\<close>

text \<open>The providers, the roots and the fronts are written one after the other, with other goroutines in between.\<close>

lemma new_fronts_run:
  "new_fronts ms (c_pool c) = (fs, q) \<Longrightarrow> expand_all pf (countryCode c) ps = Inr es \<Longrightarrow>
     set ms \<subseteq> set (masquerades_of es) \<Longrightarrow> run_to pf c0 n c \<Longrightarrow> run_to pf c0 n (c\<lparr>c_pool := q\<rparr>)"
proof (induction ms arbitrary: c fs)
  case Nil
  then have "c\<lparr>c_pool := q\<rparr> = c" by (cases c) simp
  with Nil.prems(4) show ?case by (simp only:)
next
  case (Cons mp ms)
  obtain m pid where mp: "mp = (m, pid)" by fastforce
  let ?c1 = "c\<lparr>c_pool := snd (alloc_front m pid (c_pool c))\<rparr>"
  have 1: "run_to pf c0 n ?c1"
    using client_step.new_front [OF Cons.prems(2), of m pid] Cons.prems(3,4) by (auto simp: mp intro: run_step)
  from Cons.prems(1) obtain gs where "new_fronts ms (c_pool ?c1) = (gs, q)"
    by (auto simp: mp Let_def split: prod.splits)
  from Cons.IH [OF this _ _ 1] Cons.prems(2,3) show ?case by simp
qed

lemma run_apply:
  assumes "applyConfig pf draw cfg c = (None, c')" and "run_to pf c0 n c"
  shows "run_to pf c0 n c'"
  using assms(1)
proof (rule applyConfig_ok)
  fix certs es fs p1
  assume a: "provider_map cfg \<noteq> []" "CertPool (pem_ok pf) cfg = Inr certs"
    "expand_all pf (countryCode c) (provider_map cfg) = Inr es" "new_fronts (masquerades_of es) (c_pool c) = (fs, p1)"
    "c' = c\<lparr>providers := es, certPoolValue := Some certs, c_pool := Replace (rand_Shuffle draw fs) p1\<rparr>"
  let ?c1 = "c\<lparr>providers := es\<rparr>" let ?c2 = "?c1\<lparr>certPoolValue := Some certs\<rparr>"
  have 1: "run_to pf c0 n ?c1"
    using client_step.new_providers [OF a(1,3)] assms(2) by (rule run_step)
  have 2: "run_to pf c0 n ?c2"
    using client_step.new_roots [OF a(2)] 1 by (rule run_step)
  have "distinct (rand_Shuffle draw fs)" "\<forall>f\<in>set (rand_Shuffle draw fs). f < next_ref p1"
    using new_fronts_spec(1,2) [OF a(4)] by (auto simp: distinct_rand_Shuffle)
  from Replace_run [OF this] have r: "pool_runs p1 (Replace (rand_Shuffle draw fs) p1)" .
  have 3: "run_to pf c0 n (?c2\<lparr>c_pool := p1\<rparr>)"
    by (rule new_fronts_run [OF _ _ subset_refl 2]) (use a(3,4) in simp_all)
  from run_pool [OF _ _ 3, of "Replace (rand_Shuffle draw fs) p1"] r show ?thesis
    by (simp add: a(5) Replace_fields)
qed

subsection \<open>The names that edges are verified against\<close>

text \<open>A masquerade that sends an SNI and has a domain has a host name to verify its certificate against.\<close>

definition pinned :: "masquerade \<Rightarrow> bool" where
  "pinned m \<longleftrightarrow> (SNI m \<noteq> '''' \<longrightarrow> Domain m \<noteq> '''' \<longrightarrow> VerifyHostname m \<noteq> None)"

definition all_pinned :: "client \<Rightarrow> bool" where
  "all_pinned c \<longleftrightarrow> (\<forall>f<next_ref (c_pool c). pinned (fst (ident (c_pool c) f)))"

lemma expanded_pinned:
  assumes "expand_all pf cc ps = Inr es" and "(m, pid) \<in> set (masquerades_of es)"
  shows "pinned m"
proof -
  from assms(2) obtain ep mo where ep: "(pid, ep) \<in> set es" "mo \<in> set (Masquerades ep)" "m = the mo"
    by (auto simp: masquerades_of_def)
  from expand_all_in [OF assms(1) ep(1)] obtain p where p: "ExpandedProvider (ulower pf) (Some p) cc = Inr ep"
    by (metis ExpandedProvider_cases not_None_eq option.simps(4) provider_ok_def sum.distinct(1))
  then obtain ms where ms: "map_res (expand_masquerade p (select_sni_config p cc)) (Masquerades p) = Inr ms"
    "Masquerades ep = map Some ms"
    by (rule ExpandedProvider_Inr) simp
  with ep have m: "m \<in> set ms" by auto
  from map_res_in_set [OF ms(1) m] obtain mo' where "expand_masquerade p (select_sni_config p cc) mo' = Inr m" by blast
  moreover from this obtain m0 where "mo' = Some m0"
    by (metis expand_masquerade_None not_None_eq sum.distinct(1))
  ultimately show ?thesis
    using expand_masquerade_fields(3) by (auto simp: pinned_def)
qed

lemma client_step_pinned: "client_step pf c c' \<Longrightarrow> all_pinned c \<Longrightarrow> all_pinned c'"
proof (induction rule: client_step.induct)
  case (use_pool c p)
  with pool_step_evolves [OF use_pool(1)] show ?case by (simp add: all_pinned_def)
next
  case (new_front c ps expanded m pid)
  let ?p = "snd (alloc_front m pid (c_pool c))"
  have "pinned (fst (ident ?p (next_ref (c_pool c))))"
    using expanded_pinned [OF new_front(1,2)] by (simp add: alloc_front_def ident_def newFront_def masquerade.defs pinned_def)
  moreover have "next_ref ?p = Suc (next_ref (c_pool c))"
    by (simp add: alloc_front_def)
  ultimately show ?case
    using new_front.prems ident_alloc_front by (auto simp: all_pinned_def less_Suc_eq)
next
  case (resuming c c')
  with Resume_Inr [OF resuming(1)] show ?case by (auto simp: all_pinned_def)
qed (simp_all add: all_pinned_def notifyCacheDirty_def Pause_def rememberConfigValidator_def)

lemma client_runs_pinned: "client_runs pf c c' \<Longrightarrow> all_pinned c \<Longrightarrow> all_pinned c'"
  by (induction rule: rtranclp_induct) (auto dest: client_step_pinned)

lemma New_pinned:
  assumes "New pf bc b seed options = Inr c"
  shows "all_pinned c"
  using assms
proof (rule New_Inr)
  fix cfg c1
  let ?c0 = "configured_client b options"
  assume b1: "boot_config pf bc b cfg ?c0 = Inr c1" and b2: "boot_cache bc b c1 = Inr c"
  from b1 obtain cfg' c2 where c2: "applyConfig pf (b_draw b) cfg' ?c0 = (None, c2)" "c_pool c1 = c_pool c2"
    by (rule boot_config_applied)
  have "client_runs pf ?c0 c2"
    using run_apply [OF c2(1) run_start [OF configured_client_wf]] by (simp add: run_to_def)
  moreover have "all_pinned ?c0"
    by (simp add: all_pinned_def configured_client_def Let_def newFrontPool_fields)
  ultimately have "all_pinned c2"
    by (rule client_runs_pinned)
  moreover from boot_cache_facts(2) [OF b2] boot_config_facts(1) [OF b1 configured_client_wf]
  have "ident (c_pool c) = ident (c_pool c1)" by auto
  ultimately show ?thesis
    using boot_cache_refs [OF b2] by (simp add: all_pinned_def c2(2))
qed

subsection \<open>The round tripper\<close>

definition attempt_runs :: "platform \<Rightarrow> attempt \<Rightarrow> bool" where
  "attempt_runs pf a \<longleftrightarrow> others_run pf (others_take a) \<and> others_run pf (others_dial a) \<and> others_run pf (others_send a)"

lemma attempt_request_run:
  assumes "attempt_request pf a req mk nb tried f pid fh conn c = (v, c', evs)"
    and "attempt_runs pf a" and "f < n" and "run_to pf c0 n c"
  shows "run_to pf c0 n c'"
proof -
  have "others_run pf (others_send a)"
    using assms(2) by (simp add: attempt_runs_def)
  note o = run_others [OF this assms(4)]
  from assms(1) show ?thesis
    by (cases rule: attempt_request_cases) (simp_all add: run_intros assms(3,4) o)
qed

lemma attempt_front_run:
  assumes "attempt_front pf a req mk nb tried f c = (v, c', evs)"
    and "attempt_runs pf a" and "f < n" and "run_to pf c0 n c"
  shows "run_to pf c0 n c'"
proof -
  have "others_run pf (others_dial a)"
    using assms(2) by (simp add: attempt_runs_def)
  note o = run_others [OF this assms(4)]
  from assms(1) show ?thesis
  proof (cases rule: attempt_front_cases)
    case (dialed provider res nevs conn evs')
    from attempt_request_run [OF dialed(6) assms(2,3) o] show ?thesis .
  qed (simp_all add: run_intros assms(3,4) o)
qed

lemma attempt_once_run:
  assumes "attempt_once pf a req mk nb tried c = (v, c', evs)" and "attempt_runs pf a" and "run_to pf c0 n c"
  shows "run_to pf c0 n c'"
proof -
  have "others_run pf (others_take a)"
    using assms(2) by (simp add: attempt_runs_def)
  note o = run_others [OF this assms(3)]
  from assms(1) show ?thesis
  proof (cases rule: attempt_once_cases)
    case (took f p evs')
    let ?c = "(others_take a c)\<lparr>c_pool := p\<rparr>"
    have r: "run_to pf c0 n ?c"
      by (rule run_take [OF took(1) o])
    have "f < next_ref (c_pool ?c)"
      using o taken_front(2) [OF _ took(1)] by (simp add: run_to_def)
    from attempt_front_run [OF took(2) assms(2) this run_all [OF r]] r show ?thesis
      by (simp add: run_to_def)
  qed (use o in simp_all)
qed

lemma RoundTrip_run:
  assumes "\<forall>i. attempt_runs pf (world i)" and "client_wf c" and "RoundTrip pf world req c = (r, c', tr)"
  shows "client_runs pf c c'"
proof (cases "getBodyFactory req")
  case (Inl e)
  with assms(3) show ?thesis by (simp add: RoundTrip_def)
next
  case (Inr mk)
  then have loop: "rt_loop pf world req mk (maxRetries c) (nat (maxRetries c)) 0 0 {} None c = (r, c', tr)"
    using assms(3) by (simp add: RoundTrip_def)
  have "kept_by_attempts pf world req mk (run_to pf c 0)"
    using attempt_once_run assms(1) unfolding kept_by_attempts_def by blast
  from rt_loop_steps [OF this loop run_start [OF assms(2)]] show ?thesis
    by (simp add: run_to_def)
qed

subsection \<open>The lanes\<close>

definition lane_runs :: "platform \<Rightarrow> lane_env \<Rightarrow> bool" where
  "lane_runs pf a \<longleftrightarrow> others_run pf (others_pick a) \<and> others_run pf (others_lane a)"

lemma give_back_run [run_intros]: "f < n \<Longrightarrow> run_to pf c0 n c \<Longrightarrow> run_to pf c0 n (give_back b f c)"
  by (simp add: give_back_def run_intros)

lemma lane_dial_run:
  assumes "lane_dial pf a f is_ready provider c = (res, c', evs)" and "run_to pf c0 n c"
  shows "run_to pf c0 n c'"
  using lane_dial_spec(6) [OF assms(1)] assms(2) by (auto simp: run_intros)

lemma lane_front_run:
  assumes "lane_front pf a pid host f is_ready c = (v, c', evs)" and "lane_runs pf a" and "f < n" and "run_to pf c0 n c"
  shows "run_to pf c0 n c'"
proof -
  have o: "others_run pf (others_lane a)"
    using assms(2) by (simp add: lane_runs_def)
  from assms(1) show ?thesis
  proof (cases rule: lane_front_cases)
    case (failed provider res c1 evs1 e)
    from run_others [OF o lane_dial_run [OF failed(2) assms(4)]] show ?thesis
      by (simp add: failed(6) run_intros assms(3))
  next
    case (cancelled provider res c1 evs1 e ce)
    from run_others [OF o lane_dial_run [OF cancelled(2) assms(4)]] show ?thesis
      by (simp add: cancelled(6) run_intros assms(3))
  next
    case (connected provider res c1 conn)
    from run_others [OF o lane_dial_run [OF connected(3) assms(4)]] show ?thesis
      by (simp add: connected(7))
  qed (use assms(3,4) in \<open>simp_all add: run_intros\<close>)
qed

lemma in_dropWhile: "x \<in> set (dropWhile P xs) \<Longrightarrow> x \<in> set xs"
  by (drule set_dropWhileD) simp

definition cands_below :: "nat \<Rightarrow> fref list option \<Rightarrow> bool" where
  "cands_below n cands \<longleftrightarrow> (case cands of None \<Rightarrow> True | Some fs \<Rightarrow> \<forall>f\<in>set fs. f < n)"

lemma cands_below_mono: "cands_below n cands \<Longrightarrow> n \<le> m \<Longrightarrow> cands_below m cands"
  by (auto simp: cands_below_def split: option.splits)

lemma lane_candidates_below:
  assumes "client_wf c" and "cands_below n cands" and "n \<le> next_ref (c_pool c)"
  shows "\<forall>f\<in>set (lane_candidates a pid cands c). f < next_ref (c_pool c)"
  using assms
  by (auto simp: lane_candidates_def cands_below_def client_wf_def set_candidates split: option.splits)

lemma lane_once_run:
  assumes "lane_once pf a pid host cands tried c = (v, cands', picked, c', evs)"
    and "lane_runs pf a" and "run_to pf c0 n c" and "cands_below n cands"
  shows "run_to pf c0 n c' \<and> cands_below (next_ref (c_pool c')) cands'"
proof -
  have "others_run pf (others_pick a)"
    using assms(2) by (simp add: lane_runs_def)
  note o = run_others [OF this assms(3)]
  have fin: ?thesis if "run_to pf c0 m c'" "n \<le> m" "cands_below m cands'" for m
    using that cands_below_mono by (auto simp: run_to_def)
  have taken: "run_to pf c0 n ((others_pick a c)\<lparr>c_pool := p\<rparr>)" "n \<le> next_ref p"
    if "tryTakeFrom m (c_pool (others_pick a c)) = (r, p)" for m r p
    using run_take_from [OF that o] by (auto simp: run_to_def)
  from assms(1) show ?thesis
  proof (cases rule: lane_once_cases)
    case closed
    with o assms(4) show ?thesis by (intro fin [of n]) simp_all
  next
    case (from_queue f p evs')
    have "f < next_ref p"
      using o tryTakeFrom_fields(4) [OF from_queue(1)] tryTakeFrom_spec [OF _ from_queue(1)]
      by (auto simp: run_to_def client_wf_def pool_wf_def)
    with lane_front_run [OF from_queue(2) assms(2) _ run_all [OF taken(1) [OF from_queue(1)]]]
      taken(2) [OF from_queue(1)] assms(4) from_queue(3) show ?thesis
      by (intro fin [of "next_ref p"]) (auto intro: cands_below_mono)
  next
    case (exhausted p)
    with taken [OF exhausted(1)] show ?thesis
      by (intro fin [of n]) (simp_all add: cands_below_def)
  next
    case (from_candidates p f rest evs')
    note t = taken [OF from_candidates(1)]
    have "\<forall>g\<in>set (lane_candidates a pid cands ((others_pick a c)\<lparr>c_pool := p\<rparr>)). g < next_ref p"
      using lane_candidates_below [OF _ assms(4)] t by (fastforce simp: run_to_def)
    then have "\<forall>g\<in>set (f # rest). g < next_ref p"
      unfolding from_candidates(2) [symmetric] using in_dropWhile by fast
    with lane_front_run [OF from_candidates(3) assms(2) _ run_all [OF t(1)]] t(2) from_candidates(4) show ?thesis
      by (intro fin [of "next_ref p"]) (simp_all add: cands_below_def)
  qed
qed

lemma lane_loop_run:
  assumes "\<forall>i. lane_runs pf (world i)" and "lane_loop pf world pid host n i cands tried lastErr c = (r, c', tr)"
    and "run_to pf c0 (next_ref (c_pool c)) c" and "cands_below (next_ref (c_pool c)) cands"
  shows "client_runs pf c0 c'"
  using assms(2-4)
proof (induction n arbitrary: i cands tried lastErr c tr)
  case (Suc n)
  obtain v cands' picked d evs where at: "lane_once pf (world i) pid host cands tried c = (v, cands', picked, d, evs)"
    by (metis prod_cases5)
  have "lane_runs pf (world i)" using assms(1) by blast
  note o = lane_once_run [OF at this Suc.prems(2,3)]
  then have d: "run_to pf c0 (next_ref (c_pool d)) d"
    using run_all by blast
  show ?case
  proof (cases "\<exists>e. v = LContinue e")
    case True
    then obtain e where "v = LContinue e" by blast
    with Suc.prems(1) at obtain tr' where
      "lane_loop pf world pid host n (Suc i) cands' (tried \<union> set_option picked) (Some e) d = (r, c', tr')"
      by (auto split: prod.splits)
    from Suc.IH [OF this _ conjunct2 [OF o]] d show ?thesis by blast
  next
    case False
    with Suc.prems(1) at have "c' = d" by (auto split: lane_verdict.splits)
    with d show ?thesis by (simp add: run_to_def)
  qed
qed (simp add: run_to_def)

lemma connectVia_run:
  assumes "\<forall>i. lane_runs pf (world i)" and "client_wf c" and "connectVia pf world pid host c = (r, c', tr)"
  shows "client_runs pf c c'"
  using lane_loop_run [OF assms(1) assms(3) [unfolded connectVia_def] run_all [OF run_start [OF assms(2)]]]
  by (simp add: cands_below_def)

subsection \<open>The background goroutines\<close>

lemma crawl_step_run:
  assumes "crawl_step pf s t" and "run_to pf c0 n (cl s)" and "\<forall>f\<in>set (vetting s). f < n"
  shows "run_to pf c0 n (cl t)"
  using assms by (induction rule: crawl_step.induct) (auto simp: vet_ok_def vet_bad_def intro!: run_intros)

lemma crawl_run:
  assumes "(crawl_among pf (client_runs pf))\<^sup>*\<^sup>* (crawlAllFronts ties draw envs eds c) s" and "client_wf c"
  shows "client_runs pf c (cl s)"
proof -
  have wf: "distinct (fronts (c_pool c))" "\<forall>f\<in>set (fronts (c_pool c)). f < next_ref (c_pool c)"
    using assms(2) by (auto simp: client_wf_def)
  from assms(1) have "run_to pf c (next_ref (c_pool c)) (cl s) \<and>
      crawl_inv (set (fronts (c_pool c))) (nat (crawlerConcurrency c)) s"
  proof (induction rule: rtranclp_induct)
    case base
    show ?case
      using crawl_inv_start [OF wf(1)] run_all [OF run_start [OF assms(2)]] by (simp add: crawlAllFronts_def)
  next
    case (step s t)
    then have inv: "crawl_inv (set (fronts (c_pool c))) (nat (crawlerConcurrency c)) t"
      using crawl_inv_step by blast
    have "\<forall>f\<in>set (vetting s). f < next_ref (c_pool c)"
      using step.IH wf(2) by (auto simp: crawl_inv_def)
    with step.hyps(2) step.IH inv show ?case
      by (auto elim!: crawl_among.cases intro: crawl_step_run run_on)
  qed
  then show ?thesis by (simp add: run_to_def)
qed

definition fetch_runs :: "platform \<Rightarrow> fetch_env \<Rightarrow> bool" where
  "fetch_runs pf a \<longleftrightarrow> others_run pf (fe_others a) \<and> others_run pf (fe_others_wait a)"

definition fetched_to :: "platform \<Rightarrow> client \<Rightarrow> fetch_step \<Rightarrow> bool" where
  "fetched_to pf c0 r \<longleftrightarrow> (case r of FNext s \<Rightarrow> run_to pf c0 0 (fs_client s) | FEnd s \<Rightarrow> run_to pf c0 0 (fs_client s)
     | FBlocked s \<Rightarrow> run_to pf c0 0 (fs_client s) | FPanic \<Rightarrow> True)"

lemma run_remember [run_intros]: "run_to pf c0 n c \<Longrightarrow> run_to pf c0 n (snd (rememberConfigValidator url v c))"
  by (rule run_step [OF client_step.remembering])

lemma handle_response_run:
  assumes "fetch_runs pf a" and "run_to pf c0 0 (fs_client s)"
  shows "fetched_to pf c0 (handle_response pf a r s)"
proof -
  let ?c = "fs_client s"
  have w: "run_to pf c0 0 (fe_others_wait a ?c)"
    using assms by (simp add: fetch_runs_def run_intros)
  have app: "run_to pf c0 0 (snd (rememberConfigValidator url v
      (c2\<lparr>configHash := configDigest data, configValidators := Some []\<rparr>)))"
    if "applyConfig pf draw cfg (fe_others_wait a ?c) = (None, c2)" for draw cfg c2 url v data
    using run_step [OF client_step.new_hash [of pf c2 data] run_apply [OF that w]]
    by (simp add: run_intros)
  have rem: "run_to pf c0 0 (snd (rememberConfigValidator (cr_url r) (cr_validator r) ?c))"
    using assms(2) by (rule run_remember)
  show ?thesis
    using assms(2) w app rem
    by (auto simp: handle_response_def fetched_to_def Let_def dest: applyConfig_fault
        split: sum.split fault.split prod.split option.split)
qed

lemma collect_run:
  assumes "\<forall>i. fetch_runs pf (world i)" and "run_to pf c0 0 (fs_client s)"
  shows "fetched_to pf c0 (collect pf responses world n i s)"
  using assms(2)
proof (induction n arbitrary: i s)
  case (Suc n)
  let ?s = "s\<lparr>fs_client := fe_others (world i) (fs_client s),
              fs_queue := fs_queue s @ map (\<lambda>j. responses ! j) (fe_arrivals (world i))\<rparr>"
  have o: "run_to pf c0 0 (fs_client ?s)"
    using assms(1) Suc.prems by (simp add: fetch_runs_def run_intros)
  have h: "fetched_to pf c0 (handle_response pf (world i) r (?s\<lparr>fs_queue := q\<rparr>))" for r q
    using assms(1) o by (intro handle_response_run) simp_all
  have "fetched_to pf c0 (collect_once pf responses (world i) s)"
    using o h unfolding collect_once_def Let_def
    by (auto simp: fetched_to_def split: prod.split recv.split option.split)
  then show ?case
    using Suc.IH by (cases "collect_once pf responses (world i) s") (simp_all add: fetched_to_def)
qed (simp add: fetched_to_def)

lemma fetch_run:
  assumes "\<forall>i. fetch_runs pf (world i)" and "client_wf c"
    and "fetchAndApplyConfig pf pt json_Marshal http_Do world out c d = FEnd s"
  shows "client_runs pf c (fs_client s)"
proof -
  have "fetched_to pf c (collect pf rs world n 0
      \<lparr>fs_client = c, fs_disk = d, fs_queue = [], fs_unchanged = False, fs_validatorsChanged = False\<rparr>)" for rs n
    using assms(1) run_start [OF assms(2)] by (intro collect_run) simp_all
  note to = this [of "source_responses pf pt http_Do c" "length (configURLs c)"]
  show ?thesis
  proof (cases "configURLs c = []")
    case True
    with assms(3) show ?thesis by (auto simp: fetchAndApplyConfig_def)
  next
    case False
    with assms(3) obtain s' where s': "collect pf (source_responses pf pt http_Do c) world (length (configURLs c)) 0
        \<lparr>fs_client = c, fs_disk = d, fs_queue = [], fs_unchanged = False, fs_validatorsChanged = False\<rparr> = FEnd s'"
      "s = finish_fetch json_Marshal out s'"
      by (auto simp: fetchAndApplyConfig_def Let_def split: fetch_step.splits)
    with to show ?thesis by (simp add: fetched_to_def run_to_def finish_fetch_fields)
  qed
qed

lemma cacheSaver_run: "client_runs pf c (fst (cacheSaver_tick json_Marshal out ties draw c d))"
  by (auto simp: cacheSaver_tick_def Let_def intro: client_step.saving)

lemma Close_run:
  assumes "client_wf c"
  shows "client_runs pf c (fst (client_Close json_Marshal out ties draw c d))"
proof -
  let ?c = "c\<lparr>ctx_err := (case ctx_err c of None \<Rightarrow> Some ErrCanceled | Some e \<Rightarrow> Some e)\<rparr>"
  have "run_to pf c 0 ?c"
  proof (cases "ctx_err c")
    case None
    with run_start [OF assms, of pf] client_step.ending [of c pf ErrCanceled] show ?thesis
      by (auto intro: run_step)
  next
    case (Some e)
    then have "?c = c" by (cases c) simp
    with run_start [OF assms, of pf] show ?thesis by (simp only:)
  qed
  then have "run_to pf c 0 (on_pool pool_Close ?c)"
    by (auto intro!: run_on_pool pool_step.close simp: pool_Close_def)
  then show ?thesis
    by (simp add: client_Close_def run_to_def Let_def)
qed

subsection \<open>Properties\<close>

text \<open>
  C1: the invariant of a running client: after \<open>New\<close>, whatever its goroutines and its callers do and in
  whatever order, the ready queue holds no front twice and exactly the fronts with the \<open>queued\<close> flag,
  within its capacity, the candidates are distinct, candidates and ready fronts are fronts that exist, the
  pause gate is sound, there is a provider, the config's roots are installed, and the crawler has a slot.
  A front that \<open>New\<close> made keeps its masquerade and provider for good.
\<close>

theorem running_client_invariant:
  assumes "New pf bc b seed options = Inr c" and "client_runs pf c c'"
  shows "distinct (ready (c_pool c')) \<and> (\<forall>f. queued (mem (c_pool c') f) \<longleftrightarrow> f \<in> set (ready (c_pool c'))) \<and>
    length (ready (c_pool c')) \<le> ready_cap (c_pool c') \<and> distinct (fronts (c_pool c')) \<and>
    (\<forall>f\<in>set (fronts (c_pool c')) \<union> set (ready (c_pool c')). f < next_ref (c_pool c')) \<and> gate_wf (c_gate c') \<and>
    providers c' \<noteq> [] \<and> certPoolValue c' \<noteq> None \<and> 1 \<le> crawlerConcurrency c' \<and>
    next_ref (c_pool c) \<le> next_ref (c_pool c') \<and>
    (\<forall>f<next_ref (c_pool c). ident (c_pool c') f = ident (c_pool c) f)"
proof -
  have "started_client pf c"
    using assms(1) by (auto simp: started_client_def)
  from system_run.inv_reachable [OF this assms(2)] have inv: "system_inv c'" .
  have "evolves c c'"
    using run_wf [OF assms(2)] New_client [OF assms(1)] by blast
  with inv show ?thesis
    by (auto simp: system_inv_def client_wf_def pool_wf_def pool_ok_def evolves_def)
qed

text \<open>A successful dial of a front by a running client.\<close>

lemma running_dial:
  assumes "New pf bc b seed options = Inr c" and "client_runs pf c c'" and "f < next_ref (c_pool c')"
    and "handshake_law env"
    and "dialFront env (mem (c_pool c') f) (certPool pf c') (clientHelloID c') = (res, evs)" and "dr_err res = None"
  obtains roots raw st where "certPoolValue c' = Some roots"
    "Handshake env raw (front_tls_config env (mem (c_pool c') f) roots) (sent_hello env (clientHelloID c')) = Inr st"
    "dr_conn res = Some \<lparr>conn_raw = raw, conn_proto = NegotiatedProtocol st\<rparr>"
    "chain_verified env (PeerCertificates st) roots (verified_name (mem (c_pool c') f))"
    "verified_name (mem (c_pool c') f) = '''' \<longrightarrow>
       Domain (mem (c_pool c') f) = '''' \<or> VerifyHostname (mem (c_pool c') f) = Some ''''"
proof -
  have "started_client pf c"
    using assms(1) by (auto simp: started_client_def)
  from system_run.inv_reachable [OF this assms(2)] obtain roots where r: "certPoolValue c' = Some roots"
    by (auto simp: system_inv_def)
  then have p: "certPool pf c' = roots"
    by (simp add: certPool_def)
  have "pinned (fst (ident (c_pool c') f))"
    using client_runs_pinned [OF assms(2) New_pinned [OF assms(1)]] assms(3) by (simp add: all_pinned_def)
  then have n: "verified_name (mem (c_pool c') f) = '''' \<longrightarrow>
       Domain (mem (c_pool c') f) = '''' \<or> VerifyHostname (mem (c_pool c') f) = Some ''''"
    by (auto simp: pinned_def ident_def masquerade.defs verified_name_def split: if_splits option.splits)
  from assms(4-6) show thesis
    by (rule dialFront_verified) (rule that [OF r _ _ _ n], simp_all add: p flip: verifyPeerCertificate_None)
qed

text \<open>
  C2: every connection of a running client is to a verified edge: whichever front is dialed, whenever and
  after whatever config updates, a dial that succeeds hands out a connection whose handshake presented a
  chain that was checked: its first certificate, the leaf, verifies, with all the others as intermediates,
  against the roots of the client's config, never the system's, for the front's domain or, when an SNI is
  sent, for the host name pinned for it; it is checked by chain alone only when the config gives neither
  a domain nor a name, or pins the empty name. The hypothesis is the documented behaviour of the
  handshake: it succeeds only if the configured verifier accepts what was presented.
\<close>

theorem running_client_verifies_edges:
  assumes "New pf bc b seed options = Inr c" and "client_runs pf c c'" and "f < next_ref (c_pool c')"
    and "handshake_law env"
    and "dialFront env (mem (c_pool c') f) (certPool pf c') (clientHelloID c') = (res, evs)" and "dr_err res = None"
  shows "\<exists>roots raw st leaf rest cert ints. certPoolValue c' = Some roots \<and>
    Handshake env raw (front_tls_config env (mem (c_pool c') f) roots) (sent_hello env (clientHelloID c')) = Inr st \<and>
    dr_conn res = Some \<lparr>conn_raw = raw, conn_proto = NegotiatedProtocol st\<rparr> \<and>
    PeerCertificates st = leaf # rest \<and> ParseCertificate env leaf = Inr cert \<and>
    map (ParseCertificate env) rest = map Inr ints \<and>
    cert_Verify env cert \<lparr>Roots = roots, CurrentTime = dial_now env, DNSName = verified_name (mem (c_pool c') f),
      Intermediates = ints\<rparr> = None \<and>
    (verified_name (mem (c_pool c') f) = '''' \<longrightarrow>
       Domain (mem (c_pool c') f) = '''' \<or> VerifyHostname (mem (c_pool c') f) = Some '''')"
  using assms
proof (rule running_dial)
  fix roots raw st
  assume "certPoolValue c' = Some roots"
    "Handshake env raw (front_tls_config env (mem (c_pool c') f) roots) (sent_hello env (clientHelloID c')) = Inr st"
    "dr_conn res = Some \<lparr>conn_raw = raw, conn_proto = NegotiatedProtocol st\<rparr>"
    "chain_verified env (PeerCertificates st) roots (verified_name (mem (c_pool c') f))"
    "verified_name (mem (c_pool c') f) = '''' \<longrightarrow>
       Domain (mem (c_pool c') f) = '''' \<or> VerifyHostname (mem (c_pool c') f) = Some ''''"
  then show ?thesis
    unfolding chain_verified_def by blast
qed

text \<open>The state of the client at the dial of an attempt that sent the request.\<close>

lemma attempt_sent:
  assumes "attempt_once pf a req mk nb tried c = (v, c', evs)" and "attempt_runs pf a" and "run_to pf c0 n c"
    and "EvSent f h \<in> set evs"
  obtains d provider res nevs where "run_to pf c0 n d" "f < next_ref (c_pool d)"
    "providerFor d (mem (c_pool d) f) = Some provider"
    "h = Lookup (ulower pf) provider (url_Hostname (u_Host (URL req)))" "h \<noteq> ''''"
    "dialFront (a_env a) (mem (c_pool d) f) (certPool pf d) (clientHelloID d) = (res, nevs)" "dr_err res = None"
    "\<And>x r. EvNet (Dialed x r) \<in> set evs \<Longrightarrow> dr_conn res \<noteq> None \<and> r = conn_raw (the (dr_conn res))"
  using assms(1)
proof (cases rule: attempt_once_cases)
  case (took g p evs')
  have "others_run pf (others_take a)"
    using assms(2) by (simp add: attempt_runs_def)
  note o = run_others [OF this assms(3)]
  let ?d = "(others_take a c)\<lparr>c_pool := p\<rparr>"
  have r: "run_to pf c0 n ?d"
    by (rule run_take [OF took(1) o])
  have g: "g < next_ref (c_pool ?d)"
    using o taken_front(2) [OF _ took(1)] by (simp add: run_to_def)
  have s: "EvSent f h \<in> set evs'"
    using assms(4) took(3) by simp
  from took(2) show thesis
  proof (cases rule: attempt_front_cases)
    case (dialed provider res nevs conn evs2)
    have "EvSent f h \<in> set evs2"
      using s dialed(7) by auto
    with dialed(6) have fh: "f = g" "h = Lookup (ulower pf) provider (url_Hostname (u_Host (URL req)))"
      by (cases rule: attempt_request_cases; simp)+
    have "EvNet (Dialed x r) \<notin> set evs2" for x r
      using dialed(6) by (cases rule: attempt_request_cases) simp_all
    then have only: "dr_conn res \<noteq> None \<and> r = conn_raw (the (dr_conn res))" if "EvNet (Dialed x r) \<in> set evs" for x r
      using that dialFront_net(2) [OF dialed(3,5), of x r] by (auto simp: took(3) dialed(5,7))
    show thesis
    proof (rule that [OF r])
      show "f < next_ref (c_pool ?d)" "providerFor ?d (mem (c_pool ?d) f) = Some provider" "h \<noteq> ''''"
        using g dialed(1,2) fh by simp_all
      show "dialFront (a_env a) (mem (c_pool ?d) f) (certPool pf ?d) (clientHelloID ?d) = (res, nevs)"
        using dialed(3) fh(1) by simp
    qed (rule fh(2) dialed(4) only, assumption?)+
  qed (use s in auto)
qed (use assms(4) in auto)


text \<open>
  \<open>Close\<close> is final: whatever still runs after it, the pool stays closed and the context ended, so no
  take of a front blocks, no crawl pass begins a vet, and no lane picks a front.
\<close>

theorem closed_for_good:
  assumes "client_wf c" and "client_Close json_Marshal out ties draw c d = (c1, d')" and "client_runs pf c1 c'"
  shows "pool_closed (c_pool c') \<and> suspended c' \<and>
    (\<forall>pick ctx tried. fst (TakePreferringUntried pick ctx tried (c_pool c')) \<noteq> TakeBlocks) \<and>
    (\<forall>a pid host cands tried. others_pick a = id \<longrightarrow>
       lane_once pf a pid host cands tried c' = (LReturn (Inl (ErrWrap (''provider '' @ pid) ErrCanceled)), cands, None, c', []))"
proof -
  have "client_wf c1"
    using run_wf [OF Close_run [OF assms(1)] assms(1)] assms(2) by (metis fst_conv)
  then have "evolves c1 c'"
    using run_wf [OF assms(3)] by blast
  moreover have "pool_closed (c_pool c1)" "ctx_err c1 \<noteq> None"
    using assms(2) by (auto simp: client_Close_def Let_def on_pool_def pool_Close_def split: option.splits)
  ultimately have c': "pool_closed (c_pool c')" "suspended c'"
    by (auto simp: evolves_def suspended_def)
  with closed_never_blocks [OF c'(1)] show ?thesis
    by (simp add: lane_once_def isClosed_def)
qed

subsection \<open>Examples\<close>

lemma others_run_id [simp]: "others_run pf id"
  by (simp add: others_run_def)

lemma sample_fetch_runs: "fetch_runs pf sample_fetch_env"
  by (simp add: fetch_runs_def sample_fetch_env_def)

lemma sample_runs: "attempt_runs pf good_attempt" "lane_runs pf sample_lane"
  by (simp_all add: attempt_runs_def good_attempt_alone lane_runs_def sample_lane_def)

theorem running_client_invariant_witness:
  "\<exists>c. New sample_platform (sample_boot_codecs []) sample_boot (Some sample_config) [] = Inr c \<and>
     gate_wf (c_gate (Pause c)) \<and> providers (Pause c) \<noteq> []"
proof -
  obtain c where c: "New sample_platform (sample_boot_codecs []) sample_boot (Some sample_config) [] = Inr c"
    using sample_New by blast
  have "client_runs sample_platform c (Pause c)"
    by (rule r_into_rtranclp) (rule client_step.pausing)
  from running_client_invariant [OF c this] c show ?thesis by blast
qed

lemma sample_dial_ok:
  assumes "IpAddress fr = ''13.224.0.1''" and "SNI fr = ''amazon.com''" and "VerifyHostname fr = Some ''d5678.cloudfront.net''"
  shows "dr_err (fst (dialFront sample_dial_env fr roots h)) = None"
proof -
  have "dial_addr ''13.224.0.1'' = ''13.224.0.1:443''"
    by (simp add: dial_addr_def SplitHostPort_no_colon JoinHostPort_def)
  with assms show ?thesis
    by (simp add: dialFront_def sample_dial_env_def front_tls_config_def verifyPeerCertificate_def Let_def)
qed

lemma sample_dial_conn:
  assumes "IpAddress fr = ''13.224.0.1''" and "SNI fr = ''amazon.com''" and "VerifyHostname fr = Some ''d5678.cloudfront.net''"
  shows "\<exists>conn. dr_conn (fst (dialFront sample_dial_env fr roots h)) = Some conn"
  using dialFront_result [OF surjective_pairing, of sample_dial_env fr roots h] sample_dial_ok [OF assms] by auto

text \<open>The front of a started client, as it is dialed.\<close>

lemma sample_front_fields:
  assumes "ident p 0 = ident sample_front_pool 0"
  shows "IpAddress (mem p 0) = ''13.224.0.1''" "SNI (mem p 0) = ''amazon.com''"
    "VerifyHostname (mem p 0) = Some ''d5678.cloudfront.net''" "ProviderID (mem p 0) = ''cloudfront''"
proof -
  have "ident sample_front_pool 0 = (sample_edge, ''cloudfront'')"
    unfolding sample_front_pool_def
    by (simp add: Replace_fields) (simp add: ident_def alloc_front_def newFront_def newFrontPool_fields masquerade.defs)
  with assms show "IpAddress (mem p 0) = ''13.224.0.1''" "SNI (mem p 0) = ''amazon.com''"
    "VerifyHostname (mem p 0) = Some ''d5678.cloudfront.net''" "ProviderID (mem p 0) = ''cloudfront''"
    by (auto simp: ident_def masquerade.defs sample_edge_def sample_masquerade_def)
qed

theorem running_client_verifies_edges_witness:
  "\<exists>c roots cert ints. New sample_platform (sample_boot_codecs []) sample_boot (Some sample_config) [] = Inr c \<and>
     cert_Verify sample_dial_env cert \<lparr>Roots = roots, CurrentTime = dial_now sample_dial_env,
       DNSName = ''d5678.cloudfront.net'', Intermediates = ints\<rparr> = None"
proof -
  obtain c where c: "New sample_platform (sample_boot_codecs []) sample_boot (Some sample_config) [] = Inr c"
    "c_pool c = sample_front_pool"
    using sample_New by blast
  note fr = sample_front_fields [of "c_pool c", unfolded c(2), OF refl, folded c(2)]
  obtain res evs where d: "dialFront sample_dial_env (mem (c_pool c) 0) (certPool sample_platform c) (clientHelloID c) = (res, evs)"
    by fastforce
  have "dr_err res = None"
    using sample_dial_ok [OF fr(1-3), of "certPool sample_platform c" "clientHelloID c"] d by simp
  moreover have "0 < next_ref (c_pool c)"
    by (simp add: c(2) sample_front_pool_fields)
  moreover have "verified_name (mem (c_pool c) 0) = ''d5678.cloudfront.net''"
    using fr by (simp add: verified_name_def)
  ultimately show ?thesis
    using running_client_verifies_edges [OF c(1) rtranclp.rtrancl_refl _ sample_handshake_law d] c(1) by metis
qed

text \<open>A started client whose front is ready, and a request on it.\<close>

lemma sample_front_ready:
  "pool_ok (addReady 0 sample_front_pool)" "ready (addReady 0 sample_front_pool) = [0]"
  "ident (addReady 0 sample_front_pool) = ident sample_front_pool" "\<not> pool_closed (addReady 0 sample_front_pool)"
proof -
  have f: "ready_cap sample_front_pool = 500" "\<not> pool_closed sample_front_pool"
    by (simp_all add: sample_front_pool_def Replace_fields alloc_front_def newFrontPool_def)
  have "pool_ok sample_front_pool"
    using sample_New New_client by (metis client_wf_def pool_wf_def)
  with f show "pool_ok (addReady 0 sample_front_pool)" "ready (addReady 0 sample_front_pool) = [0]"
    "ident (addReady 0 sample_front_pool) = ident sample_front_pool" "\<not> pool_closed (addReady 0 sample_front_pool)"
    by (simp_all add: addReady_ok addReady_ready addReady_fields sample_front_pool_fields)
qed

lemma sample_request_sent:
  assumes "c_pool c = addReady 0 sample_front_pool" and "providers c = [(''cloudfront'', sample_expanded)]"
    and "attempt_once sample_platform sample_attempt sample_request (\<lambda>_. Inr None) 0 {} c = (v, c', evs)"
  shows "EvSent 0 ''d1234.cloudfront.net'' \<in> set evs"
proof -
  have a: "others_take sample_attempt = id" "a_env sample_attempt = sample_dial_env"
    by (simp_all add: sample_attempt_def)
  from assms(3) show ?thesis
  proof (cases rule: attempt_once_cases)
    case (took f p evs')
    let ?d = "c\<lparr>c_pool := p\<rparr>"
    have t: "TakePreferringUntried (a_pick sample_attempt) (a_ctx sample_attempt) {} (c_pool c) = (Took f, p)"
      using took(1) by (simp add: a)
    have f: "f = 0"
      using TakePreferringUntried_took [OF _ t] sample_front_ready(1,2) by (simp add: assms(1))
    have "ident p = ident sample_front_pool"
      using TakePreferringUntried_fields(5) [OF t] sample_front_ready(3) by (simp add: assms(1))
    then have fr: "IpAddress (mem p 0) = ''13.224.0.1''" "SNI (mem p 0) = ''amazon.com''"
      "VerifyHostname (mem p 0) = Some ''d5678.cloudfront.net''" "ProviderID (mem p 0) = ''cloudfront''"
      by (simp_all add: sample_front_fields)
    then have p: "providerFor ?d (mem (c_pool ?d) 0) = Some sample_expanded"
      by (simp add: providerFor_def assms(2))
    have dial: "dr_err (fst (dialFront sample_dial_env (mem (c_pool ?d) 0) r h)) = None" for r h
      using sample_dial_ok [OF fr(1-3)] by simp
    have "attempt_front sample_platform sample_attempt sample_request (\<lambda>_. Inr None) 0 {} 0 ?d = (v, c', evs')"
      using took(2) by (simp add: a f)
    then have "EvSent 0 ''d1234.cloudfront.net'' \<in> set evs'"
    proof (cases rule: attempt_front_cases)
      case (no_dial provider res nevs e)
      with dial show ?thesis by (metis a(2) fst_conv option.distinct(1))
    next
      case (dialed provider res nevs conn evs2)
      with p sample_lookup have r: "attempt_request sample_platform sample_attempt sample_request (\<lambda>_. Inr None) 0 {} 0
          (ProviderID (mem (c_pool ?d) 0)) ''d1234.cloudfront.net'' conn (others_dial sample_attempt ?d) = (v, c', evs2)"
        by simp
      from r dialed(7) show ?thesis
        by (cases rule: attempt_request_cases) auto
    qed (use p sample_lookup in auto)
    then show ?thesis by (simp add: took(3))
  qed (use sample_front_ready in \<open>simp_all add: a assms(1) sample_attempt_def\<close>)
qed


theorem closed_for_good_witness:
  "\<exists>c1 d'. client_Close (\<lambda>_. Inr ''[]'') WriteOk id id sample_client Map.empty = (c1, d') \<and>
     pool_closed (c_pool (notifyCacheDirty c1)) \<and> suspended (notifyCacheDirty c1)"
proof -
  obtain c1 d' where c1: "client_Close (\<lambda>_. Inr ''[]'') WriteOk id id sample_client Map.empty = (c1, d')"
    by fastforce
  have "client_runs sample_platform c1 (notifyCacheDirty c1)"
    by (rule r_into_rtranclp) (rule client_step.notify)
  from closed_for_good [OF sample_client_wf c1 this] c1 show ?thesis by blast
qed

end
