(* ===== verification/Loops.thy ===== *)
theory Loops
  imports System
begin

text \<open>
  The goroutines that \<open>New\<close> starts (\<open>crawler\<close>, \<open>cacheSaver\<close> and \<open>configUpdater\<close> in \<open>domainfront.go\<close>): their loops
  as step relations over the shared client and the disk, with the places where each can be as the
  program counters, and all of them together with the callers of the client.
  A timer may fire whenever its loop waits for it; the updater's ticker has a channel of capacity 1.
\<close>

subsection \<open>The crawler\<close>

datatype crawler_pc = CrWait waiter | CrPass crawl | CrSleep int | CrDone

abbreviation ended :: "client \<Rightarrow> bool" where
  "ended c \<equiv> ctx_err c \<noteq> None"

inductive crawler_step :: "platform \<Rightarrow> client \<Rightarrow> crawler_pc \<Rightarrow> client \<Rightarrow> crawler_pc \<Rightarrow> bool" for pf :: platform where
  cr_waiting: "waiter_step (c_gate c) (ended c) w v \<Longrightarrow> crawler_step pf c (CrWait w) c (CrWait v)"
| cr_refused: "crawler_step pf c (CrWait (Finished False)) c CrDone"
| cr_due: "crawler_due c \<Longrightarrow> crawler_step pf c (CrWait (Finished True)) c (CrPass (crawlAllFronts ties draw envs eds c))"
| cr_not_due: "\<not> crawler_due c \<Longrightarrow> crawler_step pf c (CrWait (Finished True)) c (CrSleep (nextCrawlDelay n c))"
| cr_crawling: "crawl_step pf (s\<lparr>cl := c\<rparr>) t \<Longrightarrow> crawler_step pf c (CrPass s) (cl t) (CrPass t)"
| cr_pass_over: "crawl_finished s \<Longrightarrow> crawler_step pf c (CrPass s) c (CrSleep (nextCrawlDelay n c))"
| cr_fired: "crawler_step pf c (CrSleep d) c (CrWait Checking)"
| cr_ended: "ended c \<Longrightarrow> crawler_step pf c (CrSleep d) c CrDone"

subsection \<open>The cache saver\<close>

datatype saver_pc = SvSleep | SvWait waiter | SvDone

inductive saver_step ::
  "(cachedFront list \<Rightarrow> goerr + string) \<Rightarrow> client \<Rightarrow> disk \<Rightarrow> saver_pc \<Rightarrow> client \<Rightarrow> disk \<Rightarrow> saver_pc \<Rightarrow> bool"
  for json_Marshal :: "cachedFront list \<Rightarrow> goerr + string" where
  sv_ended: "ended c \<Longrightarrow> saver_step json_Marshal c d SvSleep c d SvDone"
| sv_fired: "saver_step json_Marshal c d SvSleep c d (SvWait Checking)"
| sv_waiting: "waiter_step (c_gate c) (ended c) w v \<Longrightarrow> saver_step json_Marshal c d (SvWait w) c d (SvWait v)"
| sv_refused: "saver_step json_Marshal c d (SvWait (Finished False)) c d SvDone"
| sv_tick: "cacheSaver_tick json_Marshal out ties draw c d = (c', d') \<Longrightarrow>
    saver_step json_Marshal c d (SvWait (Finished True)) c' d' SvSleep"

subsection \<open>The config updater\<close>

text \<open>
  The flag says whether the ticker's channel holds a tick. A refresh is one step here: what the other
  goroutines do during it is in its \<open>world\<close>.
\<close>

datatype updater_pc = UpFetch bool | UpSleep bool | UpDone

record web =
  w_ParseTime :: "string \<Rightarrow> bool"
  w_Marshal :: "configMetadata \<Rightarrow> goerr + string"
  w_Do :: "string \<Rightarrow> fetch_request \<Rightarrow> goerr + fetch_response"

inductive updater_step ::
  "platform \<Rightarrow> web \<Rightarrow> client \<Rightarrow> disk \<Rightarrow> updater_pc \<Rightarrow> client \<Rightarrow> disk \<Rightarrow> updater_pc \<Rightarrow> bool"
  for pf :: platform and wb :: web where
  up_fetched: "\<forall>i. fetch_runs pf (world i) \<Longrightarrow>
    fetchAndApplyConfig pf (w_ParseTime wb) (w_Marshal wb) (w_Do wb) world out c d = FEnd s \<Longrightarrow>
    updater_step pf wb c d (UpFetch b) (fs_client s) (fs_disk s) (UpSleep b)"
| up_ticked: "updater_step pf wb c d (UpSleep True) c d (UpFetch False)"
| up_ended: "ended c \<Longrightarrow> updater_step pf wb c d (UpSleep b) c d UpDone"

subsection \<open>All of them\<close>

record bg =
  bg_client :: client
  bg_disk :: disk
  bg_crawler :: crawler_pc
  bg_saver :: saver_pc
  bg_updater :: updater_pc

text \<open>The goroutines' own steps, and those of the world around: the callers of the client and the ticker.\<close>

inductive bg_own :: "platform \<Rightarrow> web \<Rightarrow> (cachedFront list \<Rightarrow> goerr + string) \<Rightarrow> bg \<Rightarrow> bg \<Rightarrow> bool"
  for pf :: platform and wb :: web and json_Marshal :: "cachedFront list \<Rightarrow> goerr + string" where
  crawler: "crawler_step pf (bg_client s) (bg_crawler s) c p \<Longrightarrow>
    bg_own pf wb json_Marshal s (s\<lparr>bg_client := c, bg_crawler := p\<rparr>)"
| saver: "saver_step json_Marshal (bg_client s) (bg_disk s) (bg_saver s) c d p \<Longrightarrow>
    bg_own pf wb json_Marshal s (s\<lparr>bg_client := c, bg_disk := d, bg_saver := p\<rparr>)"
| updater: "updater_step pf wb (bg_client s) (bg_disk s) (bg_updater s) c d p \<Longrightarrow>
    bg_own pf wb json_Marshal s (s\<lparr>bg_client := c, bg_disk := d, bg_updater := p\<rparr>)"

fun tick :: "updater_pc \<Rightarrow> updater_pc" where
  "tick (UpFetch b) = UpFetch True"
| "tick (UpSleep b) = UpSleep True"
| "tick UpDone = UpDone"

inductive bg_env :: "platform \<Rightarrow> bg \<Rightarrow> bg \<Rightarrow> bool" for pf :: platform where
  callers: "client_step pf (bg_client s) c \<Longrightarrow> bg_env pf s (s\<lparr>bg_client := c\<rparr>)"
| ticks: "bg_env pf s (s\<lparr>bg_updater := tick (bg_updater s)\<rparr>)"

definition bg_step :: "platform \<Rightarrow> web \<Rightarrow> (cachedFront list \<Rightarrow> goerr + string) \<Rightarrow> bg \<Rightarrow> bg \<Rightarrow> bool" where
  "bg_step pf wb json_Marshal s t \<longleftrightarrow> bg_own pf wb json_Marshal s t \<or> bg_env pf s t"

text \<open>What \<open>New\<close> starts: the updater runs only when there are URLs to fetch from, and it fetches at once.\<close>

definition start_goroutines :: "client \<Rightarrow> disk \<Rightarrow> bg" where
  "start_goroutines c d =
     \<lparr>bg_client = c, bg_disk = d, bg_crawler = CrWait Checking, bg_saver = SvSleep,
      bg_updater = (if length (configURLs c) > 0 then UpFetch False else UpDone)\<rparr>"

text \<open>What \<open>Close\<close> waits for before it saves the cache.\<close>

definition all_done :: "bg \<Rightarrow> bool" where
  "all_done s \<longleftrightarrow> bg_crawler s = CrDone \<and> bg_saver s = SvDone \<and> bg_updater s = UpDone"

inductive_cases crawler_stepE: "crawler_step pf c p c' p'"
inductive_cases saver_stepE: "saver_step js c d p c' d' p'"
inductive_cases updater_stepE: "updater_step pf wb c d p c' d' p'"

subsection \<open>The goroutines are runs of the client\<close>

definition crawling_ok :: "client \<Rightarrow> crawler_pc \<Rightarrow> bool" where
  "crawling_ok c p \<longleftrightarrow> (case p of
     CrPass s \<Rightarrow> crawl_inv {f. f < next_ref (c_pool c)} (nat (crawlerConcurrency c)) s
   | _ \<Rightarrow> True)"

definition bg_inv :: "bg \<Rightarrow> bool" where
  "bg_inv s \<longleftrightarrow> client_wf (bg_client s) \<and> 1 \<le> crawlerConcurrency (bg_client s) \<and> crawling_ok (bg_client s) (bg_crawler s)"

lemma crawl_inv_mono: "crawl_inv A n s \<Longrightarrow> A \<subseteq> B \<Longrightarrow> crawl_inv B n s"
  by (auto simp: crawl_inv_def)

lemma crawl_inv_cl [simp]: "crawl_inv A n (s\<lparr>cl := c\<rparr>) = crawl_inv A n s"
  by (simp add: crawl_inv_def in_flight_def pending_list_def)

lemma crawling_ok_evolves: "crawling_ok c p \<Longrightarrow> evolves c c' \<Longrightarrow> crawling_ok c' p"
  by (auto simp: crawling_ok_def evolves_def elim: crawl_inv_mono split: crawler_pc.splits)

lemma crawler_step_run:
  assumes "crawler_step pf c p c' p'" and "client_wf c" and "1 \<le> crawlerConcurrency c" and "crawling_ok c p"
  shows "client_runs pf c c' \<and> crawling_ok c' p'"
  using assms
proof (induction rule: crawler_step.induct)
  case (cr_due c ties draw envs eds)
  have "set (fronts (c_pool c)) \<subseteq> {f. f < next_ref (c_pool c)}" and "distinct (fronts (c_pool c))"
    using cr_due(2) by (auto simp: client_wf_def)
  then show ?case
    using crawl_inv_mono [OF crawl_inv_start] by (simp add: crawling_ok_def)
next
  case (cr_crawling c s t)
  let ?n = "next_ref (c_pool c)"
  let ?k = "nat (crawlerConcurrency c)"
  from cr_crawling have i: "crawl_inv {f. f < ?n} ?k (s\<lparr>cl := c\<rparr>)"
    by (simp_all add: crawling_ok_def)
  then have v: "\<forall>f\<in>set (vetting (s\<lparr>cl := c\<rparr>)). f < ?n"
    by (auto simp: crawl_inv_def)
  have r: "run_to pf c ?n (cl (s\<lparr>cl := c\<rparr>))"
    using run_all [OF run_start [OF cr_crawling(2)]] by simp
  have t: "run_to pf c ?n (cl t)" "crawl_inv {f. f < ?n} ?k t"
    using crawl_step_run [OF cr_crawling(1) r v] crawl_inv_own [OF cr_crawling(1) i] .
  have "crawlerConcurrency (cl t) = crawlerConcurrency c"
    using run_wf [of pf c "cl t"] t(1) cr_crawling(2) by (simp add: run_to_def evolves_def)
  moreover have "crawl_inv {f. f < next_ref (c_pool (cl t))} ?k t"
    by (rule crawl_inv_mono [OF t(2)]) (use t(1) in \<open>auto simp: run_to_def\<close>)
  ultimately show ?case
    using t(1) by (simp add: run_to_def crawling_ok_def)
qed (simp_all add: crawling_ok_def)

lemma bg_own_run:
  assumes "bg_own pf wb js s t" and "bg_inv s"
  shows "bg_inv t \<and> client_runs pf (bg_client s) (bg_client t)"
proof -
  have run: "client_runs pf (bg_client s) (bg_client t) \<and> crawling_ok (bg_client t) (bg_crawler t)"
    using assms
  proof (induction rule: bg_own.induct)
    case (crawler s c p)
    with crawler_step_run [OF crawler(1)] show ?case by (simp add: bg_inv_def)
  next
    case (saver s c d p)
    have "client_runs pf (bg_client s) c"
      using saver(1) cacheSaver_run by (auto elim!: saver_stepE) (metis fst_conv)
    with saver(2) run_wf [OF this] crawling_ok_evolves show ?case
      by (auto simp: bg_inv_def)
  next
    case (updater s c d p)
    have "client_runs pf (bg_client s) c"
      using updater fetch_run by (auto simp: bg_inv_def elim!: updater_stepE)
    with updater(2) run_wf [OF this] crawling_ok_evolves show ?case
      by (auto simp: bg_inv_def)
  qed
  with run_wf [of pf "bg_client s" "bg_client t"] assms(2) show ?thesis
    by (auto simp: bg_inv_def evolves_def)
qed

lemma bg_env_run:
  assumes "bg_env pf s t" and "bg_inv s"
  shows "bg_inv t \<and> client_runs pf (bg_client s) (bg_client t)"
  using assms
proof (induction rule: bg_env.induct)
  case (callers s c)
  with client_step_wf [OF callers(1)] crawling_ok_evolves show ?case
    by (auto simp: bg_inv_def evolves_def)
qed (simp add: bg_inv_def)

definition bg_start :: "platform \<Rightarrow> bg \<Rightarrow> bool" where
  "bg_start pf s \<longleftrightarrow> (\<exists>c d. started_client pf c \<and> s = start_goroutines c d)"

lemma bg_inv_start: "started_client pf c \<Longrightarrow> bg_inv (start_goroutines c d)"
  using system_run.inv_init [of pf c] by (simp add: bg_inv_def start_goroutines_def system_inv_def crawling_ok_def)

interpretation bg_run: invariant "bg_start pf" "bg_step pf wb js" bg_inv for pf wb js
  by unfold_locales (use bg_inv_start bg_own_run bg_env_run in \<open>auto simp: bg_start_def bg_step_def\<close>)

lemma bg_runs:
  assumes "(bg_step pf wb js)\<^sup>*\<^sup>* s t" and "bg_inv s"
  shows "client_runs pf (bg_client s) (bg_client t)"
  using assms
proof (induction rule: rtranclp_induct)
  case (step t u)
  have "bg_inv t"
    using bg_run.inv_steps [OF step.hyps(1) step.prems] .
  with step bg_own_run bg_env_run show ?case
    unfolding bg_step_def by (meson rtranclp_trans)
qed simp

subsection \<open>How the goroutines end\<close>

text \<open>
  Once the context has ended, every step of a goroutine brings it nearer its end; the distance does not
  depend on the client, so nothing the callers do sets it back.
\<close>

fun wait_rank :: "waiter \<Rightarrow> nat" where
  "wait_rank (Finished False) = 1"
| "wait_rank Checking = 2"
| "wait_rank (Sleeping c) = 3"
| "wait_rank (Finished True) = 6"
| "wait_rank Checked = 7"

fun crawler_rank :: "crawler_pc \<Rightarrow> nat \<times> nat" where
  "crawler_rank CrDone = (0, 0)"
| "crawler_rank (CrWait w) = (wait_rank w, 0)"
| "crawler_rank (CrSleep d) = (4, 0)"
| "crawler_rank (CrPass s) = (5, crawl_work s)"

fun saver_rank :: "saver_pc \<Rightarrow> nat" where
  "saver_rank SvDone = 0"
| "saver_rank (SvWait w) = wait_rank w"
| "saver_rank SvSleep = 4"

fun updater_rank :: "updater_pc \<Rightarrow> nat" where
  "updater_rank UpDone = 0"
| "updater_rank (UpSleep b) = 1 + 2 * of_bool b"
| "updater_rank (UpFetch b) = 2 + 2 * of_bool b"

definition end_order :: "(bg \<times> bg) set" where
  "end_order = inv_image (less_than <*lex*> less_than <*lex*> less_than <*lex*> less_than)
     (\<lambda>s. (fst (crawler_rank (bg_crawler s)), snd (crawler_rank (bg_crawler s)), saver_rank (bg_saver s),
           updater_rank (bg_updater s)))"

lemma wf_end_order: "wf end_order"
  by (auto simp: end_order_def)

lemma waiter_step_rank: "waiter_step g True w v \<Longrightarrow> wait_rank v < wait_rank w"
  by (auto elim: waiter_stepE)

lemma crawler_step_rank:
  assumes "crawler_step pf c p c' p'" and "ended c"
  shows "(crawler_rank p', crawler_rank p) \<in> less_than <*lex*> less_than"
  using assms
proof (induction rule: crawler_step.induct)
  case (cr_waiting c w v)
  then show ?case using waiter_step_rank by fastforce
next
  case (cr_crawling c s t)
  then show ?case using crawl_step_work [OF cr_crawling(1)] by simp
qed simp_all

lemma saver_step_rank: "saver_step js c d p c' d' p' \<Longrightarrow> ended c \<Longrightarrow> saver_rank p' < saver_rank p"
proof (induction rule: saver_step.induct)
  case (sv_waiting c w v d)
  then show ?case using waiter_step_rank by fastforce
qed simp_all

lemma updater_step_rank: "updater_step pf wb c d p c' d' p' \<Longrightarrow> updater_rank p' < updater_rank p"
  by (induction rule: updater_step.induct) auto

lemma bg_own_rank:
  assumes "bg_own pf wb js s t" and "ended (bg_client s)"
  shows "(t, s) \<in> end_order"
  using assms
proof (induction rule: bg_own.induct)
  case (crawler s c p)
  then show ?case using crawler_step_rank [OF crawler(1,2)] by (cases "crawler_rank p"; cases "crawler_rank (bg_crawler s)") (auto simp: end_order_def)
next
  case (saver s c d p)
  then show ?case using saver_step_rank [OF saver(1,2)] by (simp add: end_order_def)
next
  case (updater s c d p)
  then show ?case using updater_step_rank [OF updater(1)] by (simp add: end_order_def)
qed

lemma client_step_ended: "client_step pf c c' \<Longrightarrow> ended c \<Longrightarrow> ended c'"
proof (induction rule: client_step.induct)
  case (resuming c c')
  then show ?case using Resume_Inr by fastforce
qed (simp_all add: notifyCacheDirty_def Pause_def rememberConfigValidator_def)

lemma client_runs_ended: "client_runs pf c c' \<Longrightarrow> ended c \<Longrightarrow> ended c'"
  by (induction rule: rtranclp_induct) (auto dest: client_step_ended)

text \<open>No goroutine is ever stuck after that.\<close>

lemma waiter_not_stuck: "w \<noteq> Finished b \<Longrightarrow> w \<noteq> Finished (\<not> b) \<Longrightarrow> \<exists>v. waiter_step g True w v"
  by (cases w) (auto simp: waiter_step_simps)

lemma crawler_not_stuck:
  assumes "ended c" and "crawling_ok c p" and "1 \<le> crawlerConcurrency c" and "p \<noteq> CrDone"
    and "\<And>s. p = CrPass s \<Longrightarrow> hung s = []"
  shows "\<exists>c' p'. crawler_step pf c p c' p'"
proof (cases p)
  case (CrWait w)
  show ?thesis
  proof (cases "\<exists>b. w = Finished b")
    case True
    then obtain b where "w = Finished b" by blast
    then show ?thesis
      using crawler_step.cr_refused crawler_step.cr_due crawler_step.cr_not_due CrWait by (cases b) metis+
  next
    case False
    then obtain v where "waiter_step (c_gate c) True w v"
      using waiter_not_stuck [of w True] by blast
    then show ?thesis
      using assms(1) crawler_step.cr_waiting [of c w v] CrWait by auto
  qed
next
  case (CrPass s)
  show ?thesis
  proof (cases "crawl_finished s")
    case False
    then have "\<not> crawl_finished (s\<lparr>cl := c\<rparr>)" by (simp add: crawl_finished_def)
    moreover have "0 < slots (s\<lparr>cl := c\<rparr>)" "hung (s\<lparr>cl := c\<rparr>) = []"
      using assms(2,3,5) CrPass by (auto simp: crawling_ok_def crawl_inv_def)
    ultimately obtain t where "crawl_step pf (s\<lparr>cl := c\<rparr>) t" using crawl_not_stuck by blast
    then show ?thesis using crawler_step.cr_crawling CrPass by blast
  qed (use CrPass crawler_step.cr_pass_over in blast)
qed (use assms crawler_step.cr_ended in blast)+

lemma saver_not_stuck:
  assumes "ended c" and "p \<noteq> SvDone"
  shows "\<exists>c' d' p'. saver_step js c d p c' d' p'"
proof (cases p)
  case (SvWait w)
  show ?thesis
  proof (cases "\<exists>b. w = Finished b")
    case True
    then obtain b where b: "w = Finished b" by blast
    obtain c' d' where "cacheSaver_tick js WriteOk id id c d = (c', d')" by fastforce
    then show ?thesis
      using saver_step.sv_refused saver_step.sv_tick SvWait b by (cases b) metis+
  next
    case False
    then obtain v where "waiter_step (c_gate c) True w v"
      using waiter_not_stuck [of w True] by blast
    with assms(1) have "waiter_step (c_gate c) (ended c) w v" by simp
    then show ?thesis
      using saver_step.sv_waiting SvWait by blast
  qed
qed (use assms saver_step.sv_ended in blast)+

lemma fetch_when_ended:
  assumes "ended c"
  shows "\<exists>world s. (\<forall>i. fetch_runs pf (world i)) \<and> fetchAndApplyConfig pf pt js http_Do world out c d = FEnd s"
proof -
  have "\<exists>s. fetchAndApplyConfig pf pt js http_Do (\<lambda>_. sample_fetch_env) out c d = FEnd s"
    using assms by (cases "configURLs c") (auto simp: fetchAndApplyConfig_def collect_once_def sample_fetch_env_def)
  then show ?thesis by (intro exI [of _ "\<lambda>_. sample_fetch_env"]) (simp add: sample_fetch_runs)
qed

lemma updater_not_stuck:
  assumes "ended c" and "p \<noteq> UpDone"
  shows "\<exists>c' d' p'. updater_step pf wb c d p c' d' p'"
proof (cases p)
  case (UpFetch b)
  obtain world s where "\<forall>i. fetch_runs pf (world i)"
    "fetchAndApplyConfig pf (w_ParseTime wb) (w_Marshal wb) (w_Do wb) world WriteOk c d = FEnd s"
    using fetch_when_ended [OF assms(1)] by blast
  with UpFetch updater_step.up_fetched show ?thesis by metis
qed (use assms updater_step.up_ended in blast)+

text \<open>The crawl pass, if there is one, in which no vet hangs, or will hang if no other begins.\<close>

definition answered :: "bg \<Rightarrow> bool" where
  "answered s \<longleftrightarrow> (case bg_crawler s of
     CrPass t \<Rightarrow> hung t = [] \<and> (\<forall>f\<in>set (vetting t). answers (edges t f))
   | _ \<Rightarrow> True)"

definition hanging :: "bg \<Rightarrow> bool" where
  "hanging s \<longleftrightarrow> (case bg_crawler s of CrPass t \<Rightarrow> hung t \<noteq> [] | _ \<Rightarrow> False)"

lemma crawler_step_answered:
  assumes "crawler_step pf c p c' p'" and "ended c" and "answered (s\<lparr>bg_crawler := p\<rparr>)"
  shows "answered (u\<lparr>bg_crawler := p'\<rparr>)"
  using assms
proof (induction rule: crawler_step.induct)
  case (cr_crawling c s t)
  have "suspended (cl (s\<lparr>cl := c\<rparr>))"
    using cr_crawling(2) by (simp add: suspended_def)
  then have v: "set (vetting t) \<subseteq> set (vetting s)"
    using begins_only_unsuspended [OF cr_crawling(1)] by auto
  have "f \<notin> set (hung t)" for f
    using crawl_step_hangs [OF cr_crawling(1), of f] cr_crawling(3) by (auto simp: answered_def)
  then have "hung t = []"
    by (metis last_in_set)
  with v crawl_step_net [OF cr_crawling(1)] cr_crawling(3) show ?case
    by (auto simp: answered_def)
qed (simp_all add: answered_def crawlAllFronts_def)

lemma crawler_step_hanging:
  assumes "crawler_step pf c p c' p'" and "hanging (s\<lparr>bg_crawler := p\<rparr>)"
  shows "hanging (u\<lparr>bg_crawler := p'\<rparr>)"
  using assms
proof (induction rule: crawler_step.induct)
  case (cr_crawling c s t)
  from crawl_step_hung [OF cr_crawling(1)] cr_crawling(2) show ?case
    by (auto simp: hanging_def)
qed (auto simp: hanging_def crawl_finished_def)

lemma bg_step_hanging: "bg_step pf wb js s t \<Longrightarrow> hanging s \<Longrightarrow> hanging t"
proof -
  assume "bg_step pf wb js s t" and h: "hanging s"
  then consider "bg_own pf wb js s t" | "bg_env pf s t"
    by (auto simp: bg_step_def)
  then show "hanging t"
  proof cases
    case 1
    then show ?thesis
    proof (cases rule: bg_own.cases)
      case (crawler c p)
      from crawler_step_hanging [OF crawler(2), of s] h show ?thesis by (simp add: crawler(1))
    qed (use h in \<open>simp_all add: hanging_def\<close>)
  next
    case 2
    then show ?thesis by (cases rule: bg_env.cases) (use h in \<open>simp_all add: hanging_def\<close>)
  qed
qed

lemma bg_step_answered: "bg_step pf wb js s t \<Longrightarrow> ended (bg_client s) \<Longrightarrow> answered s \<Longrightarrow> answered t"
proof -
  assume "bg_step pf wb js s t" and e: "ended (bg_client s)" and a: "answered s"
  then consider "bg_own pf wb js s t" | "bg_env pf s t"
    by (auto simp: bg_step_def)
  then show "answered t"
  proof cases
    case 1
    then show ?thesis
    proof (cases rule: bg_own.cases)
      case (crawler c p)
      from crawler_step_answered [OF crawler(2) e, of s] a show ?thesis by (simp add: crawler(1))
    qed (use a in \<open>simp_all add: answered_def\<close>)
  next
    case 2
    then show ?thesis by (cases rule: bg_env.cases) (use a in \<open>simp_all add: answered_def\<close>)
  qed
qed

lemma bg_hanging: "(bg_step pf wb js)\<^sup>*\<^sup>* s t \<Longrightarrow> hanging s \<Longrightarrow> hanging t"
  by (induction rule: rtranclp_induct) (auto intro: bg_step_hanging)

lemma bg_answered:
  assumes "(bg_step pf wb js)\<^sup>*\<^sup>* s t" and "bg_inv s" and "ended (bg_client s)" and "answered s"
  shows "answered t \<and> bg_inv t \<and> ended (bg_client t)"
  using assms
proof (induction rule: rtranclp_induct)
  case (step t u)
  have r: "(bg_step pf wb js)\<^sup>*\<^sup>* s u"
    using step.hyps by (rule rtranclp.rtrancl_into_rtrancl)
  from step have "answered u"
    using bg_step_answered by blast
  moreover have "ended (bg_client u)"
    using client_runs_ended [OF bg_runs [OF r step.prems(1)] step.prems(2)] .
  ultimately show ?case
    using bg_run.inv_steps [OF r step.prems(1)] by blast
qed simp

lemma bg_not_stuck:
  assumes "ended (bg_client s)" and "bg_inv s" and "answered s" and "\<not> all_done s"
  shows "\<exists>t. bg_own pf wb js s t"
proof -
  consider "bg_crawler s \<noteq> CrDone" | "bg_saver s \<noteq> SvDone" | "bg_updater s \<noteq> UpDone"
    using assms(4) by (auto simp: all_done_def)
  then show ?thesis
  proof cases
    case 1
    have "\<exists>c p. crawler_step pf (bg_client s) (bg_crawler s) c p"
      by (rule crawler_not_stuck [OF assms(1)]) (use 1 assms(2,3) in \<open>auto simp: bg_inv_def answered_def\<close>)
    then show ?thesis using bg_own.crawler by blast
  next
    case 2
    with saver_not_stuck [OF assms(1)] bg_own.saver show ?thesis by metis
  next
    case 3
    with updater_not_stuck [OF assms(1)] bg_own.updater show ?thesis by metis
  qed
qed

subsection \<open>The saver's way to the disk\<close>

lemma saver_saves:
  assumes "cacheDirty c" and "\<not> ended c" and "\<not> isPaused (c_gate c)" and "c_cache c = FileCache path"
    and "js (frontsToCache (candidates ties draw (c_pool c)) (maxCacheSize c) (c_pool c)) = Inr text"
    and "bg_client s = c" and "bg_saver s = SvSleep"
  shows "\<exists>t. (bg_own pf wb js)\<^sup>*\<^sup>* s t \<and> bg_saver t = SvSleep \<and> \<not> cacheDirty (bg_client t) \<and> bg_disk t path = Some text"
proof -
  let ?at = "\<lambda>p. s\<lparr>bg_client := c, bg_disk := bg_disk s, bg_saver := p\<rparr>"
  obtain c' d' where tick: "cacheSaver_tick js WriteOk ties draw c (bg_disk s) = (c', d')"
    by fastforce
  with assms(1,4,5) have saved: "\<not> cacheDirty c'" "d' path = Some text"
    by (auto simp: cacheSaver_tick_def saveCache_def cache_Save_def FileCache_Save_def writeFile_def Let_def)
  have go: "bg_own pf wb js (?at p) (?at q)" if "saver_step js c (bg_disk s) p c (bg_disk s) q" for p q
    using bg_own.saver [of js "?at p" c "bg_disk s" q pf wb] that by simp
  have "bg_own pf wb js (?at SvSleep) (?at (SvWait Checking))"
    by (rule go) (rule saver_step.sv_fired)
  moreover have "bg_own pf wb js (?at (SvWait Checking)) (?at (SvWait Checked))"
    by (rule go, rule saver_step.sv_waiting) (rule waiter_step.ctx_alive, rule assms(2))
  moreover have "bg_own pf wb js (?at (SvWait Checked)) (?at (SvWait (Finished True)))"
    by (rule go, rule saver_step.sv_waiting) (use assms(3) in \<open>simp add: isPaused_def waiter_step.running\<close>)
  moreover have "bg_own pf wb js (?at (SvWait (Finished True))) (s\<lparr>bg_client := c', bg_disk := d', bg_saver := SvSleep\<rparr>)"
    using bg_own.saver [of js "?at (SvWait (Finished True))" c' d' SvSleep pf wb] saver_step.sv_tick [OF tick] by simp
  ultimately have "(bg_own pf wb js)\<^sup>*\<^sup>* (?at SvSleep) (s\<lparr>bg_client := c', bg_disk := d', bg_saver := SvSleep\<rparr>)"
    by (meson converse_rtranclp_into_rtranclp r_into_rtranclp)
  moreover have "?at SvSleep = s"
    using assms(6,7) by (cases s) simp
  ultimately show ?thesis
    using saved by (intro exI [of _ "s\<lparr>bg_client := c', bg_disk := d', bg_saver := SvSleep\<rparr>"]) simp
qed

subsection \<open>Properties\<close>

text \<open>
  C9: the background crawl is bounded: in every state that the goroutines of a client from \<open>New\<close> reach, among
  its callers and the timers, a crawl pass in progress has at most \<open>crawlerConcurrency\<close> goroutines, those
  whose vet hangs included, where that number is the configured one, or 1 if it is less; each works on a
  front of its own that exists in the client's pool; and a goroutine begins a vet only while the context
  is alive and the client is not paused.
\<close>

theorem background_crawl_is_bounded:
  assumes "New pf bc b seed options = Inr c" and "(bg_step pf wb js)\<^sup>*\<^sup>* (start_goroutines c d) s" and "bg_crawler s = CrPass t"
  shows "length (started t) + length (vetting t) + length (hung t)
      \<le> nat (max 1 (crawlerConcurrency (fold apply_option options (default_client (b_ctx b) (b_chrome b))))) \<and>
    distinct (started t @ vetting t @ hung t @ vetted t) \<and>
    (\<forall>f\<in>set (started t @ vetting t @ hung t @ vetted t). f < next_ref (c_pool (bg_client s))) \<and>
    (\<forall>s' t' f. bg_own pf wb js s s' \<longrightarrow> bg_crawler s' = CrPass t' \<longrightarrow> f \<in> set (vetting t') \<longrightarrow> f \<notin> set (vetting t) \<longrightarrow>
       ctx_err (bg_client s) = None \<and> \<not> isPaused (c_gate (bg_client s)))"
proof -
  have st: "started_client pf c"
    using assms(1) by (auto simp: started_client_def)
  have inv: "bg_inv s"
    using bg_run.inv_steps [OF assms(2) bg_inv_start [OF st]] .
  have "crawlerConcurrency (bg_client s) = crawlerConcurrency c"
    using run_wf [OF bg_runs [OF assms(2) bg_inv_start [OF st]]] New_client [OF assms(1)]
    by (simp add: start_goroutines_def evolves_def)
  then have k: "crawlerConcurrency (bg_client s) =
      max 1 (crawlerConcurrency (fold apply_option options (default_client (b_ctx b) (b_chrome b))))"
    using New_concurrency [OF assms(1)] by simp
  have "\<not> suspended (bg_client s)"
    if "bg_own pf wb js s s'" "bg_crawler s' = CrPass t'" "f \<in> set (vetting t')" "f \<notin> set (vetting t)" for s' t' f
    using that(1)
  proof (cases rule: bg_own.cases)
    case (crawler e p)
    with that(2) assms(3) have "crawler_step pf (bg_client s) (CrPass t) e (CrPass t')" by simp
    then have "crawl_step pf (t\<lparr>cl := bg_client s\<rparr>) t'"
      by (cases rule: crawler_step.cases) simp
    from begins_only_unsuspended [OF this that(3)] that(4) show ?thesis by simp
  qed (use that(2-4) assms(3) in simp_all)
  with inv show ?thesis
    unfolding k [symmetric] bg_inv_def crawling_ok_def assms(3)
    by (auto simp: crawl_inv_def in_flight_def suspended_def)
qed

text \<open>
  C8: what \<open>Close\<close> waits for: once the context has ended, and if the edges of the vets in flight answer, the
  goroutines can in no later state get stuck before they have all ended, paused or not; and no run of
  their steps is infinite, whatever the callers do to the client in between; so they end and \<open>Close\<close>
  returns, given that they are scheduled and that at most finitely many ticks of the twelve-hour ticker
  come. But when a vet hangs in the pass, because its edge accepted the connection and never answers the
  POST, which has neither the context nor a deadline, the goroutines never all end, and \<open>Close\<close> waits for ever.
\<close>

theorem shutdown_ends:
  assumes "New pf bc b seed options = Inr c" and "(bg_step pf wb js)\<^sup>*\<^sup>* (start_goroutines c d) s" and "ended (bg_client s)"
  shows "(answered s \<longrightarrow> (\<forall>u. (bg_step pf wb js)\<^sup>*\<^sup>* s u \<longrightarrow> all_done u \<or> (\<exists>v. bg_own pf wb js u v))) \<and>
    (hanging s \<longrightarrow> (\<forall>u. (bg_step pf wb js)\<^sup>*\<^sup>* s u \<longrightarrow> \<not> all_done u)) \<and>
    wfP (\<lambda>t s. ended (bg_client s) \<and>
      (\<exists>c'. client_runs pf (bg_client s) c' \<and> bg_own pf wb js (s\<lparr>bg_client := c'\<rparr>) t))"
proof (intro conjI)
  have "started_client pf c"
    using assms(1) by (auto simp: started_client_def)
  from bg_run.inv_steps [OF assms(2) bg_inv_start [OF this]] have "bg_inv s" .
  with bg_answered [OF _ _ assms(3)] bg_not_stuck
  show "answered s \<longrightarrow> (\<forall>u. (bg_step pf wb js)\<^sup>*\<^sup>* s u \<longrightarrow> all_done u \<or> (\<exists>v. bg_own pf wb js u v))"
    by blast
  show "hanging s \<longrightarrow> (\<forall>u. (bg_step pf wb js)\<^sup>*\<^sup>* s u \<longrightarrow> \<not> all_done u)"
    using bg_hanging by (fastforce simp: hanging_def all_done_def)
  let ?R = "\<lambda>t s. ended (bg_client s) \<and>
      (\<exists>c'. client_runs pf (bg_client s) c' \<and> bg_own pf wb js (s\<lparr>bg_client := c'\<rparr>) t)"
  have "(t, s) \<in> end_order" if "?R t s" for t s
  proof -
    from that obtain c' where c': "client_runs pf (bg_client s) c'" "bg_own pf wb js (s\<lparr>bg_client := c'\<rparr>) t"
      by blast
    have "ended (bg_client (s\<lparr>bg_client := c'\<rparr>))"
      using client_runs_ended [OF c'(1)] that by simp
    from bg_own_rank [OF c'(2) this] show ?thesis
      by (simp add: end_order_def)
  qed
  then have "{(t, s). ?R t s} \<subseteq> end_order" by blast
  then show "wfP ?R"
    unfolding wfp_def by (rule wf_subset [OF wf_end_order])
qed

text \<open>
  Changes reach the disk: with a dirty cache, a running gate and a live context, the saver's own steps
  lead from its sleep to one where the file holds the entries of the pool as it is, and the mark is
  cleared before the entries are read, so a change after that marks the cache again.
\<close>

theorem dirty_cache_is_saved:
  assumes "cacheDirty c" and "\<not> ended c" and "\<not> isPaused (c_gate c)" and "c_cache c = FileCache path"
    and "js (frontsToCache (candidates ties draw (c_pool c)) (maxCacheSize c) (c_pool c)) = Inr text"
    and "bg_client s = c" and "bg_saver s = SvSleep"
  shows "\<exists>t. (bg_own pf wb js)\<^sup>*\<^sup>* s t \<and> bg_saver t = SvSleep \<and> \<not> cacheDirty (bg_client t) \<and> bg_disk t path = Some text"
  using assms by (rule saver_saves)

subsection \<open>Examples\<close>

definition sample_web :: web where
  "sample_web = \<lparr>w_ParseTime = (\<lambda>_. False), w_Marshal = (\<lambda>_. Inr ''m''), w_Do = sends_config\<rparr>"

text \<open>A pass takes its steps as the crawler.\<close>

lemma pass_steps:
  assumes "(crawl_step pf)\<^sup>*\<^sup>* p q"
  shows "(bg_own pf wb js)\<^sup>*\<^sup>* (s\<lparr>bg_client := cl p, bg_crawler := CrPass p\<rparr>) (s\<lparr>bg_client := cl q, bg_crawler := CrPass q\<rparr>)"
  using assms
proof (induction rule: rtranclp_induct)
  case (step q r)
  have "crawler_step pf (cl q) (CrPass q) (cl r) (CrPass r)"
    by (rule crawler_step.cr_crawling) (simp add: step.hyps(2))
  then have "bg_own pf wb js (s\<lparr>bg_client := cl q, bg_crawler := CrPass q\<rparr>) (s\<lparr>bg_client := cl r, bg_crawler := CrPass r\<rparr>)"
    using bg_own.crawler [of pf "s\<lparr>bg_client := cl q, bg_crawler := CrPass q\<rparr>"] by simp
  with step.IH show ?case
    by (rule rtranclp.rtrancl_into_rtrancl)
qed simp

text \<open>The crawler of a started client begins to vet the only front.\<close>

definition sample_pass :: "client \<Rightarrow> (fref \<Rightarrow> edge) \<Rightarrow> crawl" where
  "sample_pass c eds = (crawlAllFronts id id (\<lambda>_. sample_dial_env) eds c)\<lparr>todo := [], vetting := [0]\<rparr>"

lemma sample_pass_fields:
  "cl (sample_pass c eds) = c" "vetting (sample_pass c eds) = [0]" "started (sample_pass c eds) = []"
  "hung (sample_pass c eds) = []" "edges (sample_pass c eds) = eds" "dials (sample_pass c eds) = (\<lambda>_. sample_dial_env)"
  by (simp_all add: sample_pass_def crawlAllFronts_def)

lemma sample_vetting:
  assumes "c_pool c = sample_front_pool" and "ctx_err c = None" and "c_gate c = newPauseGate" and "crawlerConcurrency c = 10"
  shows "(bg_own sample_platform wb js)\<^sup>*\<^sup>* (start_goroutines c d) ((start_goroutines c d)\<lparr>bg_crawler := CrPass (sample_pass c eds)\<rparr>)"
proof -
  let ?at = "\<lambda>p. (start_goroutines c d)\<lparr>bg_client := c, bg_crawler := p\<rparr>"
  let ?p = "crawlAllFronts id id (\<lambda>_. sample_dial_env) eds c"
  have go: "bg_own sample_platform wb js (?at p) (?at q)" if "crawler_step sample_platform c p c q" for p q
    using bg_own.crawler [of sample_platform "?at p" c q] that by simp
  have 1: "bg_own sample_platform wb js (?at (CrWait Checking)) (?at (CrWait Checked))"
    by (rule go, rule crawler_step.cr_waiting) (simp add: assms(2) waiter_step.ctx_alive)
  have 2: "bg_own sample_platform wb js (?at (CrWait Checked)) (?at (CrWait (Finished True)))"
    by (rule go, rule crawler_step.cr_waiting) (simp add: assms(3) newPauseGate_def waiter_step.running)
  have 3: "bg_own sample_platform wb js (?at (CrWait (Finished True))) (?at (CrPass ?p))"
    by (rule go, rule crawler_step.cr_due) (simp add: crawler_due_def readyCount_def assms(1) sample_front_pool_fields)
  have "(crawl_step sample_platform)\<^sup>*\<^sup>* ?p (sample_pass c eds)"
    unfolding sample_pass_def
    by (rule one_front_starts) (simp_all add: assms suspended_def readyCount_def sample_front_pool_fields newPauseGate_wf)
  from pass_steps [OF this, of wb js "start_goroutines c d"]
  have 4: "(bg_own sample_platform wb js)\<^sup>*\<^sup>* (?at (CrPass ?p)) (?at (CrPass (sample_pass c eds)))"
    by (simp add: sample_pass_fields) (simp add: crawlAllFronts_def)
  have "?at (CrWait Checking) = start_goroutines c d"
    and "?at (CrPass (sample_pass c eds)) = (start_goroutines c d)\<lparr>bg_crawler := CrPass (sample_pass c eds)\<rparr>"
    by (simp_all add: start_goroutines_def)
  with 1 2 3 4 show ?thesis
    by (metis converse_rtranclp_into_rtranclp)
qed

lemma bg_own_steps: "(bg_own pf wb js)\<^sup>*\<^sup>* s t \<Longrightarrow> (bg_step pf wb js)\<^sup>*\<^sup>* s t"
  by (induction rule: rtranclp_induct) (auto simp: bg_step_def intro: rtranclp.rtrancl_into_rtrancl)

theorem background_crawl_is_bounded_witness:
  "\<exists>c s t. New sample_platform (sample_boot_codecs []) sample_boot (Some sample_config) [] = Inr c \<and>
     (bg_step sample_platform sample_web (\<lambda>_. Inr ''x''))\<^sup>*\<^sup>* (start_goroutines c Map.empty) s \<and> bg_crawler s = CrPass t \<and>
     vetting t = [0] \<and> length (started t) + length (vetting t) + length (hung t) \<le> 10"
proof -
  let ?js = "\<lambda>_. Inr ''x''" and ?eds = "\<lambda>_. sample_answers 202"
  obtain c where c: "New sample_platform (sample_boot_codecs []) sample_boot (Some sample_config) [] = Inr c"
    "c_pool c = sample_front_pool" "ctx_err c = None" "c_gate c = newPauseGate" "crawlerConcurrency c = 10"
    using sample_New by blast
  let ?t = "sample_pass c ?eds"
  let ?s = "(start_goroutines c Map.empty)\<lparr>bg_crawler := CrPass ?t\<rparr>"
  have r: "(bg_step sample_platform sample_web ?js)\<^sup>*\<^sup>* (start_goroutines c Map.empty) ?s"
    by (rule bg_own_steps) (rule sample_vetting [OF c(2-5)])
  have "bg_crawler ?s = CrPass ?t" by simp
  from background_crawl_is_bounded [OF c(1) r this]
  have "length (started ?t) + length (vetting ?t) + length (hung ?t) \<le> 10"
    by (simp add: default_client_def)
  with c(1) r show ?thesis
    by (intro exI [of _ c] exI [of _ ?s] exI [of _ ?t]) (simp add: sample_pass_fields)
qed

text \<open>An edge that accepts the connection and never answers.\<close>

lemma sample_hang:
  assumes "c_pool c = sample_front_pool" and "providers c = [(''cloudfront'', sample_expanded)]" and "silent (eds 0)"
  shows "crawl_step sample_platform (sample_pass c eds) ((sample_pass c eds)\<lparr>vetting := [], hung := [0]\<rparr>)"
proof -
  let ?s = "sample_pass c eds"
  note fr = sample_front_fields [of "c_pool c", unfolded assms(1), OF refl, folded assms(1)]
  have "providerFor c (mem (c_pool c) 0) = Some sample_expanded"
    by (simp add: providerFor_def assms(2) fr(4))
  moreover have "TestURL sample_expanded \<noteq> ''''"
    by (simp add: sample_expanded_def)
  moreover obtain conn where
    "dr_conn (fst (dialFront sample_dial_env (mem (c_pool c) 0) (certPool sample_platform c) (clientHelloID c))) = Some conn"
    using sample_dial_conn [OF fr(1-3)] by blast
  moreover obtain u where "url_Parse sample_platform (TestURL sample_expanded) = Inr u"
    by (simp add: sample_platform_def)
  ultimately have "fst (vetFront sample_platform (eds 0) sample_dial_env 0 c) = None"
    using vetFront_hangs [OF surjective_pairing, of sample_platform "eds 0" sample_dial_env 0 c] assms(3) by blast
  then show ?thesis
    using crawl_step.hang [of 0 ?s sample_platform] by (simp add: sample_pass_fields)
qed

theorem shutdown_ends_witness:
  "\<exists>c s. New sample_platform (sample_boot_codecs []) sample_boot (Some sample_config) [] = Inr c \<and>
     (bg_step sample_platform sample_web (\<lambda>_. Inr ''x''))\<^sup>*\<^sup>* (start_goroutines c Map.empty) s \<and> ended (bg_client s) \<and>
     \<not> (\<exists>u. (bg_step sample_platform sample_web (\<lambda>_. Inr ''x''))\<^sup>*\<^sup>* s u \<and> all_done u)"
proof -
  let ?js = "\<lambda>_. Inr ''x''" and ?eds = "\<lambda>_. (sample_answers 202)\<lparr>silent := True\<rparr>"
  obtain c where c: "New sample_platform (sample_boot_codecs []) sample_boot (Some sample_config) [] = Inr c"
    "c_pool c = sample_front_pool" "providers c = [(''cloudfront'', sample_expanded)]" "ctx_err c = None"
    "c_gate c = newPauseGate" "crawlerConcurrency c = 10"
    using sample_New by blast
  let ?s0 = "start_goroutines c Map.empty"
  let ?p = "sample_pass c ?eds" and ?q = "(sample_pass c ?eds)\<lparr>vetting := [], hung := [0]\<rparr>"
  let ?s1 = "?s0\<lparr>bg_crawler := CrPass ?p\<rparr>" and ?s2 = "?s0\<lparr>bg_crawler := CrPass ?q\<rparr>"
  let ?s3 = "?s2\<lparr>bg_client := c\<lparr>ctx_err := Some ErrCanceled\<rparr>\<rparr>"
  have "(bg_own sample_platform sample_web ?js)\<^sup>*\<^sup>* ?s0 ?s1"
    by (rule sample_vetting [OF c(2,4,5,6)])
  moreover have "(crawl_step sample_platform)\<^sup>*\<^sup>* ?p ?q"
    using sample_hang [OF c(2,3), of ?eds] by auto
  from pass_steps [OF this, of sample_web ?js ?s0]
  have "(bg_own sample_platform sample_web ?js)\<^sup>*\<^sup>* ?s1 ?s2"
    by (simp add: sample_pass_fields start_goroutines_def)
  ultimately have "(bg_step sample_platform sample_web ?js)\<^sup>*\<^sup>* ?s0 ?s2"
    by (meson bg_own_steps rtranclp_trans)
  moreover have "bg_env sample_platform ?s2 ?s3"
    by (rule bg_env.callers) (simp add: start_goroutines_def client_step.ending c(4))
  ultimately have r: "(bg_step sample_platform sample_web ?js)\<^sup>*\<^sup>* ?s0 ?s3"
    by (auto simp: bg_step_def intro: rtranclp.rtrancl_into_rtrancl)
  have e: "ended (bg_client ?s3)" by simp
  have "hanging ?s3"
    by (simp add: hanging_def)
  with shutdown_ends [OF c(1) r e] have "\<not> (\<exists>u. (bg_step sample_platform sample_web ?js)\<^sup>*\<^sup>* ?s3 u \<and> all_done u)"
    by blast
  with c(1) r e show ?thesis by blast
qed

theorem dirty_cache_is_saved_witness:
  "\<exists>t. (bg_own sample_platform sample_web (\<lambda>_. Inr ''x''))\<^sup>*\<^sup>*
       (start_goroutines (notifyCacheDirty (sample_client\<lparr>c_cache := FileCache ''f.json''\<rparr>)) Map.empty) t \<and>
     bg_disk t ''f.json'' = Some ''x''"
proof -
  let ?c = "notifyCacheDirty (sample_client\<lparr>c_cache := FileCache ''f.json''\<rparr>)"
  have "\<not> isPaused (c_gate ?c)" "cacheDirty ?c" "\<not> ended ?c" "c_cache ?c = FileCache ''f.json''"
    by (simp_all add: notifyCacheDirty_def sample_client_def default_client_def newPauseGate_wf)
  from dirty_cache_is_saved [OF this(2,3,1,4), of "\<lambda>_. Inr ''x''" id id "''x''" "start_goroutines ?c Map.empty"
      sample_platform sample_web]
  show ?thesis by (auto simp: start_goroutines_def)
qed

end
